(* ===== verification/Piri_Prelude.thy ===== *)
theory Piri_Prelude
  imports Main "HOL-Library.Word" "HOL-Library.Multiset"
begin

text \<open>
  The vocabulary shared by every component: the machine types of the Go sources, fallible results
  and their sequencing, the state-and-error operations used for the database code, and the
  generic lemmas on lists and words that the component proofs apply.
\<close>

section \<open>Machine types\<close>

text \<open>Go's \<open>uint64\<close>, \<open>byte\<close> and \<open>[]byte\<close>; a CID is kept as the string of its bytes.\<close>

type_synonym u64 = "64 word"
type_synonym byte = "8 word"
type_synonym bytes = "byte list"
type_synonym cid = string

section \<open>Fallible results\<close>

text \<open>
  A Go function returning \<open>(T, error)\<close> returns \<open>'e + 'a\<close> here: \<open>Inl\<close> is the error (or the
  panic), \<open>Inr\<close> the value. \<open>rbind\<close> is the idiom \<open>if err != nil { return err }\<close>.
\<close>

definition rbind :: "'e + 'a \<Rightarrow> ('a \<Rightarrow> 'e + 'b) \<Rightarrow> 'e + 'b" where
  "rbind m f = (case m of Inl e \<Rightarrow> Inl e | Inr x \<Rightarrow> f x)"

definition guardR :: "bool \<Rightarrow> 'e \<Rightarrow> 'e + unit" where
  "guardR b e = (if b then Inr () else Inl e)"

lemma rbind_Inr [simp]: "rbind (Inr x) f = f x"
  by (simp add: rbind_def)

lemma rbind_Inl [simp]: "rbind (Inl e) f = Inl e"
  by (simp add: rbind_def)

lemma rbind_eq_Inr: "rbind m f = Inr y \<longleftrightarrow> (\<exists>x. m = Inr x \<and> f x = Inr y)"
  by (cases m) simp_all

lemma rbind_eq_Inl: "rbind m f = Inl e \<longleftrightarrow> m = Inl e \<or> (\<exists>x. m = Inr x \<and> f x = Inl e)"
  by (cases m) simp_all

lemma guardR_eq_Inr [simp]: "guardR b e = Inr u \<longleftrightarrow> b"
  by (simp add: guardR_def)

lemma guardR_eq_Inl [simp]: "guardR b e = Inl e' \<longleftrightarrow> \<not> b \<and> e' = e"
  by (auto simp: guardR_def)

lemma rbind_cong [fundef_cong]:
  "m = m' \<Longrightarrow> (\<And>x. m' = Inr x \<Longrightarrow> f x = f' x) \<Longrightarrow> rbind m f = rbind m' f'"
  by (cases m') simp_all

lemmas rbind_splits = rbind_eq_Inr rbind_eq_Inl

section \<open>Words\<close>

lemma unat_power2 [simp]:
  assumes "k < 64"
  shows "unat ((2::u64) ^ k) = 2 ^ k"
proof -
  have "(2::nat) ^ k < 2 ^ LENGTH(64)"
    using assms by (simp only: power_strict_increasing_iff) simp
  moreover have "unat (of_nat (2 ^ k) :: u64) = 2 ^ k mod 2 ^ LENGTH(64)"
    by (simp only: unat_of_nat)
  ultimately show ?thesis
    by simp
qed

lemma power2_u64_inject [simp]:
  "j < 64 \<Longrightarrow> k < 64 \<Longrightarrow> (2::u64) ^ j = 2 ^ k \<longleftrightarrow> j = k"
  by (metis unat_power2 power_inject_exp one_less_numeral_iff semiring_norm(76))

lemma power2_u64_le [simp]:
  "j < 64 \<Longrightarrow> k < 64 \<Longrightarrow> (2::u64) ^ j \<le> 2 ^ k \<longleftrightarrow> j \<le> k"
  by (simp add: word_le_nat_alt)

lemma power2_u64_less [simp]:
  "j < 64 \<Longrightarrow> k < 64 \<Longrightarrow> (2::u64) ^ j < 2 ^ k \<longleftrightarrow> j < k"
  by (simp add: word_less_nat_alt)

text \<open>\<open>bits.OnesCount64\<close>, and the words with exactly one bit.\<close>

definition onesCount64 :: "u64 \<Rightarrow> nat" where
  "onesCount64 w = length (filter (bit w) [0..<64])"

lemma onesCount64_card: "onesCount64 w = card {i. bit w i}"
proof -
  have "set (filter (bit w) [0..<64]) = {i. bit w i}"
    using bit_imp_le_length [of w] by auto
  then show ?thesis
    using distinct_card [of "filter (bit w) [0..<64]"] by (simp add: onesCount64_def)
qed

lemma onesCount64_one_iff: "onesCount64 w = 1 \<longleftrightarrow> (\<exists>k<64. w = 2 ^ k)"
proof
  assume "onesCount64 w = 1"
  then obtain k where k: "{i. bit w i} = {k}"
    by (auto simp: onesCount64_card card_1_singleton_iff)
  then have "k < 64"
    using bit_imp_le_length [of w k] by auto
  moreover have "w = 2 ^ k"
    using k by (intro bit_word_eqI) (auto simp: bit_exp_iff)
  ultimately show "\<exists>k<64. w = 2 ^ k"
    by blast
next
  assume "\<exists>k<64. w = 2 ^ k"
  then obtain k where "k < 64" "w = 2 ^ k"
    by blast
  then have "{i. bit w i} = {k}"
    by (auto simp: bit_exp_iff)
  then show "onesCount64 w = 1"
    by (simp add: onesCount64_card)
qed

section \<open>Lists\<close>

lemma sorted_wrt_Cons_trans:
  assumes "transp R"
  shows "sorted_wrt R (x # y # ys) \<longleftrightarrow> R x y \<and> sorted_wrt R (y # ys)"
  using assms by (auto dest: transpD)

lemma mset_take_drop_eq: "mset (take n xs) + mset (drop n xs) = mset xs"
  by (metis append_take_drop_id mset_append)

lemma find_SomeD: "find P xs = Some x \<Longrightarrow> x \<in> set xs \<and> P x"
  by (metis find_Some_iff nth_mem)

lemma find_key_distinct:
  "distinct (map f xs) \<Longrightarrow> x \<in> set xs \<Longrightarrow> find (\<lambda>y. f y = f x) xs = Some x"
  by (induction xs) (auto simp: image_iff)

lemma find_key_map:
  "(\<And>x. f (g x) = f x) \<Longrightarrow> find (\<lambda>y. f y = k) (map g xs) = map_option g (find (\<lambda>y. f y = k) xs)"
  by (induction xs) auto

lemma find_key_filter:
  "find (\<lambda>y. f y = k) (filter (\<lambda>y. f y \<noteq> n) xs) = (if k = n then None else find (\<lambda>y. f y = k) xs)"
  by (induction xs) auto

lemma map_key_map: "(\<And>x. f (g x) = f x) \<Longrightarrow> map f (map g xs) = map f xs"
  by simp

lemma find_snoc: "find P (xs @ [x]) = (case find P xs of None \<Rightarrow> if P x then Some x else None | Some y \<Rightarrow> Some y)"
  by (induction xs) auto

end
