(* ===== verification/Piece_Aggregate.thy ===== *)
theory Piece_Aggregate
  imports Piri_Prelude
begin

text \<open>
  Aggregation of pieces into one Merkle tree, \<open>pkg/pdp/aggregation/aggregator/aggregate.go\<close>.

  The stack of partial trees is a list whose head is the last element of the Go slice. A slice
  conversion to a 32-byte array, an index into the table of zero commitments and a nil pointer
  are the places where the Go code panics; they are the value \<open>Panic\<close> here. The loop of
  \<open>visitLeaves\<close> steers by the bits of a wrapping 64-bit index, so it is a
  \<open>partial_function (option)\<close> whose result \<open>None\<close> means that it does not return.
\<close>

unbundle bit_operations_syntax

section \<open>Data\<close>

text \<open>
  What the code reads of a piece (an interface of libforge): its padded size, its commitment, its
  CID, and the padding that separates its padded from its unpadded size.
\<close>

record piece =
  PaddedSize :: u64
  DataCommitment :: bytes
  CID :: cid
  Padding :: u64

text \<open>
  The functions the aggregator calls and does not define: the SHA-256 digest, the 35-entry table
  \<open>zerocomm.PieceComms\<close>, and \<open>libpiece.MaxDataSize\<close> and \<open>libpiece.FromCommitmentAndSize\<close>, of
  which only the resulting CID is used.
\<close>

record agg_env =
  sha256 :: "bytes \<Rightarrow> bytes"
  PieceComms :: "nat \<Rightarrow> bytes"
  MaxDataSize :: "u64 \<Rightarrow> u64"
  FromCommitmentAndSize :: "bytes \<Rightarrow> u64 \<Rightarrow> cid option"

datatype aggErr =
    NoPieces
  | TooSmall nat u64
  | NotSorted
  | LeafMismatch
  | BuildLink
  | Panic

text \<open>A frame is built either without children or with both of them.\<close>

datatype stackFrame =
    LeafFrame (fsize: u64) (commP: bytes)
  | NodeFrame (fsize: u64) (commP: bytes) (left: stackFrame) (right: stackFrame)

record ProofData =
  Path :: "bytes list"
  Index :: u64

record AggregatePiece =
  Link :: cid
  InclusionProof :: ProofData

record Aggregate =
  Root :: cid
  Pieces :: "AggregatePiece list"

section \<open>Hashing\<close>

text \<open>\<open>(*merkletree.Node)(b)\<close> panics on fewer than 32 bytes and otherwise sees the first 32.\<close>

definition toNode :: "bytes \<Rightarrow> aggErr + bytes" where
  "toNode b = (if length b < 32 then Inl Panic else Inr (take 32 b))"

definition truncate :: "bytes \<Rightarrow> bytes" where
  "truncate n = n[256 div 8 - 1 := (n ! (256 div 8 - 1)) AND 0b00111111]"

definition computeNode :: "agg_env \<Rightarrow> bytes \<Rightarrow> bytes \<Rightarrow> aggErr + bytes" where
  "computeNode env l r =
     rbind (toNode l) (\<lambda>ln. rbind (toNode r) (\<lambda>rn.
     rbind (toNode (sha256 env (ln @ rn))) (\<lambda>digest. Inr (truncate digest))))"

text \<open>\<open>bits.TrailingZeros64\<close>: 64 for zero.\<close>

definition trailingZeros64 :: "u64 \<Rightarrow> nat" where
  "trailingZeros64 w = length (takeWhile (\<lambda>i. \<not> bit w i) [0..<64])"

definition zeroCommForSize :: "agg_env \<Rightarrow> u64 \<Rightarrow> aggErr + bytes" where
  "zeroCommForSize env s =
     (let i = int (trailingZeros64 s) - 7
      in if i < 0 \<or> 35 \<le> i then Inl Panic else Inr (PieceComms env (nat i)))"

section \<open>Building the tree\<close>

fun reduceStack :: "agg_env \<Rightarrow> stackFrame list \<Rightarrow> aggErr + stackFrame list" where
  "reduceStack env (r # l # s) =
     (if fsize l \<noteq> fsize r then Inr (r # l # s)
      else rbind (computeNode env (commP l) (commP r))
        (\<lambda>c. reduceStack env (NodeFrame (2 * fsize l) c l r # s)))"
| "reduceStack env s = Inr s"

text \<open>The checking loop of \<open>NewAggregate\<close>, with the piece's position and the last size.\<close>

fun sancheck :: "nat \<Rightarrow> u64 \<Rightarrow> piece list \<Rightarrow> aggErr + stackFrame list" where
  "sancheck i lastSize [] = Inr []"
| "sancheck i lastSize (p # ps) =
     (if PaddedSize p < 128 then Inl (TooSmall i (PaddedSize p))
      else if lastSize > 0 \<and> PaddedSize p > lastSize then Inl NotSorted
      else rbind (sancheck (Suc i) (PaddedSize p) ps)
        (\<lambda>todo. Inr (LeafFrame (PaddedSize p) (DataCommitment p) # todo)))"

fun pushAll :: "agg_env \<Rightarrow> stackFrame list \<Rightarrow> stackFrame list \<Rightarrow> aggErr + stackFrame list" where
  "pushAll env stack [] = Inr stack"
| "pushAll env stack (f # fs) =
     rbind (reduceStack env (f # stack)) (\<lambda>stack'. pushAll env stack' fs)"

lemma reduceStack_length: "reduceStack env s = Inr s' \<Longrightarrow> length s' \<le> length s"
proof (induction env s rule: reduceStack.induct)
  case (1 env r l s)
  then show ?case
    by (fastforce simp: rbind_eq_Inr split: if_splits)
qed simp_all

lemma reduceStack_same_length:
  "reduceStack env s = Inr s' \<Longrightarrow> length s' = length s \<Longrightarrow> s' = s"
proof (induction env s rule: reduceStack.induct)
  case (1 env r l s)
  show ?case
    using 1(2,3) reduceStack_length [of env "NodeFrame (2 * fsize l) _ l r # s" s']
    by (fastforce simp: rbind_eq_Inr split: if_splits)
qed simp_all

lemma trailingZeros64_le: "trailingZeros64 w \<le> 64"
  using length_takeWhile_le [of "\<lambda>i. \<not> bit w i" "[0..<64]"] by (simp add: trailingZeros64_def)

lemma trailingZeros64_below: "i < trailingZeros64 w \<Longrightarrow> \<not> bit w i"
proof -
  assume i: "i < trailingZeros64 w"
  then have "i < 64"
    using trailingZeros64_le [of w] by simp
  with i show "\<not> bit w i"
    using takeWhile_nth [of i "\<lambda>i. \<not> bit w i" "[0..<64]"]
      set_takeWhileD [of i "\<lambda>i. \<not> bit w i" "[0..<64]"]
    by (metis trailingZeros64_def nth_mem nth_upt add_0 diff_zero length_upt)
qed

lemma trailingZeros64_at: "trailingZeros64 w < 64 \<Longrightarrow> bit w (trailingZeros64 w)"
  using nth_length_takeWhile [of "\<lambda>i. \<not> bit w i" "[0..<64]"] by (simp add: trailingZeros64_def)

lemma trailingZeros64_eqI:
  assumes "n < 64" "bit w n" "\<And>i. i < n \<Longrightarrow> \<not> bit w i"
  shows "trailingZeros64 w = n"
proof (rule antisym)
  show "trailingZeros64 w \<le> n"
    using trailingZeros64_below [of n w] assms(2) by (meson not_le)
  then show "n \<le> trailingZeros64 w"
    using trailingZeros64_at [of w] assms(1,3) by (meson not_le order.strict_trans)
qed

lemma trailingZeros64_double:
  assumes "trailingZeros64 w < 63"
  shows "trailingZeros64 (2 * w) = Suc (trailingZeros64 w)"
proof (rule trailingZeros64_eqI)
  show "bit (2 * w) (Suc (trailingZeros64 w))"
    using assms trailingZeros64_at [of w] by (simp add: bit_double_iff)
  show "\<not> bit (2 * w) i" if "i < Suc (trailingZeros64 w)" for i
    using that trailingZeros64_below [of "i - 1" w] by (cases i) (auto simp: bit_double_iff)
qed (use assms in simp)

lemma trailingZeros64_power2 [simp]: "k < 64 \<Longrightarrow> trailingZeros64 (2 ^ k) = k"
  by (rule trailingZeros64_eqI) (auto simp: bit_exp_iff)

text \<open>The padding loop: it ends because each round that does not shorten the stack doubles its top.\<close>

function padStack :: "agg_env \<Rightarrow> stackFrame list \<Rightarrow> aggErr + stackFrame list" where
  "padStack env stack =
     (if length stack > 1 then
        (let lastSize = fsize (hd stack)
         in rbind (zeroCommForSize env lastSize) (\<lambda>z.
            rbind (reduceStack env (LeafFrame lastSize z # stack)) (\<lambda>stack'. padStack env stack')))
      else Inr stack)"
  by pat_completeness auto

termination
proof (relation "measures [\<lambda>(env, stack). length stack, \<lambda>(env, stack). 64 - trailingZeros64 (fsize (hd stack))]")
  fix env :: agg_env and stack stack' lastSize z
  assume len: "1 < length stack" and last: "lastSize = fsize (hd stack)"
    and z: "zeroCommForSize env lastSize = Inr z"
    and red: "reduceStack env (LeafFrame lastSize z # stack) = Inr stack'"
  obtain t s where stack: "stack = t # s"
    using len by (cases stack) auto
  have tz: "trailingZeros64 (fsize t) < 63"
    using z last stack by (auto simp: zeroCommForSize_def Let_def split: if_splits)
  obtain c where red': "reduceStack env (NodeFrame (2 * fsize t) c t (LeafFrame lastSize z) # s) = Inr stack'"
    using red last stack by (auto simp: rbind_eq_Inr)
  from reduceStack_length [OF red'] have "length stack' \<le> length stack"
    by (simp add: stack)
  moreover have "length stack' = length stack \<Longrightarrow> fsize (hd stack') = 2 * fsize t"
    using reduceStack_same_length [OF red'] by (simp add: stack)
  ultimately show "((env, stack'), (env, stack)) \<in> measures [\<lambda>(env, stack). length stack,
      \<lambda>(env, stack). 64 - trailingZeros64 (fsize (hd stack))]"
    using tz by (cases "length stack' = length stack") (auto simp: stack trailingZeros64_double)
qed simp

declare padStack.simps [simp del]

section \<open>Visiting the leaves\<close>

definition isRightNode :: "u64 \<Rightarrow> bool" where
  "isRightNode index \<longleftrightarrow> index mod 2 = 1"

text \<open>
  The list of parents has the innermost parent first: \<open>parents[len(parents)-1]\<close> is its head.
\<close>

fun getProof :: "stackFrame list \<Rightarrow> u64 \<Rightarrow> aggErr + bytes list" where
  "getProof [] index = Inr []"
| "getProof (LeafFrame _ _ # ps) index = Inl Panic"
| "getProof (NodeFrame _ _ l r # ps) index =
     rbind (toNode (commP (if isRightNode index then l else r))) (\<lambda>n.
     rbind (getProof ps (index div 2)) (\<lambda>rest. Inr (n # rest)))"

text \<open>The inner loop \<open>for isRightNode(index) && len(parents) > 0\<close>.\<close>

fun goUp :: "stackFrame list \<Rightarrow> u64 \<Rightarrow> stackFrame list \<times> u64" where
  "goUp [] index = ([], index)"
| "goUp (p # ps) index = (if isRightNode index then goUp ps (index div 2) else (p # ps, index))"

text \<open>A visitor receives the parents, the index and the commitment of a leaf, and threads its own state.\<close>

type_synonym 's visitor = "stackFrame list \<Rightarrow> u64 \<Rightarrow> bytes \<Rightarrow> 's \<Rightarrow> aggErr + (bool \<times> 's)"

partial_function (option) visitLoop ::
  "'s visitor \<Rightarrow> stackFrame list \<Rightarrow> u64 \<Rightarrow> stackFrame \<Rightarrow> 's \<Rightarrow> (aggErr + 's) option" where
  "visitLoop visitor parents index node st =
     (if parents = [] then Some (Inr st)
      else (case node of
        NodeFrame _ _ l _ \<Rightarrow> visitLoop visitor (node # parents) (index * 2) l st
      | LeafFrame _ c \<Rightarrow>
          (case visitor parents index c st of
            Inl e \<Rightarrow> Some (Inl e)
          | Inr (cont, st') \<Rightarrow>
              if \<not> cont then Some (Inr st')
              else (case goUp parents index of
                  ([], i) \<Rightarrow> visitLoop visitor [] i node st'
                | (p # ps, i) \<Rightarrow>
                    (case p of
                      NodeFrame _ _ _ r \<Rightarrow> visitLoop visitor (p # ps) (i + 1) r st'
                    | LeafFrame _ _ \<Rightarrow> Some (Inl Panic))))))"

definition visitLeaves :: "stackFrame \<Rightarrow> 's visitor \<Rightarrow> 's \<Rightarrow> (aggErr + 's) option" where
  "visitLeaves root visitor st =
     (case root of
       LeafFrame _ c \<Rightarrow> Some (rbind (visitor [] 0 c st) (\<lambda>(_, st'). Inr st'))
     | NodeFrame _ _ l _ \<Rightarrow> visitLoop visitor [root] 0 l st)"

section \<open>The aggregate\<close>

text \<open>The closure \<open>NewAggregate\<close> passes to \<open>visitLeaves\<close>: its state is \<open>aggregatePieces\<close> and \<open>pieceIndex\<close>.\<close>

definition pieceVisitor :: "piece list \<Rightarrow> (AggregatePiece list \<times> nat) visitor" where
  "pieceVisitor pieces parents index c = (\<lambda>(aps, pieceIndex).
     if pieceIndex \<ge> length pieces then Inl Panic
     else if DataCommitment (pieces ! pieceIndex) \<noteq> c then Inl LeafMismatch
     else rbind (getProof parents index) (\<lambda>path.
       let aps' = aps @ [\<lparr>Link = CID (pieces ! pieceIndex),
                         InclusionProof = \<lparr>Path = path, Index = index\<rparr>\<rparr>];
           pieceIndex' = Suc pieceIndex
       in Inr (pieceIndex' < length pieces, (aps', pieceIndex'))))"

definition actualDataSize :: "piece list \<Rightarrow> u64" where
  "actualDataSize pieces = sum_list (map PaddedSize pieces) - Padding (last pieces)"

definition NewAggregate :: "agg_env \<Rightarrow> piece list \<Rightarrow> (aggErr + Aggregate) option" where
  "NewAggregate env pieces =
     (if pieces = [] then Some (Inl NoPieces)
      else (case rbind (sancheck 0 0 pieces) (\<lambda>todo.
                 rbind (pushAll env [hd todo] (tl todo)) (\<lambda>stack. padStack env stack)) of
        Inl e \<Rightarrow> Some (Inl e)
      | Inr stack \<Rightarrow>
          (case visitLeaves (hd stack) (pieceVisitor pieces) ([], 0) of
            None \<Rightarrow> None
          | Some (Inl e) \<Rightarrow> Some (Inl e)
          | Some (Inr (aps, _)) \<Rightarrow>
              (case FromCommitmentAndSize env (commP (hd stack)) (MaxDataSize env (actualDataSize pieces)) of
                None \<Rightarrow> Some (Inl BuildLink)
              | Some link \<Rightarrow> Some (Inr \<lparr>Root = link, Pieces = aps\<rparr>)))))"

section \<open>The traversal is the in-order walk\<close>

text \<open>Reference definitions: the leaves with their parents and indices, and the visitor folded over them.\<close>

fun leavesAt :: "stackFrame \<Rightarrow> stackFrame list \<Rightarrow> u64 \<Rightarrow> (stackFrame list \<times> u64 \<times> bytes) list" where
  "leavesAt (LeafFrame s c) ps i = [(ps, i, c)]"
| "leavesAt (NodeFrame s c l r) ps i =
     leavesAt l (NodeFrame s c l r # ps) (2 * i) @ leavesAt r (NodeFrame s c l r # ps) (2 * i + 1)"

fun foldVisit :: "'s visitor \<Rightarrow> (stackFrame list \<times> u64 \<times> bytes) list \<Rightarrow> 's \<Rightarrow> aggErr + (bool \<times> 's)" where
  "foldVisit v [] st = Inr (True, st)"
| "foldVisit v ((ps, i, c) # xs) st =
     rbind (v ps i c st) (\<lambda>(cont, st'). if cont then foldVisit v xs st' else Inr (False, st'))"

fun height :: "stackFrame \<Rightarrow> nat" where
  "height (LeafFrame _ _) = 0"
| "height (NodeFrame _ _ l r) = Suc (max (height l) (height r))"

definition resume :: "'s visitor \<Rightarrow> stackFrame list \<Rightarrow> u64 \<Rightarrow> 's \<Rightarrow> (aggErr + 's) option" where
  "resume v ps i st =
     (case goUp ps i of
       ([], _) \<Rightarrow> Some (Inr st)
     | (p # qs, j) \<Rightarrow>
         (case p of NodeFrame _ _ _ r \<Rightarrow> visitLoop v (p # qs) (j + 1) r st
          | LeafFrame _ _ \<Rightarrow> Some (Inl Panic)))"

lemma isRightNode_odd: "isRightNode i \<longleftrightarrow> odd i"
  by (simp add: isRightNode_def odd_iff_mod_2_eq_one)

lemma isRightNode_double [simp]: "\<not> isRightNode (2 * i)" "isRightNode (2 * i + 1)"
  by (simp_all add: isRightNode_odd)

lemma unat_double:
  fixes i :: u64
  assumes "unat i < 2 ^ n" "n < 64"
  shows "unat (2 * i) = 2 * unat i" "unat (2 * i + 1) = 2 * unat i + 1"
proof -
  have "2 ^ n \<le> (2::nat) ^ 63"
    using assms(2) by (intro power_increasing) auto
  then have i: "2 * unat i + 1 < 2 ^ 64"
    using assms(1) by simp
  then show "unat (2 * i) = 2 * unat i"
    by (simp add: unat_word_ariths)
  then show "unat (2 * i + 1) = 2 * unat i + 1"
    using i by (simp add: unat_word_ariths)
qed

lemma double_div2:
  assumes "unat i < 2 ^ n" "n < 64"
  shows "(2 * i :: u64) div 2 = i" "(2 * i + 1 :: u64) div 2 = i"
  using unat_double [OF assms] by (simp_all add: word_unat_eq_iff unat_div)

lemma visitLoop_Nil [simp]: "visitLoop v [] i t st = Some (Inr st)"
  by (simp add: visitLoop.simps)

lemma foldVisit_append:
  "foldVisit v (xs @ ys) st =
     rbind (foldVisit v xs st) (\<lambda>(cont, st'). if cont then foldVisit v ys st' else Inr (False, st'))"
  by (induction v xs st rule: foldVisit.induct) (auto simp: rbind_def split: sum.splits)

lemma visitLoop_traversal:
  assumes "ps \<noteq> []" "length ps + height t \<le> 64" "unat i < 2 ^ length ps"
  shows "visitLoop v ps i t st =
     (case foldVisit v (leavesAt t ps i) st of
       Inl e \<Rightarrow> Some (Inl e)
     | Inr (cont, st') \<Rightarrow> if cont then resume v ps i st' else Some (Inr st'))"
  using assms
proof (induction t arbitrary: ps i st)
  case (LeafFrame s c)
  then show ?case
    by (subst visitLoop.simps)
      (auto simp: resume_def rbind_def split: sum.splits prod.splits list.splits)
next
  case (NodeFrame s c l r)
  let ?t = "NodeFrame s c l r"
  have len: "length ps < 64" "length (?t # ps) + height l \<le> 64" "length (?t # ps) + height r \<le> 64"
    using NodeFrame.prems by auto
  note i2 = unat_double [OF NodeFrame.prems(3) len(1)] double_div2 [OF NodeFrame.prems(3) len(1)]
  have go_right: "resume v (?t # ps) (2 * i) st' = visitLoop v (?t # ps) (2 * i + 1) r st'" for st'
    by (simp add: resume_def)
  have go_up: "resume v (?t # ps) (2 * i + 1) st' = resume v ps i st'" for st'
    by (simp add: resume_def i2)
  have "visitLoop v ps i ?t st = visitLoop v (?t # ps) (2 * i) l st"
    using NodeFrame.prems(1) by (subst visitLoop.simps) (simp add: mult.commute)
  also have "\<dots> = (case foldVisit v (leavesAt ?t ps i) st of
       Inl e \<Rightarrow> Some (Inl e)
     | Inr (cont, st') \<Rightarrow> if cont then resume v ps i st' else Some (Inr st'))"
    using NodeFrame.IH(1) [of "?t # ps" "2 * i" st] NodeFrame.IH(2) [of "?t # ps" "2 * i + 1"]
      len i2 NodeFrame.prems(3)
    by (auto simp: go_right go_up foldVisit_append rbind_def split: sum.splits prod.splits)
  finally show ?case .
qed

lemma visitLeaves_foldVisit:
  assumes "height root \<le> 64"
  shows "visitLeaves root v st = Some (rbind (foldVisit v (leavesAt root [] 0) st) (\<lambda>(_, st'). Inr st'))"
proof (cases root)
  case (LeafFrame s c)
  then show ?thesis
    by (auto simp: visitLeaves_def rbind_def split: sum.splits)
next
  case (NodeFrame s c l r)
  have "visitLoop v [root] 0 l st =
      (case foldVisit v (leavesAt root [] 0) st of
        Inl e \<Rightarrow> Some (Inl e) | Inr (cont, st') \<Rightarrow> Some (Inr st'))"
    using assms NodeFrame visitLoop_traversal [of "[root]" l 0 v]
      visitLoop_traversal [of "[root]" r 1 v]
    by (auto simp: foldVisit_append resume_def isRightNode_def rbind_def split: sum.splits prod.splits)
  then show ?thesis
    using NodeFrame by (auto simp: visitLeaves_def rbind_def split: sum.splits)
qed

section \<open>Well-formed trees and stacks\<close>

text \<open>What the aggregator relies on of the digest and of the table: 32-byte values.\<close>

definition env_ok :: "agg_env \<Rightarrow> bool" where
  "env_ok env \<longleftrightarrow> (\<forall>b. length (sha256 env b) = 32) \<and> (\<forall>i<35. length (PieceComms env i) = 32)"

definition hashNode :: "agg_env \<Rightarrow> bytes \<Rightarrow> bytes \<Rightarrow> bytes" where
  "hashNode env l r = truncate (sha256 env (l @ r))"

text \<open>A tree of exponent \<open>k\<close> has size \<open>2 ^ k\<close> and hashes its children at every node.\<close>

fun wfTree :: "agg_env \<Rightarrow> nat \<Rightarrow> stackFrame \<Rightarrow> bool" where
  "wfTree env k (LeafFrame s c) \<longleftrightarrow> s = 2 ^ k \<and> length c = 32"
| "wfTree env k (NodeFrame s c l r) \<longleftrightarrow>
     s = 2 ^ k \<and> 0 < k \<and> wfTree env (k - 1) l \<and> wfTree env (k - 1) r \<and>
     c = hashNode env (commP l) (commP r) \<and> length c = 32"

fun leaves :: "stackFrame \<Rightarrow> (u64 \<times> bytes) list" where
  "leaves (LeafFrame s c) = [(s, c)]"
| "leaves (NodeFrame s c l r) = leaves l @ leaves r"

definition stackLeaves :: "stackFrame list \<Rightarrow> (u64 \<times> bytes) list" where
  "stackLeaves st = concat (map leaves (rev st))"

definition weight :: "nat list \<Rightarrow> nat" where
  "weight ks = sum_list (map (\<lambda>k. 2 ^ k) ks)"

definition stackOK :: "agg_env \<Rightarrow> nat list \<Rightarrow> stackFrame list \<Rightarrow> bool" where
  "stackOK env ks st \<longleftrightarrow> ks \<noteq> [] \<and> list_all2 (wfTree env) ks st \<and> sorted_wrt (<) ks"

lemma weight_simps [simp]: "weight [] = 0" "weight (k # ks) = 2 ^ k + weight ks"
  by (simp_all add: weight_def)

lemma weight_member: "k \<in> set ks \<Longrightarrow> 2 ^ k \<le> weight ks"
  by (induction ks) auto

lemma weight_bound: "k \<in> set ks \<Longrightarrow> weight ks \<le> 2 ^ 42 \<Longrightarrow> k \<le> 42"
  using weight_member [of k ks] by (meson le_trans one_less_numeral_iff power_le_imp_le_exp semiring_norm(76))

lemma stackLeaves_Cons [simp]: "stackLeaves (f # st) = stackLeaves st @ leaves f"
  by (simp add: stackLeaves_def)

lemma stackLeaves_Nil [simp]: "stackLeaves [] = []"
  by (simp add: stackLeaves_def)

lemma wfTree_fsize: "wfTree env k t \<Longrightarrow> fsize t = 2 ^ k"
  by (cases t) auto

lemma wfTree_commP: "wfTree env k t \<Longrightarrow> length (commP t) = 32"
  by (cases t) auto

lemma wfTree_height: "wfTree env k t \<Longrightarrow> height t \<le> k"
  by (induction env k t rule: wfTree.induct) auto

lemma computeNode_hashNode:
  "env_ok env \<Longrightarrow> length l = 32 \<Longrightarrow> length r = 32 \<Longrightarrow> computeNode env l r = Inr (hashNode env l r)"
  by (simp add: computeNode_def toNode_def env_ok_def hashNode_def)

lemma length_hashNode [simp]: "env_ok env \<Longrightarrow> length (hashNode env l r) = 32"
  by (simp add: hashNode_def truncate_def env_ok_def)

lemma wfTree_combine:
  assumes "env_ok env" "wfTree env k l" "wfTree env k r"
  shows "wfTree env (Suc k) (NodeFrame (2 * fsize l) (hashNode env (commP l) (commP r)) l r)"
  using assms wfTree_fsize [of env k l] by simp

lemma reduceStack_ok:
  assumes "env_ok env" "wfTree env k f" "list_all2 (wfTree env) ks st" "sorted_wrt (<) ks"
    "\<And>j. j \<in> set ks \<Longrightarrow> k \<le> j" "weight (k # ks) \<le> 2 ^ 42"
  shows "\<exists>ks' st'. reduceStack env (f # st) = Inr st' \<and> stackOK env ks' st' \<and>
     stackLeaves st' = stackLeaves (f # st) \<and> weight ks' = weight (k # ks) \<and> k \<le> hd ks'"
  using assms(2-)
proof (induction ks arbitrary: k f st)
  case Nil
  then show ?case
    by (intro exI [of _ "[k]"] exI [of _ "[f]"]) (auto simp: stackOK_def)
next
  case (Cons j ks)
  then obtain l st' where st: "st = l # st'" "wfTree env j l" "list_all2 (wfTree env) ks st'"
    by (auto simp: list_all2_Cons1)
  have bnd: "k \<le> 42" "j \<le> 42"
    using Cons.prems(5) weight_bound [of _ "k # j # ks"] by auto
  show ?case
  proof (cases "k = j")
    case True
    let ?n = "NodeFrame (2 * fsize l) (hashNode env (commP l) (commP f)) l f"
    have "wfTree env (Suc k) ?n"
      using wfTree_combine [OF assms(1)] st(2) Cons.prems(1) True by simp
    moreover have "sorted_wrt (<) ks" "\<And>i. i \<in> set ks \<Longrightarrow> Suc k \<le> i" "weight (Suc k # ks) \<le> 2 ^ 42"
      using Cons.prems(3,5) True by auto
    ultimately obtain ks' st'' where
      "reduceStack env (?n # st') = Inr st''" "stackOK env ks' st''"
      "stackLeaves st'' = stackLeaves (?n # st')" "weight ks' = weight (Suc k # ks)" "Suc k \<le> hd ks'"
      using Cons.IH [of "Suc k" ?n st'] st(3) by blast
    then show ?thesis
      using st True Cons.prems(1) wfTree_fsize [of env k] wfTree_commP [of env k] assms(1)
      by (intro exI [of _ ks'] exI [of _ st'']) (auto simp: computeNode_hashNode)
  next
    case False
    then have "reduceStack env (f # st) = Inr (f # st)"
      using st(1,2) Cons.prems(1) bnd by (simp add: wfTree_fsize)
    moreover have "stackOK env (k # j # ks) (f # st)"
      using Cons.prems(1-4) False by (fastforce simp: stackOK_def)
    ultimately show ?thesis
      by (intro exI [of _ "k # j # ks"] exI [of _ "f # st"]) simp
  qed
qed

lemma pushAll_ok:
  assumes "env_ok env" "stackOK env ks st" "list_all2 (wfTree env) js fs"
    "sorted_wrt (\<ge>) (hd ks # js)" "weight ks + weight js \<le> 2 ^ 42"
    "\<And>j. j \<in> set (hd ks # js) \<Longrightarrow> m \<le> j"
  shows "\<exists>ks' st'. pushAll env st fs = Inr st' \<and> stackOK env ks' st' \<and>
     stackLeaves st' = stackLeaves st @ concat (map leaves fs) \<and> weight ks' = weight ks + weight js \<and>
     m \<le> hd ks'"
  using assms(2-)
proof (induction js arbitrary: ks st fs)
  case Nil
  then show ?case by auto
next
  case (Cons j js)
  then obtain f fs' where fs: "fs = f # fs'" "wfTree env j f" "list_all2 (wfTree env) js fs'"
    by (auto simp: list_all2_Cons1)
  have "j \<le> i" if "i \<in> set ks" for i
    using that Cons.prems(1,3) by (cases ks) (auto simp: stackOK_def)
  then obtain ks1 st1 where 1: "reduceStack env (f # st) = Inr st1" "stackOK env ks1 st1"
    "stackLeaves st1 = stackLeaves (f # st)" "weight ks1 = weight (j # ks)" "j \<le> hd ks1"
    using reduceStack_ok [OF assms(1) fs(2), of ks st] Cons.prems(1,4) by (auto simp: stackOK_def)
  have "sorted_wrt (\<ge>) (hd ks1 # js)" "weight ks1 + weight js \<le> 2 ^ 42"
    "\<And>i. i \<in> set (hd ks1 # js) \<Longrightarrow> m \<le> i"
    using Cons.prems(3,4) Cons.prems(5) 1(4,5) by (auto intro: le_trans [of m j])
  from Cons.IH [OF 1(2) fs(3) this] obtain ks2 st2 where
    "pushAll env st1 fs' = Inr st2" "stackOK env ks2 st2" "m \<le> hd ks2"
    "stackLeaves st2 = stackLeaves st1 @ concat (map leaves fs')" "weight ks2 = weight ks1 + weight js"
    by blast
  with 1 show ?case
    by (intro exI [of _ ks2] exI [of _ st2]) (simp add: fs(1))
qed

lemma weight_increasing:
  "sorted_wrt (<) (k # ks) \<Longrightarrow> 2 ^ k + weight (k # ks) \<le> 2 * 2 ^ last (k # ks)"
proof (induction ks arbitrary: k)
  case (Cons j ks)
  have "2 ^ Suc k \<le> (2::nat) ^ j"
    using Cons.prems by (intro power_increasing) auto
  with Cons.IH [of j] Cons.prems show ?case
    by simp
qed simp

lemma weight_last: "1 < length ks \<Longrightarrow> weight ks \<le> 2 ^ 42 \<Longrightarrow> 2 * 2 ^ last ks \<le> (2::nat) ^ 42"
proof -
  assume len: "1 < length ks" and w: "weight ks \<le> 2 ^ 42"
  have "weight ks = weight (butlast ks) + 2 ^ last ks"
    using len append_butlast_last_id [of ks]
    by (metis (no_types) weight_def add_0_right length_0_conv less_zeroE list.simps(8,9) map_append sum_list.Cons sum_list.Nil sum_list_append)
  moreover have "0 < weight (butlast ks)"
    using len by (cases "butlast ks") (auto dest: arg_cong [of _ _ length])
  ultimately have "(2::nat) ^ last ks < 2 ^ 42"
    using w by linarith
  then have "Suc (last ks) \<le> 42"
    by (meson Suc_leI one_less_numeral_iff power_less_imp_less_exp semiring_norm(76))
  from power_increasing [OF this, of "2::nat"] show "2 * 2 ^ last ks \<le> (2::nat) ^ 42"
    by simp
qed

lemma zeroCommForSize_power2:
  "7 \<le> k \<Longrightarrow> k \<le> 41 \<Longrightarrow> zeroCommForSize env (2 ^ k) = Inr (PieceComms env (k - 7))"
  by (auto simp: zeroCommForSize_def Let_def nat_diff_distrib')

lemma padStack_ok:
  assumes "env_ok env" "stackOK env ks st" "7 \<le> hd ks" "weight ks \<le> 2 ^ 42"
  shows "\<exists>k root zs. padStack env st = Inr [root] \<and> wfTree env k root \<and> k \<le> 42 \<and>
     leaves root = stackLeaves st @ zs"
  using assms
proof (induction env st arbitrary: ks rule: padStack.induct)
  case (1 env st)
  obtain k ks1 t st1 where ks: "ks = k # ks1" "st = t # st1" "wfTree env k t"
    "list_all2 (wfTree env) ks1 st1" "sorted_wrt (<) (k # ks1)"
    using 1(3) unfolding stackOK_def by (metis list.exhaust list_all2_Cons1)
  note len = list_all2_lengthD [OF ks(4)]
  show ?case
  proof (cases "1 < length st")
    case True
    have w: "2 ^ k + weight ks \<le> 2 ^ 42"
      using weight_increasing [OF ks(5)] weight_last [of ks] 1(5) True ks(1,2) len by simp
    then have "2 ^ Suc k \<le> (2::nat) ^ 42"
      by (simp add: ks(1))
    then have k: "7 \<le> k" "k \<le> 41"
      using 1(4) power_le_imp_le_exp [of "2::nat" "Suc k" 42] by (simp_all add: ks(1))
    let ?z = "LeafFrame (2 ^ k) (PieceComms env (k - 7))"
    have "wfTree env k ?z" "list_all2 (wfTree env) ks st" "sorted_wrt (<) ks" "\<And>j. j \<in> set ks \<Longrightarrow> k \<le> j"
      using 1(2,3) k ks(1,5) by (auto simp: env_ok_def stackOK_def)
    then obtain ks' st' where red: "reduceStack env (?z # st) = Inr st'" "stackOK env ks' st'"
      "stackLeaves st' = stackLeaves (?z # st)" "weight ks' = weight (k # ks)" "k \<le> hd ks'"
      using reduceStack_ok [OF 1(2), of k ?z ks st] w by auto
    have fs: "fsize (hd st) = 2 ^ k"
      using ks(2,3) by (simp add: wfTree_fsize)
    obtain k' root zs where "padStack env st' = Inr [root]" "wfTree env k' root" "k' \<le> 42"
      "leaves root = stackLeaves st' @ zs"
      using 1(1) [OF True refl, unfolded fs, OF zeroCommForSize_power2 [OF k] red(1) 1(2) red(2)]
        red(4,5) k w by auto
    moreover have "padStack env st = padStack env st'"
      using True fs zeroCommForSize_power2 [OF k] red(1) by (subst padStack.simps) (simp add: Let_def)
    ultimately show ?thesis
      using red(3) by auto
  next
    case False
    then have "st1 = []" "ks1 = []"
      using ks(2) len by auto
    with ks 1(5) weight_bound [of k ks] show ?thesis
      by (intro exI [of _ k] exI [of _ t] exI [of _ "[]"]) (simp add: padStack.simps)
  qed
qed

section \<open>Inclusion proofs\<close>

text \<open>The commitment reached from a leaf by hashing along a path, the index steering the side.\<close>

fun climb :: "agg_env \<Rightarrow> bytes \<Rightarrow> u64 \<Rightarrow> bytes list \<Rightarrow> bytes" where
  "climb env c i [] = c"
| "climb env c i (n # ns) =
     climb env (if isRightNode i then hashNode env n c else hashNode env c n) (i div 2) ns"

lemma leavesAt_proof:
  assumes "wfTree env k t" "getProof ps0 i0 = Inr rest" "length ps0 + height t \<le> 64"
    "unat i0 < 2 ^ length ps0" "(ps, i, c) \<in> set (leavesAt t ps0 i0)"
  shows "\<exists>path. getProof ps i = Inr path \<and> climb env c i path = climb env (commP t) i0 rest"
  using assms
proof (induction t arbitrary: k ps0 i0 rest)
  case (NodeFrame s h l r)
  let ?t = "NodeFrame s h l r"
  have len: "length ps0 < 64" "length (?t # ps0) + height l \<le> 64" "length (?t # ps0) + height r \<le> 64"
    using NodeFrame.prems(3) by auto
  note i2 = unat_double [OF NodeFrame.prems(4) len(1)] double_div2 [OF NodeFrame.prems(4) len(1)]
  have wf: "wfTree env (k - 1) l" "wfTree env (k - 1) r" "h = hashNode env (commP l) (commP r)"
    using NodeFrame.prems(1) by auto
  have "getProof (?t # ps0) (2 * i0) = Inr (commP r # rest)"
    "getProof (?t # ps0) (2 * i0 + 1) = Inr (commP l # rest)"
    using NodeFrame.prems(2) wf wfTree_commP [of env "k - 1"] by (simp_all add: toNode_def i2)
  from NodeFrame.IH(1) [OF wf(1) this(1) len(2)] NodeFrame.IH(2) [OF wf(2) this(2) len(3)]
    NodeFrame.prems(4,5) show ?case
    by (auto simp: i2 wf(3))
qed simp

lemma leavesAt_leaves: "map (\<lambda>(_, _, c). c) (leavesAt t ps i) = map snd (leaves t)"
  by (induction t arbitrary: ps i) auto

lemma length_leavesAt [simp]: "length (leavesAt t ps i) = length (leaves t)"
  by (induction t arbitrary: ps i) auto

definition offset :: "(u64 \<times> bytes) list \<Rightarrow> nat \<Rightarrow> nat" where
  "offset ls n = sum_list (map (unat \<circ> fst) (take n ls))"

lemma leaves_weight: "wfTree env k t \<Longrightarrow> k < 64 \<Longrightarrow> sum_list (map (unat \<circ> fst) (leaves t)) = 2 ^ k"
proof (induction env k t rule: wfTree.induct)
  case (2 env k s c l r)
  then show ?case by (cases k) auto
qed simp

lemma leavesAt_index:
  assumes "wfTree env k t" "k < 64" "length ps + height t \<le> 64" "unat i < 2 ^ length ps"
    "n < length (leaves t)"
  shows "unat (fst (snd (leavesAt t ps i ! n))) * unat (fst (leaves t ! n)) = unat i * 2 ^ k + offset (leaves t) n"
  using assms
proof (induction t arbitrary: k ps i n)
  case (LeafFrame s c)
  then show ?case by (simp add: offset_def)
next
  case (NodeFrame s c l r)
  let ?t = "NodeFrame s c l r"
  have len: "length ps < 64" "length (?t # ps) + height l \<le> 64" "length (?t # ps) + height r \<le> 64"
    using NodeFrame.prems(3) by auto
  note i2 = unat_double [OF NodeFrame.prems(4) len(1)]
  obtain k' where k: "k = Suc k'" "k' < 64" "wfTree env k' l" "wfTree env k' r"
    using NodeFrame.prems(1,2) by (cases k) auto
  show ?case
  proof (cases "n < length (leaves l)")
    case True
    then show ?thesis
      using NodeFrame.IH(1) [OF k(3,2) len(2), of "2 * i" n] NodeFrame.prems(4) i2
      by (simp add: nth_append offset_def k(1))
  next
    case False
    then show ?thesis
      using NodeFrame.IH(2) [OF k(4,2) len(3), of "2 * i + 1" "n - length (leaves l)"] NodeFrame.prems(4,5) i2
        leaves_weight [OF k(3,2)]
      by (simp add: nth_append offset_def k(1) algebra_simps)
  qed
qed

definition mkPiece :: "piece \<Rightarrow> stackFrame list \<times> u64 \<times> bytes \<Rightarrow> AggregatePiece" where
  "mkPiece p x = \<lparr>Link = CID p,
     InclusionProof = \<lparr>Path = projr (getProof (fst x) (fst (snd x))), Index = fst (snd x)\<rparr>\<rparr>"

lemma foldVisit_pieceVisitor:
  assumes "map (\<lambda>(_, _, c). c) xs = map DataCommitment (drop n pieces) @ zs" "n < length pieces"
    "\<And>ps i c. (ps, i, c) \<in> set xs \<Longrightarrow> \<exists>path. getProof ps i = Inr path"
  shows "foldVisit (pieceVisitor pieces) xs (aps, n) =
     Inr (False, aps @ map2 mkPiece (drop n pieces) xs, length pieces)"
  using assms
proof (induction xs arbitrary: n aps)
  case (Cons x xs)
  obtain ps i c where x: "x = (ps, i, c)" by (cases x)
  obtain path where path: "getProof ps i = Inr path"
    using Cons.prems(3) [of ps i c] x by auto
  have drop: "drop n pieces = pieces ! n # drop (Suc n) pieces"
    using Cons.prems(2) by (simp add: Cons_nth_drop_Suc)
  then have c: "DataCommitment (pieces ! n) = c"
    and rest: "map (\<lambda>(_, _, c). c) xs = map DataCommitment (drop (Suc n) pieces) @ zs"
    using Cons.prems(1) x by auto
  have step: "pieceVisitor pieces ps i c (aps, n) =
      Inr (Suc n < length pieces, aps @ [mkPiece (pieces ! n) x], Suc n)"
    using Cons.prems(2) by (simp add: pieceVisitor_def c path mkPiece_def x)
  show ?case
  proof (cases "Suc n < length pieces")
    case True
    have "\<exists>path. getProof qs j = Inr path" if "(qs, j, d) \<in> set xs" for qs j d
      using that Cons.prems(3) by (meson list.set_intros(2))
    from Cons.IH [OF rest True this] show ?thesis
      using True by (simp add: x step [unfolded x] drop)
  next
    case False
    with Cons.prems(2) show ?thesis
      by (simp add: x step [unfolded x] drop)
  qed
qed simp

section \<open>Aggregates of valid pieces\<close>

text \<open>
  A valid piece has a power of two of at least 128 as its padded size and a 32-byte commitment;
  valid pieces are sorted from the largest to the smallest and add up to at most \<open>2 ^ 42\<close>, the
  largest tree whose padding the table of zero commitments covers.
\<close>

definition expOf :: "piece \<Rightarrow> nat" where
  "expOf p = trailingZeros64 (PaddedSize p)"

definition goodPiece :: "piece \<Rightarrow> bool" where
  "goodPiece p \<longleftrightarrow> 7 \<le> expOf p \<and> expOf p < 64 \<and> PaddedSize p = 2 ^ expOf p \<and> length (DataCommitment p) = 32"

definition totalSize :: "piece list \<Rightarrow> nat" where
  "totalSize pieces = sum_list (map (unat \<circ> PaddedSize) pieces)"

definition descending :: "piece list \<Rightarrow> bool" where
  "descending pieces \<longleftrightarrow> sorted_wrt (\<lambda>p q. PaddedSize q \<le> PaddedSize p) pieces"

definition validPieces :: "piece list \<Rightarrow> bool" where
  "validPieces pieces \<longleftrightarrow> pieces \<noteq> [] \<and> (\<forall>p\<in>set pieces. goodPiece p) \<and> descending pieces \<and>
     totalSize pieces \<le> 2 ^ 42"

definition leafOf :: "piece \<Rightarrow> stackFrame" where
  "leafOf p = LeafFrame (PaddedSize p) (DataCommitment p)"

lemma sancheck_Inr_iff:
  "sancheck i lastSize ps = Inr todo \<longleftrightarrow>
     todo = map leafOf ps \<and> (\<forall>p\<in>set ps. 128 \<le> PaddedSize p) \<and> descending ps \<and>
     (ps \<noteq> [] \<and> 0 < lastSize \<longrightarrow> PaddedSize (hd ps) \<le> lastSize)"
proof (induction i lastSize ps arbitrary: todo rule: sancheck.induct)
  case (2 i lastSize p ps)
  have "0 < PaddedSize p" if "128 \<le> PaddedSize p"
    using less_le_trans [OF _ that, of 0] by simp
  moreover have "descending (p # ps) \<longleftrightarrow> descending ps \<and> (ps \<noteq> [] \<longrightarrow> PaddedSize (hd ps) \<le> PaddedSize p)"
    by (cases ps) (auto simp: descending_def)
  ultimately show ?case
    using 2 by (auto simp: rbind_eq_Inr leafOf_def not_less)
qed (auto simp: descending_def)

lemma goodPiece_128: "goodPiece p \<Longrightarrow> 128 \<le> PaddedSize p"
  using power2_u64_le [of 7 "expOf p"] by (simp add: goodPiece_def)

lemma goodPiece_wfTree: "goodPiece p \<Longrightarrow> wfTree env (expOf p) (leafOf p)"
  by (simp add: goodPiece_def leafOf_def)

lemma totalSize_weight: "\<forall>p\<in>set ps. goodPiece p \<Longrightarrow> totalSize ps = weight (map expOf ps)"
  by (induction ps) (auto simp: totalSize_def goodPiece_def)

lemma descending_exps:
  "\<forall>p\<in>set ps. goodPiece p \<Longrightarrow> descending ps \<Longrightarrow> sorted_wrt (\<ge>) (map expOf ps)"
  by (induction ps) (auto simp: descending_def goodPiece_def)

lemma NewAggregate_stack:
  assumes "env_ok env" "validPieces pieces"
  shows "\<exists>k root zs. rbind (sancheck 0 0 pieces) (\<lambda>todo.
       rbind (pushAll env [hd todo] (tl todo)) (\<lambda>stack. padStack env stack)) = Inr [root] \<and>
     wfTree env k root \<and> k \<le> 42 \<and>
     leaves root = map (\<lambda>p. (PaddedSize p, DataCommitment p)) pieces @ zs"
proof -
  obtain p ps where pieces: "pieces = p # ps"
    using assms(2) by (cases pieces) (auto simp: validPieces_def)
  have good: "\<forall>q\<in>set (p # ps). goodPiece q" and desc: "descending (p # ps)"
    and total: "totalSize (p # ps) \<le> 2 ^ 42"
    using assms(2) by (auto simp: validPieces_def pieces)
  have sane: "sancheck 0 0 pieces = Inr (map leafOf pieces)"
    using good desc goodPiece_128 by (simp only: sancheck_Inr_iff pieces) auto
  have "stackOK env [expOf p] [leafOf p]" "list_all2 (wfTree env) (map expOf ps) (map leafOf ps)"
    using good by (auto simp: stackOK_def goodPiece_wfTree list_all2_conv_all_nth)
  moreover have "sorted_wrt (\<ge>) (hd [expOf p] # map expOf ps)"
    "weight [expOf p] + weight (map expOf ps) \<le> 2 ^ 42"
    "\<And>j. j \<in> set (hd [expOf p] # map expOf ps) \<Longrightarrow> 7 \<le> j"
    using descending_exps [OF good desc] totalSize_weight [OF good] total good
    by (auto simp: goodPiece_def)
  ultimately obtain ks st where push: "pushAll env [leafOf p] (map leafOf ps) = Inr st" "stackOK env ks st"
    "stackLeaves st = stackLeaves [leafOf p] @ concat (map leaves (map leafOf ps))"
    "weight ks = weight [expOf p] + weight (map expOf ps)" "7 \<le> hd ks"
    using pushAll_ok [OF assms(1), of "[expOf p]" "[leafOf p]" "map expOf ps" "map leafOf ps" 7] by blast
  have "concat (map leaves (map leafOf qs)) = map (\<lambda>p. (PaddedSize p, DataCommitment p)) qs" for qs
    by (induction qs) (auto simp: leafOf_def)
  with push(3) have "stackLeaves st = map (\<lambda>p. (PaddedSize p, DataCommitment p)) pieces"
    by (simp add: pieces leafOf_def)
  moreover have "weight ks \<le> 2 ^ 42"
    using push(4) totalSize_weight [OF good] total by simp
  moreover have "rbind (sancheck 0 0 pieces) (\<lambda>todo.
      rbind (pushAll env [hd todo] (tl todo)) (\<lambda>stack. padStack env stack)) = padStack env st"
    by (simp only: sane rbind_Inr) (simp add: pieces push(1))
  ultimately show ?thesis
    using padStack_ok [OF assms(1) push(2,5)] by auto
qed

lemma NewAggregate_ok:
  assumes "env_ok env" "validPieces pieces"
  obtains k root zs where "wfTree env k root" "k \<le> 42"
    "leaves root = map (\<lambda>p. (PaddedSize p, DataCommitment p)) pieces @ zs"
    "NewAggregate env pieces =
       (case FromCommitmentAndSize env (commP root) (MaxDataSize env (actualDataSize pieces)) of
         None \<Rightarrow> Some (Inl BuildLink)
       | Some link \<Rightarrow> Some (Inr \<lparr>Root = link, Pieces = map2 mkPiece pieces (leavesAt root [] 0)\<rparr>))"
proof -
  obtain k root zs where 1: "rbind (sancheck 0 0 pieces) (\<lambda>todo.
       rbind (pushAll env [hd todo] (tl todo)) (\<lambda>stack. padStack env stack)) = Inr [root]"
    and 2: "wfTree env k root" "k \<le> 42"
      "leaves root = map (\<lambda>p. (PaddedSize p, DataCommitment p)) pieces @ zs"
    using NewAggregate_stack [OF assms] by blast
  have h: "height root \<le> 64"
    using wfTree_height [OF 2(1)] 2(2) by simp
  have ne: "pieces \<noteq> []"
    using assms(2) by (simp add: validPieces_def)
  have "\<exists>path. getProof ps i = Inr path" if "(ps, i, c) \<in> set (leavesAt root [] 0)" for ps i c
    using leavesAt_proof [OF 2(1), of "[]" 0 "[]" ps i c] h that by auto
  then have "foldVisit (pieceVisitor pieces) (leavesAt root [] 0) ([], 0) =
      Inr (False, [] @ map2 mkPiece (drop 0 pieces) (leavesAt root [] 0), length pieces)"
    using leavesAt_leaves [of root "[]" 0] ne
    by (intro foldVisit_pieceVisitor [of _ _ _ "map snd zs"]) (simp_all add: 2(3) comp_def)
  then have "NewAggregate env pieces =
       (case FromCommitmentAndSize env (commP root) (MaxDataSize env (actualDataSize pieces)) of
         None \<Rightarrow> Some (Inl BuildLink)
       | Some link \<Rightarrow> Some (Inr \<lparr>Root = link, Pieces = map2 mkPiece pieces (leavesAt root [] 0)\<rparr>))"
    unfolding NewAggregate_def 1 using ne visitLeaves_foldVisit [OF h, of "pieceVisitor pieces"]
    by (simp split: option.splits)
  then show thesis
    using that 2 by blast
qed


lemma sancheck_first_error:
  assumes "descending qs" "\<forall>q\<in>set qs. 128 \<le> PaddedSize q"
    "qs \<noteq> [] \<and> 0 < lastSize \<longrightarrow> PaddedSize (hd qs) \<le> lastSize"
    "PaddedSize p < 128 \<or> (\<exists>m. m = (if qs = [] then lastSize else PaddedSize (last qs)) \<and> 0 < m \<and> m < PaddedSize p)"
  shows "sancheck i lastSize (qs @ p # ps) =
     Inl (if PaddedSize p < 128 then TooSmall (i + length qs) (PaddedSize p) else NotSorted)"
  using assms
proof (induction qs arbitrary: i lastSize)
  case (Cons q qs)
  have "0 < PaddedSize q"
    using less_le_trans [of 0 128 "PaddedSize q"] Cons.prems(2) by simp
  moreover have "descending qs" "qs \<noteq> [] \<longrightarrow> PaddedSize (hd qs) \<le> PaddedSize q"
    using Cons.prems(1) by (auto simp: descending_def)
  ultimately show ?case
    using Cons.IH [of "PaddedSize q" "Suc i"] Cons.prems by (auto simp: not_less split: if_splits)
qed auto

lemma leavesAt_climb:
  assumes "wfTree env k root" "k \<le> 42" "n < length (leaves root)"
  shows "climb env (snd (leaves root ! n)) (fst (snd (leavesAt root [] 0 ! n)))
     (projr (getProof (fst (leavesAt root [] 0 ! n)) (fst (snd (leavesAt root [] 0 ! n))))) = commP root"
proof -
  obtain ps i c where x: "leavesAt root [] 0 ! n = (ps, i, c)"
    by (cases "leavesAt root [] 0 ! n")
  have "(ps, i, c) \<in> set (leavesAt root [] 0)"
    using assms(3) x by (metis length_leavesAt nth_mem)
  moreover have "c = snd (leaves root ! n)"
    using arg_cong [OF leavesAt_leaves [of root "[]" 0], of "\<lambda>xs. xs ! n"] assms(3) x by simp
  ultimately show ?thesis
    using leavesAt_proof [OF assms(1), of "[]" 0 "[]" ps i c] wfTree_height [OF assms(1)] assms(2) x
    by auto
qed

lemma NewAggregate_links:
  assumes "env_ok env" "validPieces pieces"
  shows "NewAggregate env pieces = Some (Inl BuildLink) \<and> (\<exists>c s. FromCommitmentAndSize env c s = None) \<or>
     (\<exists>agg. NewAggregate env pieces = Some (Inr agg) \<and> map Link (Pieces agg) = map CID pieces)"
proof -
  obtain k root zs where 1: "leaves root = map (\<lambda>p. (PaddedSize p, DataCommitment p)) pieces @ zs"
    "NewAggregate env pieces =
       (case FromCommitmentAndSize env (commP root) (MaxDataSize env (actualDataSize pieces)) of
         None \<Rightarrow> Some (Inl BuildLink)
       | Some link \<Rightarrow> Some (Inr \<lparr>Root = link, Pieces = map2 mkPiece pieces (leavesAt root [] 0)\<rparr>))"
    by (rule NewAggregate_ok [OF assms])
  have "map Link (map2 mkPiece pieces (leavesAt root [] 0)) = map CID pieces"
    using 1(1) by (intro nth_equalityI) (auto simp: mkPiece_def)
  with 1(2) show ?thesis
    by (auto split: option.splits)
qed

section \<open>Properties\<close>

text \<open>
  C1: for valid pieces \<open>NewAggregate\<close> returns, fails only if the aggregate's link cannot be built,
  keeps the pieces' links in order, and gives each piece an inclusion proof that hashes from the
  piece's commitment to the commitment of the aggregate's root.
\<close>

theorem NewAggregate_inclusion_proofs:
  assumes "env_ok env" "validPieces pieces"
  shows "\<exists>root aps.
     NewAggregate env pieces =
       Some (case FromCommitmentAndSize env root (MaxDataSize env (actualDataSize pieces)) of
         None \<Rightarrow> Inl BuildLink
       | Some link \<Rightarrow> Inr \<lparr>Root = link, Pieces = aps\<rparr>) \<and>
     map Link aps = map CID pieces \<and>
     (\<forall>n<length pieces. climb env (DataCommitment (pieces ! n)) (Index (InclusionProof (aps ! n)))
        (Path (InclusionProof (aps ! n))) = root)"
proof -
  obtain k root zs where 1: "wfTree env k root" "k \<le> 42"
    "leaves root = map (\<lambda>p. (PaddedSize p, DataCommitment p)) pieces @ zs"
    "NewAggregate env pieces =
       (case FromCommitmentAndSize env (commP root) (MaxDataSize env (actualDataSize pieces)) of
         None \<Rightarrow> Some (Inl BuildLink)
       | Some link \<Rightarrow> Some (Inr \<lparr>Root = link, Pieces = map2 mkPiece pieces (leavesAt root [] 0)\<rparr>))"
    by (rule NewAggregate_ok [OF assms])
  let ?aps = "map2 mkPiece pieces (leavesAt root [] 0)"
  have len: "length pieces \<le> length (leavesAt root [] 0)"
    by (simp add: 1(3))
  have "climb env (DataCommitment (pieces ! n)) (Index (InclusionProof (?aps ! n)))
      (Path (InclusionProof (?aps ! n))) = commP root" if "n < length pieces" for n
    using leavesAt_climb [OF 1(1,2), of n] that len by (simp add: 1(3) nth_append mkPiece_def)
  moreover have "map Link ?aps = map CID pieces"
    using len by (intro nth_equalityI) (auto simp: mkPiece_def)
  ultimately show ?thesis
    using 1(4) by (intro exI [of _ "commP root"] exI [of _ ?aps]) (auto split: option.splits)
qed
text \<open>A concrete environment and three pieces of 256, 128 and 128 bytes, for the witnesses.\<close>

definition sampleEnv :: agg_env where
  "sampleEnv = \<lparr>sha256 = (\<lambda>b. take 32 (map (\<lambda>x. x + 1) b @ replicate 32 7)),
     PieceComms = (\<lambda>i. replicate 32 (of_nat i)), MaxDataSize = (\<lambda>s. s - s div 128),
     FromCommitmentAndSize = (\<lambda>c s. Some ''root'')\<rparr>"

definition samplePieces :: "piece list" where
  "samplePieces =
     [\<lparr>PaddedSize = 256, DataCommitment = replicate 32 1, CID = ''a'', Padding = 0\<rparr>,
      \<lparr>PaddedSize = 128, DataCommitment = replicate 32 2, CID = ''b'', Padding = 0\<rparr>,
      \<lparr>PaddedSize = 128, DataCommitment = replicate 32 3, CID = ''c'', Padding = 27\<rparr>]"

lemma sampleEnv_ok: "env_ok sampleEnv"
  by (auto simp: env_ok_def sampleEnv_def min_def)

lemma samplePieces_valid: "validPieces samplePieces"
  using trailingZeros64_power2 [of 7] trailingZeros64_power2 [of 8]
  by (simp add: samplePieces_def validPieces_def goodPiece_def expOf_def descending_def totalSize_def)

theorem NewAggregate_inclusion_proofs_witness:
  "\<exists>root aps. NewAggregate sampleEnv samplePieces = Some (Inr \<lparr>Root = ''root'', Pieces = aps\<rparr>) \<and>
     map Link aps = [''a'', ''b'', ''c''] \<and>
     climb sampleEnv (replicate 32 3) (Index (InclusionProof (aps ! 2))) (Path (InclusionProof (aps ! 2))) = root"
proof -
  have "length samplePieces = 3" "map CID samplePieces = [''a'', ''b'', ''c'']"
    "DataCommitment (samplePieces ! 2) = replicate 32 3"
    by (simp_all add: samplePieces_def)
  then show ?thesis
    using NewAggregate_inclusion_proofs [OF sampleEnv_ok samplePieces_valid]
    by (auto simp: sampleEnv_def)
qed

text \<open>
  C2: the index of a piece's inclusion proof times the piece's padded size is the total padded size of the
  pieces before it, so pieces occupy disjoint, gap-free positions of the aggregate.
\<close>

theorem NewAggregate_positions:
  assumes "env_ok env" "validPieces pieces" "NewAggregate env pieces = Some (Inr agg)" "n < length pieces"
  shows "unat (Index (InclusionProof (Pieces agg ! n))) * unat (PaddedSize (pieces ! n)) =
     totalSize (take n pieces)"
proof -
  obtain k root zs where 1: "wfTree env k root" "k \<le> 42"
    "leaves root = map (\<lambda>p. (PaddedSize p, DataCommitment p)) pieces @ zs"
    "NewAggregate env pieces =
       (case FromCommitmentAndSize env (commP root) (MaxDataSize env (actualDataSize pieces)) of
         None \<Rightarrow> Some (Inl BuildLink)
       | Some link \<Rightarrow> Some (Inr \<lparr>Root = link, Pieces = map2 mkPiece pieces (leavesAt root [] 0)\<rparr>))"
    by (rule NewAggregate_ok [OF assms(1,2)])
  then have "Pieces agg = map2 mkPiece pieces (leavesAt root [] 0)"
    using assms(3) by (auto split: option.splits)
  moreover have "offset (leaves root) n = totalSize (take n pieces)"
    using assms(4) by (simp add: offset_def totalSize_def 1(3) comp_def take_map)
  ultimately show ?thesis
    using leavesAt_index [OF 1(1), of "[]" 0 n] wfTree_height [OF 1(1)] 1(2) assms(4)
    by (simp add: 1(3) nth_append mkPiece_def)
qed

theorem NewAggregate_positions_witness:
  "\<exists>agg. NewAggregate sampleEnv samplePieces = Some (Inr agg) \<and>
     unat (Index (InclusionProof (Pieces agg ! 2))) * 128 = 384"
proof -
  obtain agg where agg: "NewAggregate sampleEnv samplePieces = Some (Inr agg)"
    by (rule NewAggregate_ok [OF sampleEnv_ok samplePieces_valid]) (simp add: sampleEnv_def)
  have "unat (PaddedSize (samplePieces ! 2)) = 128" "totalSize (take 2 samplePieces) = 384" "2 < length samplePieces"
    by (simp_all add: samplePieces_def totalSize_def)
  then show ?thesis
    using NewAggregate_positions [OF sampleEnv_ok samplePieces_valid agg, of 2] agg by auto
qed

text \<open>
  C3: the iterative traversal, which steers by the bits of the index, visits exactly the leaves of the
  in-order walk, with their parents and indices, and stops where the visitor asks or fails.
\<close>

theorem visitLeaves_in_order:
  assumes "height root \<le> 64"
  shows "visitLeaves root v st = Some (rbind (foldVisit v (leavesAt root [] 0) st) (\<lambda>(_, st'). Inr st'))"
  by (rule visitLeaves_foldVisit [OF assms])

theorem visitLeaves_in_order_witness:
  "visitLeaves (NodeFrame 256 [] (LeafFrame 128 [1]) (LeafFrame 128 [2]))
     (\<lambda>ps i c seen. Inr (True, seen @ [(i, c)])) [] = Some (Inr [(0, [1]), (1, [2])])"
  by (subst visitLeaves_in_order) simp_all

text \<open>
  C4: the first piece that is too small or larger than its predecessor decides the error, with its
  position, whatever follows it.
\<close>

theorem NewAggregate_first_error:
  assumes "descending qs" "\<forall>q\<in>set qs. 128 \<le> PaddedSize q"
    "PaddedSize p < 128 \<or> qs \<noteq> [] \<and> PaddedSize (last qs) < PaddedSize p"
  shows "NewAggregate env (qs @ p # ps) =
     Some (Inl (if PaddedSize p < 128 then TooSmall (length qs) (PaddedSize p) else NotSorted))"
proof -
  have "0 < PaddedSize (last qs)" if "qs \<noteq> []"
    using that assms(2) less_le_trans [of 0 128 "PaddedSize (last qs)"] by simp
  then show ?thesis
    using sancheck_first_error [OF assms(1,2), of 0 p 0 ps] assms(3) by (auto simp: NewAggregate_def)
qed

theorem NewAggregate_first_error_witness:
  "NewAggregate sampleEnv (samplePieces @ samplePieces) = Some (Inl NotSorted)"
proof -
  have "descending samplePieces" "\<forall>q\<in>set samplePieces. 128 \<le> PaddedSize q"
    using samplePieces_valid goodPiece_128 by (auto simp: validPieces_def)
  then show ?thesis
    using NewAggregate_first_error [of samplePieces "hd samplePieces" sampleEnv "tl samplePieces"]
    by (simp add: samplePieces_def)
qed
end
