(* ===== verification/Piece_Fold.thy ===== *)
theory Piece_Fold
  imports Piece_Aggregate
begin

text \<open>
  Folding a stream of pieces into aggregates, \<open>pkg/pdp/aggregation/aggregator/fold.go\<close>, and the
  threshold it reads, \<open>policy.go\<close>. \<open>slices.BinarySearchFunc\<close> is modelled as the loop of Go's
  standard library.
\<close>

section \<open>The threshold\<close>

definition DefaultMinAggregateSize :: u64 where
  "DefaultMinAggregateSize = push_bit 20 128"

definition MinAllowedAggregateSize :: u64 where
  "MinAllowedAggregateSize = push_bit 20 1"

definition MaxAllowedAggregateSize :: u64 where
  "MaxAllowedAggregateSize = push_bit 40 1"

text \<open>A policy is what its \<open>read\<close> function returns now, \<open>None\<close> for a nil function.\<close>

type_synonym agg_policy = "u64 option"

definition MinAggregateSize :: "agg_policy \<Rightarrow> u64" where
  "MinAggregateSize p =
     (case p of
       None \<Rightarrow> DefaultMinAggregateSize
     | Some v \<Rightarrow> if v > 0 then v else DefaultMinAggregateSize)"

section \<open>Ordered insertion\<close>

text \<open>
  The loop of \<open>slices.BinarySearchFunc\<close> on the half-open interval from \<open>i\<close> to \<open>j\<close>; \<open>lt x\<close> says that
  the comparison with the target is negative.
\<close>

function binarySearch :: "('a \<Rightarrow> bool) \<Rightarrow> 'a list \<Rightarrow> nat \<Rightarrow> nat \<Rightarrow> nat" where
  "binarySearch lt xs i j =
     (if i < j then
        (let h = (i + j) div 2
         in if lt (xs ! h) then binarySearch lt xs (h + 1) j else binarySearch lt xs i h)
      else i)"
  by pat_completeness auto

termination
  by (relation "measure (\<lambda>(lt, xs, i, j). j - i)") auto

declare binarySearch.simps [simp del]

text \<open>The comparison \<open>cmp.Compare(target, test)\<close> is negative when the target is smaller.\<close>

definition InsertOrderedByDescendingSize :: "piece list \<Rightarrow> piece \<Rightarrow> piece list" where
  "InsertOrderedByDescendingSize sortedPieces newPiece =
     (let pos = binarySearch (\<lambda>test. PaddedSize newPiece < PaddedSize test) sortedPieces 0
                  (length sortedPieces)
      in take pos sortedPieces @ newPiece # drop pos sortedPieces)"

section \<open>The fold\<close>

fun appendLoop :: "agg_env \<Rightarrow> u64 \<Rightarrow> piece list \<Rightarrow> Aggregate list \<Rightarrow> piece list \<Rightarrow> u64
    \<Rightarrow> (aggErr + Aggregate list) option" where
  "appendLoop env minAggregateSize [] aggregates buffered tot = Some (Inr aggregates)"
| "appendLoop env minAggregateSize (p # ps) aggregates buffered tot =
     (if PaddedSize p > minAggregateSize then
        (case NewAggregate env [p] of
          None \<Rightarrow> None
        | Some (Inl e) \<Rightarrow> Some (Inl e)
        | Some (Inr a) \<Rightarrow> appendLoop env minAggregateSize ps (aggregates @ [a]) buffered tot)
      else
        (let buffered' = InsertOrderedByDescendingSize buffered p;
             tot' = tot + PaddedSize p
         in if tot' \<ge> minAggregateSize then
              (case NewAggregate env buffered' of
                None \<Rightarrow> None
              | Some (Inl e) \<Rightarrow> Some (Inl e)
              | Some (Inr a) \<Rightarrow> appendLoop env minAggregateSize ps (aggregates @ [a]) [] 0)
            else appendLoop env minAggregateSize ps aggregates buffered' tot'))"

definition Append :: "agg_env \<Rightarrow> piece list \<Rightarrow> agg_policy \<Rightarrow> (aggErr + Aggregate list) option" where
  "Append env pieces policy = appendLoop env (MinAggregateSize policy) pieces [] [] 0"

section \<open>The insertion point\<close>

lemma binarySearch_between:
  assumes "i \<le> L" "L \<le> j" "j \<le> length xs" "\<And>m. m < length xs \<Longrightarrow> lt (xs ! m) \<longleftrightarrow> m < L"
  shows "binarySearch lt xs i j = L"
  using assms
proof (induction lt xs i j rule: binarySearch.induct)
  case (1 lt xs i j)
  show ?case
  proof (cases "i < j")
    case True
    let ?h = "(i + j) div 2"
    have "?h < length xs"
      using True 1(5) by simp
    then have lt: "lt (xs ! ?h) \<longleftrightarrow> ?h < L"
      by (rule 1(6))
    show ?thesis
    proof (cases "?h < L")
      case True
      with \<open>i < j\<close> lt 1(1) [OF \<open>i < j\<close> refl] 1(3-6) show ?thesis
        by (subst binarySearch.simps) (simp add: Let_def)
    next
      case False
      with \<open>i < j\<close> lt 1(2) [OF \<open>i < j\<close> refl] 1(3-6) show ?thesis
        by (subst binarySearch.simps) (simp add: Let_def)
    qed
  qed (use 1(3,4) in \<open>simp add: binarySearch.simps\<close>)
qed

lemma takeWhile_prefix_iff:
  assumes "\<And>m n. m < n \<Longrightarrow> n < length xs \<Longrightarrow> lt (xs ! n) \<Longrightarrow> lt (xs ! m)" "m < length xs"
  shows "lt (xs ! m) \<longleftrightarrow> m < length (takeWhile lt xs)"
proof
  assume "lt (xs ! m)"
  then have "\<And>n. n < Suc m \<Longrightarrow> lt (xs ! n)"
    using assms by (metis less_Suc_eq)
  then show "m < length (takeWhile lt xs)"
    using length_takeWhile_less_P_nth [of "Suc m" lt xs] assms(2) by auto
next
  assume "m < length (takeWhile lt xs)"
  then show "lt (xs ! m)"
    using takeWhile_nth [of m lt xs] set_takeWhileD nth_mem by metis
qed

lemma InsertOrdered_takeWhile:
  assumes "descending ps"
  shows "InsertOrderedByDescendingSize ps p =
     takeWhile (\<lambda>q. PaddedSize p < PaddedSize q) ps @ p # dropWhile (\<lambda>q. PaddedSize p < PaddedSize q) ps"
proof -
  let ?lt = "\<lambda>q. PaddedSize p < PaddedSize q"
  have "\<And>m n. m < n \<Longrightarrow> n < length ps \<Longrightarrow> ?lt (ps ! n) \<Longrightarrow> ?lt (ps ! m)"
    using assms by (fastforce simp: descending_def dest: sorted_wrt_nth_less)
  from takeWhile_prefix_iff [where lt = ?lt, OF this] have "binarySearch ?lt ps 0 (length ps) = length (takeWhile ?lt ps)"
    by (intro binarySearch_between) (auto simp: length_takeWhile_le)
  then show ?thesis
    by (simp add: InsertOrderedByDescendingSize_def Let_def takeWhile_eq_take [symmetric] dropWhile_eq_drop [symmetric])
qed

lemma InsertOrdered_mset: "mset (InsertOrderedByDescendingSize ps p) = add_mset p (mset ps)"
  by (simp add: InsertOrderedByDescendingSize_def Let_def mset_take_drop_eq)

lemma descending_dropWhile_le:
  assumes "descending ds" "ds = [] \<or> \<not> PaddedSize p < PaddedSize (hd ds)" "q \<in> set ds"
  shows "PaddedSize q \<le> PaddedSize p"
  using assms by (cases ds) (auto simp: descending_def not_less intro: order_trans)

lemma InsertOrdered_descending:
  assumes "descending ps"
  shows "descending (InsertOrderedByDescendingSize ps p)"
proof -
  define ts ds where "ts = takeWhile (\<lambda>q. PaddedSize p < PaddedSize q) ps"
    and "ds = dropWhile (\<lambda>q. PaddedSize p < PaddedSize q) ps"
  have split: "descending (ts @ ds)"
    using assms by (simp add: ts_def ds_def)
  have "ds = [] \<or> \<not> PaddedSize p < PaddedSize (hd ds)"
    unfolding ds_def using hd_dropWhile by blast
  then have "PaddedSize q \<le> PaddedSize p" if "q \<in> set ds" for q
    using descending_dropWhile_le that split by (auto simp: descending_def sorted_wrt_append)
  moreover have "PaddedSize p \<le> PaddedSize q" if "q \<in> set ts" for q
    using that by (auto simp: ts_def dest: set_takeWhileD)
  ultimately have "descending (ts @ p # ds)"
    using split by (simp add: descending_def sorted_wrt_append)
  then show ?thesis
    by (simp add: InsertOrdered_takeWhile [OF assms] ts_def ds_def)
qed

section \<open>The groups a fold makes\<close>

text \<open>
  The contract of the buffer: insertion adds exactly the new piece and keeps the order. What the
  fold does with the pieces follows from it alone.
\<close>

locale piece_buffer =
  fixes ins :: "piece list \<Rightarrow> piece \<Rightarrow> piece list"
  assumes ins_mset: "mset (ins b p) = add_mset p (mset b)"
    and ins_descending: "descending b \<Longrightarrow> descending (ins b p)"

fun groups :: "(piece list \<Rightarrow> piece \<Rightarrow> piece list) \<Rightarrow> nat \<Rightarrow> piece list \<Rightarrow> piece list
    \<Rightarrow> piece list list \<times> piece list" where
  "groups ins T [] b = ([], b)"
| "groups ins T (p # ps) b =
     (if T < unat (PaddedSize p) then apfst ((#) [p]) (groups ins T ps b)
      else if T \<le> totalSize (ins b p) then apfst ((#) (ins b p)) (groups ins T ps [])
      else groups ins T ps (ins b p))"

lemma totalSize_mset: "mset ps = mset qs \<Longrightarrow> totalSize ps = totalSize qs"
proof -
  assume "mset ps = mset qs"
  then have "mset (map (unat \<circ> PaddedSize) ps) = mset (map (unat \<circ> PaddedSize) qs)"
    by simp
  then show ?thesis
    unfolding totalSize_def by (metis sum_mset_sum_list)
qed

lemma totalSize_simps [simp]:
  "totalSize [] = 0" "totalSize (p # ps) = unat (PaddedSize p) + totalSize ps"
  by (simp_all add: totalSize_def)

context piece_buffer
begin

lemma totalSize_ins: "totalSize (ins b p) = unat (PaddedSize p) + totalSize b"
  using totalSize_mset [of "ins b p" "p # b"] ins_mset by simp

lemma set_ins: "set (ins b p) = insert p (set b)"
  using arg_cong [OF ins_mset [of b p], of set_mset] by simp

lemma groups_mset:
  "mset (concat (fst (groups ins T ps b))) + mset (snd (groups ins T ps b)) = mset ps + mset b"
  by (induction ps arbitrary: b) (auto simp: ins_mset)

lemma groups_rest:
  "totalSize b < T \<Longrightarrow> totalSize (snd (groups ins T ps b)) < T"
  by (induction ps arbitrary: b) auto

lemma groups_size:
  "totalSize b < T \<Longrightarrow> g \<in> set (fst (groups ins T ps b)) \<Longrightarrow>
     T \<le> totalSize g \<and> (totalSize g < 2 * T \<or> (\<exists>p\<in>set ps. g = [p]))"
proof (induction ps arbitrary: b)
  case (Cons p ps)
  then show ?case
    using Cons.IH [of b] Cons.IH [of "[]"] Cons.IH [of "ins b p"] totalSize_ins [of b p]
    by (auto split: if_splits)
qed simp

lemma groups_descending:
  "descending b \<Longrightarrow> g \<in> set (fst (groups ins T ps b)) \<Longrightarrow> descending g"
proof (induction ps arbitrary: b)
  case (Cons p ps)
  then show ?case
    using Cons.IH [of b] Cons.IH [of "[]"] Cons.IH [of "ins b p"] ins_descending [of b p]
    by (auto simp: descending_def split: if_splits)
qed simp

lemma groups_member:
  "g \<in> set (fst (groups ins T ps b)) \<Longrightarrow> q \<in> set g \<Longrightarrow> q \<in> set ps \<union> set b"
  using arg_cong [OF groups_mset [of T ps b], of set_mset] by auto

end

interpretation desc_buffer: piece_buffer InsertOrderedByDescendingSize
  by unfold_locales (simp_all add: InsertOrdered_mset InsertOrdered_descending)

section \<open>The fold aggregates its groups\<close>

fun aggregateAll :: "agg_env \<Rightarrow> piece list list \<Rightarrow> (aggErr + Aggregate list) option" where
  "aggregateAll env [] = Some (Inr [])"
| "aggregateAll env (g # gs) =
     (case NewAggregate env g of
       None \<Rightarrow> None
     | Some (Inl e) \<Rightarrow> Some (Inl e)
     | Some (Inr a) \<Rightarrow> map_option (map_sum id ((#) a)) (aggregateAll env gs))"

lemma append_Nil_fun: "(@) [] = id"
  by (rule ext) simp

lemma append_snoc_fun: "(@) (xs @ [x]) = (\<lambda>ys. xs @ x # ys)"
  by (rule ext) simp

lemma appendLoop_groups:
  assumes "unat T \<le> 2 ^ 40" "unat tot = totalSize b" "totalSize b < unat T"
  shows "appendLoop env T ps aggs b tot =
     map_option (map_sum id ((@) aggs))
       (aggregateAll env (fst (groups InsertOrderedByDescendingSize (unat T) ps b)))"
  using assms(2,3)
proof (induction ps arbitrary: aggs b tot)
  case (Cons p ps)
  have 0: "0 < unat T"
    using Cons.prems(2) by simp
  show ?case
  proof (cases "T < PaddedSize p")
    case True
    then show ?thesis
      using Cons.IH [OF Cons.prems]
      by (simp add: word_less_nat_alt option.map_comp comp_def sum.map_comp append_snoc_fun split: option.split sum.split)
  next
    case False
    then have "unat (tot + PaddedSize p) = unat tot + unat (PaddedSize p)"
      using Cons.prems assms(1) by (intro unat_add_lem [THEN iffD1]) (simp add: word_less_nat_alt)
    then have tot: "unat (tot + PaddedSize p) = totalSize (InsertOrderedByDescendingSize b p)"
      using Cons.prems(1) by (simp add: desc_buffer.totalSize_ins)
    with False Cons.IH [OF tot] Cons.IH [of 0 "[]"] 0 show ?thesis
      by (simp add: word_less_nat_alt word_le_nat_alt Let_def option.map_comp comp_def sum.map_comp append_snoc_fun
          split: option.split sum.split)
  qed
qed (simp add: sum.map_comp comp_def)

text \<open>Pieces the fold accepts: valid on their own.\<close>

definition foldable :: "piece list \<Rightarrow> bool" where
  "foldable ps \<longleftrightarrow> (\<forall>p\<in>set ps. goodPiece p \<and> unat (PaddedSize p) \<le> 2 ^ 42)"

abbreviation foldGroups :: "agg_policy \<Rightarrow> piece list \<Rightarrow> piece list list \<times> piece list" where
  "foldGroups policy ps \<equiv> groups InsertOrderedByDescendingSize (unat (MinAggregateSize policy)) ps []"

lemma MinAggregateSize_pos: "0 < unat (MinAggregateSize policy)"
  by (auto simp: MinAggregateSize_def DefaultMinAggregateSize_def word_less_nat_alt split: option.split)

lemma groups_validPieces:
  assumes "foldable ps" "T \<le> 2 ^ 40" "0 < T" "g \<in> set (fst (groups InsertOrderedByDescendingSize T ps []))"
  shows "validPieces g"
proof -
  have size: "T \<le> totalSize g" "totalSize g < 2 * T \<or> (\<exists>p\<in>set ps. g = [p])"
    using desc_buffer.groups_size [of "[]" T g ps] assms(3,4) by auto
  have "totalSize g \<le> 2 ^ 42"
    using size(2) assms(1,2) by (auto simp: foldable_def)
  moreover have "descending g"
    using desc_buffer.groups_descending [OF _ assms(4)] by (simp add: descending_def)
  moreover have "\<forall>p\<in>set g. goodPiece p"
    using desc_buffer.groups_member [OF assms(4)] assms(1) by (auto simp: foldable_def)
  ultimately show ?thesis
    using size(1) assms(3) by (auto simp: validPieces_def)
qed

lemma aggregateAll_valid:
  assumes "env_ok env" "\<forall>g\<in>set gs. validPieces g"
  shows "aggregateAll env gs = Some (Inl BuildLink) \<and> (\<exists>c s. FromCommitmentAndSize env c s = None) \<or>
     (\<exists>aggs. aggregateAll env gs = Some (Inr aggs) \<and> map (map Link \<circ> Pieces) aggs = map (map CID) gs)"
  using assms(2)
proof (induction gs)
  case (Cons g gs)
  have "NewAggregate env g = Some (Inl BuildLink) \<and> (\<exists>c s. FromCommitmentAndSize env c s = None) \<or>
      (\<exists>a. NewAggregate env g = Some (Inr a) \<and> map Link (Pieces a) = map CID g)"
    using NewAggregate_links [OF assms(1), of g] Cons.prems by auto
  with Cons show ?case
    by auto
qed simp

lemma Append_groups:
  "unat (MinAggregateSize policy) \<le> 2 ^ 40 \<Longrightarrow>
     Append env ps policy = aggregateAll env (fst (foldGroups policy ps))"
  using appendLoop_groups [of "MinAggregateSize policy" 0 "[]" env ps "[]"] MinAggregateSize_pos [of policy]
  by (simp add: Append_def sum.map_id0 option.map_id0 append_Nil_fun)

lemma aggregateAll_lengths:
  assumes "env_ok env" "\<forall>g\<in>set gs. validPieces g" "\<And>c s. FromCommitmentAndSize env c s \<noteq> None"
  shows "\<exists>aggs. aggregateAll env gs = Some (Inr aggs) \<and> map (length \<circ> Pieces) aggs = map length gs"
proof -
  obtain aggs where aggs: "aggregateAll env gs = Some (Inr aggs)" "map (map Link \<circ> Pieces) aggs = map (map CID) gs"
    using aggregateAll_valid [OF assms(1,2)] assms(3) by auto
  have "map (length \<circ> Pieces) aggs = map length gs"
    using arg_cong [OF aggs(2), of "map length"] by (simp add: comp_def)
  with aggs(1) show ?thesis by blast
qed

section \<open>Properties\<close>

text \<open>
  C5: folding valid pieces returns, fails only if a link cannot be built, and loses and duplicates nothing:
  the aggregates' pieces together with a remainder below the threshold are the input. Each aggregate reaches
  the threshold, and one of several pieces stays below twice the threshold.
\<close>

theorem Append_conserves_pieces:
  assumes "env_ok env" "foldable ps" "MinAggregateSize policy \<le> MaxAllowedAggregateSize"
  shows "Append env ps policy = Some (Inl BuildLink) \<and> (\<exists>c s. FromCommitmentAndSize env c s = None) \<or>
     (\<exists>aggs gs rest. Append env ps policy = Some (Inr aggs) \<and>
        map (map Link \<circ> Pieces) aggs = map (map CID) gs \<and>
        mset (concat gs) + mset rest = mset ps \<and>
        totalSize rest < unat (MinAggregateSize policy) \<and>
        list_all (\<lambda>g. descending g \<and> unat (MinAggregateSize policy) \<le> totalSize g \<and>
          (totalSize g < 2 * unat (MinAggregateSize policy) \<or> length g = 1)) gs)"
proof -
  let ?T = "unat (MinAggregateSize policy)"
  define gs rest where "gs = fst (foldGroups policy ps)" and "rest = snd (foldGroups policy ps)"
  note T0 = MinAggregateSize_pos [of policy]
  have T: "?T \<le> 2 ^ 40"
    using assms(3) by (simp add: MaxAllowedAggregateSize_def word_le_nat_alt)
  have app: "Append env ps policy = aggregateAll env gs"
    by (simp add: Append_groups [OF T] gs_def)
  have "mset (concat gs) + mset rest = mset ps" "totalSize rest < ?T"
    using desc_buffer.groups_mset [of ?T ps "[]"] desc_buffer.groups_rest [of "[]" ?T ps] T0
    by (simp_all add: gs_def rest_def)
  moreover have "list_all (\<lambda>g. descending g \<and> ?T \<le> totalSize g \<and> (totalSize g < 2 * ?T \<or> length g = 1)) gs"
    using desc_buffer.groups_size [of "[]" ?T _ ps] desc_buffer.groups_descending [of "[]" _ ?T ps] T0
    by (fastforce simp: list_all_iff gs_def descending_def)
  moreover have "\<forall>g\<in>set gs. validPieces g"
    using groups_validPieces [OF assms(2) T T0] by (simp add: gs_def)
  ultimately show ?thesis
    unfolding app using aggregateAll_valid [OF assms(1)] by blast
qed

theorem Append_conserves_pieces_witness:
  "(\<exists>aggs gs rest. Append sampleEnv samplePieces (Some 256) = Some (Inr aggs) \<and>
      map (map Link \<circ> Pieces) aggs = map (map CID) gs \<and> mset (concat gs) + mset rest = mset samplePieces)"
proof -
  have "foldable samplePieces"
    using samplePieces_valid by (simp add: foldable_def validPieces_def) (simp add: samplePieces_def)
  moreover have "MinAggregateSize (Some 256) \<le> MaxAllowedAggregateSize"
    by (simp add: MinAggregateSize_def MaxAllowedAggregateSize_def)
  ultimately show ?thesis
    using Append_conserves_pieces [OF sampleEnv_ok, of samplePieces "Some 256"]
    by (auto simp: sampleEnv_def)
qed

text \<open>
  C6: inserting by binary search puts the piece in front of the pieces that are not larger, so the list
  stays sorted from the largest to the smallest and gains exactly the new piece.
\<close>

theorem InsertOrderedByDescendingSize_correct:
  assumes "descending ps"
  shows "InsertOrderedByDescendingSize ps p =
       takeWhile (\<lambda>q. PaddedSize p < PaddedSize q) ps @ p # dropWhile (\<lambda>q. PaddedSize p < PaddedSize q) ps \<and>
     descending (InsertOrderedByDescendingSize ps p) \<and>
     mset (InsertOrderedByDescendingSize ps p) = add_mset p (mset ps)"
  by (intro conjI InsertOrdered_takeWhile InsertOrdered_descending InsertOrdered_mset assms)

theorem InsertOrderedByDescendingSize_correct_witness:
  "map CID (InsertOrderedByDescendingSize samplePieces (samplePieces ! 2)) = [''a'', ''c'', ''b'', ''c'']"
proof -
  have "descending samplePieces"
    using samplePieces_valid by (simp add: validPieces_def)
  from InsertOrderedByDescendingSize_correct [OF this, of "samplePieces ! 2"] show ?thesis
    by (simp add: samplePieces_def)
qed

definition quarterGiB :: piece where
  "quarterGiB = \<lparr>PaddedSize = 256 * 2 ^ 20, DataCommitment = replicate 32 0, CID = ''q'', Padding = 0\<rparr>"

lemma quarterGiB_valid: "validPieces [quarterGiB]" "validPieces [quarterGiB, quarterGiB]"
  using trailingZeros64_power2 [of 28]
  by (simp_all add: quarterGiB_def validPieces_def goodPiece_def expOf_def descending_def)

text \<open>
  C7: a threshold that is not a power of two does not behave as the power of two below it: two pieces of
  256 MiB make two aggregates under a threshold of 256 MiB and one aggregate under 384 MiB.
\<close>

theorem threshold_between_powers_differs:
  "\<exists>two one. Append sampleEnv [quarterGiB, quarterGiB] (Some (256 * 2 ^ 20)) = Some (Inr two) \<and>
     map (length \<circ> Pieces) two = [1, 1] \<and>
     Append sampleEnv [quarterGiB, quarterGiB] (Some (384 * 2 ^ 20)) = Some (Inr one) \<and>
     map (length \<circ> Pieces) one = [2]"
proof -
  have gs: "foldGroups (Some (256 * 2 ^ 20)) [quarterGiB, quarterGiB] = ([[quarterGiB], [quarterGiB]], [])"
    "foldGroups (Some (384 * 2 ^ 20)) [quarterGiB, quarterGiB] = ([[quarterGiB, quarterGiB]], [])"
    by (simp_all add: MinAggregateSize_def InsertOrdered_takeWhile descending_def quarterGiB_def)
  have T: "unat (MinAggregateSize (Some (256 * 2 ^ 20))) \<le> 2 ^ 40" "unat (MinAggregateSize (Some (384 * 2 ^ 20))) \<le> 2 ^ 40"
    by (simp_all add: MinAggregateSize_def)
  have link: "FromCommitmentAndSize sampleEnv c s \<noteq> None" for c s
    by (simp add: sampleEnv_def)
  show ?thesis
    using aggregateAll_lengths [OF sampleEnv_ok _ link, of "[[quarterGiB], [quarterGiB]]"]
      aggregateAll_lengths [OF sampleEnv_ok _ link, of "[[quarterGiB, quarterGiB]]"] quarterGiB_valid
    unfolding Append_groups [OF T(1)] Append_groups [OF T(2)] gs by auto
qed

end
