(* ===== verification/Go_Strconv.thy ===== *)
theory Go_Strconv
  imports Piri_Prelude
begin

text \<open>
  What the sources use of Go's \<open>strconv\<close>: the decimal parsers \<open>ParseUint\<close>, \<open>ParseInt\<close> and \<open>Atoi\<close> for 64-bit
  integers and the formatter \<open>FormatInt\<close>, with the round trip between them.
\<close>

definition isDigit :: "char \<Rightarrow> bool" where
  "isDigit c \<longleftrightarrow> 48 \<le> (of_char c :: nat) \<and> (of_char c :: nat) \<le> 57"

definition digits :: "string \<Rightarrow> int option" where
  "digits s = (if s = [] \<or> \<not> list_all isDigit s then None
     else Some (foldl (\<lambda>n c. 10 * n + int (of_char c - 48)) 0 s))"

text \<open>\<open>strconv.ParseUint(s, 10, 64)\<close> and \<open>strconv.Atoi\<close>.\<close>

definition parseUint :: "string \<Rightarrow> u64 option" where
  "parseUint s = (case digits s of None \<Rightarrow> None | Some n \<Rightarrow> if n < 2 ^ 64 then Some (of_int n) else None)"

definition atoi :: "string \<Rightarrow> int option" where
  "atoi s =
     (let (neg, ds) = (case s of c # cs \<Rightarrow> if c = CHR ''-'' then (True, cs) else if c = CHR ''+'' then (False, cs)
                                 else (False, s) | [] \<Rightarrow> (False, s))
      in case digits ds of
           None \<Rightarrow> None
         | Some n \<Rightarrow> (let i = (if neg then - n else n)
                      in if - (2 ^ 63) \<le> i \<and> i < 2 ^ 63 then Some i else None))"

function formatNat :: "nat \<Rightarrow> string" where
  "formatNat n = (if n < 10 then [char_of (48 + n)] else formatNat (n div 10) @ [char_of (48 + n mod 10)])"
  by pat_completeness auto

termination
  by (relation "measure id") auto

declare formatNat.simps [simp del]

text \<open>\<open>strconv.FormatInt(i, 10)\<close>.\<close>

definition formatInt :: "int \<Rightarrow> string" where
  "formatInt i = (if i < 0 then CHR ''-'' # formatNat (nat (- i)) else formatNat (nat i))"

lemma of_char_digit: "d < 10 \<Longrightarrow> (of_char (char_of (48 + d) :: char) :: nat) = 48 + d"
  by simp

lemma isDigit_char: "(d::nat) < 10 \<Longrightarrow> isDigit (char_of (48 + d))"
  by (simp add: isDigit_def)

lemma digits_snoc:
  assumes "digits s = Some i" "d < 10"
  shows "digits (s @ [char_of (48 + d)]) = Some (10 * i + int d)"
  using assms isDigit_char [OF assms(2)] by (auto simp: digits_def split: if_splits)

lemma digits_formatNat: "digits (formatNat n) = Some (int n)"
proof (induction n rule: formatNat.induct)
  case (1 n)
  show ?case
  proof (cases "n < 10")
    case True
    then show ?thesis
      using isDigit_char [OF True] by (simp add: formatNat.simps digits_def)
  next
    case False
    have "digits (formatNat n) = Some (10 * int (n div 10) + int (n mod 10))"
      using digits_snoc [OF 1 [OF False], of "n mod 10"] False by (simp add: formatNat.simps [of n])
    also have "10 * int (n div 10) + int (n mod 10) = int n"
      by (metis mult_div_mod_eq of_nat_add of_nat_mult of_nat_numeral)
    finally show ?thesis .
  qed
qed

lemma formatNat_head: "\<exists>c cs. formatNat n = c # cs \<and> c \<noteq> CHR ''-'' \<and> c \<noteq> CHR ''+''"
proof -
  have "digits (formatNat n) \<noteq> None"
    by (simp add: digits_formatNat)
  then have "formatNat n \<noteq> []" "list_all isDigit (formatNat n)"
    by (auto simp: digits_def split: if_splits)
  then show ?thesis
    by (cases "formatNat n") (auto simp: isDigit_def)
qed

lemma atoi_formatInt:
  assumes "- (2 ^ 63) \<le> i" "i < 2 ^ 63"
  shows "atoi (formatInt i) = Some i"
proof -
  obtain c cs where "formatNat (nat i) = c # cs" "c \<noteq> CHR ''-''" "c \<noteq> CHR ''+''"
    using formatNat_head by blast
  then show ?thesis
    using assms digits_formatNat [of "nat i"] digits_formatNat [of "nat (- i)"]
    by (auto simp: atoi_def formatInt_def Let_def)
qed

end
