(* ===== verification/Dynamic_Config.thy ===== *)
theory Dynamic_Config
  imports Go_Strconv "HOL-Library.Sublist"
begin

text \<open>
  The runtime configuration, \<open>pkg/config/dynamic\<close>: the schemas that parse and validate raw values
  (\<open>schema.go\<close>), the registry with its updates, rollback and observers (\<open>registry.go\<close>), the reload from
  the configuration file and the nested write of a dotted key (\<open>viper.go\<close>).

  Go's \<open>int\<close> and \<open>uint\<close> are 64 bits wide. A finite \<open>float64\<close> is \<open>RFloat n k\<close>, the dyadic rational
  \<open>n / 2 ^ k\<close>; its conversion to \<open>int\<close> truncates and, out of range, is the smallest \<open>int\<close>, as on amd64.
  \<open>time.ParseDuration\<close> is the parameter \<open>pd\<close>. A Go map being iterated is a list of pairs
  in the order of that iteration.
\<close>

section \<open>Values and errors\<close>

datatype any =
    RUint u64
  | RUint64 u64
  | RInt int
  | RInt64 int
  | RFloat int nat
  | RFloatSpecial
  | RString string
  | RDuration int
  | ROther

datatype cfgErr =
    ParseError any
  | TypeError any
  | RangeError any any any
  | UnknownKeyError string
  | ValidationError string cfgErr
  | PersistError
  | AlreadyRegistered string
  | NoSuchKey string
  | ReadConfigError

section \<open>Schemas\<close>

datatype ConfigSchema =
    DurationSchema int int
  | IntSchema int int
  | UintSchema u64 u64
  | PowerOfTwoSchema u64 u64

text \<open>\<open>int(v)\<close> of a finite float, and the test \<open>v != float64(int(v))\<close>.\<close>

definition intOfFloat :: "int \<Rightarrow> nat \<Rightarrow> int" where
  "intOfFloat n k =
     (let t = sgn n * (\<bar>n\<bar> div 2 ^ k) in if - (2 ^ 63) \<le> t \<and> t < 2 ^ 63 then t else - (2 ^ 63))"

definition floatIsInt :: "int \<Rightarrow> nat \<Rightarrow> bool" where
  "floatIsInt n k \<longleftrightarrow> n = intOfFloat n k * 2 ^ k"

fun coerceUint :: "any \<Rightarrow> cfgErr + u64" where
  "coerceUint (RUint v) = Inr v"
| "coerceUint (RUint64 v) = Inr v"
| "coerceUint (RInt v) = (if v < 0 then Inl (ParseError (RInt v)) else Inr (of_int v))"
| "coerceUint (RInt64 v) = (if v < 0 then Inl (ParseError (RInt64 v)) else Inr (of_int v))"
| "coerceUint (RFloat n k) =
     (if \<not> floatIsInt n k then Inl (ParseError (RFloat n k))
      else if n < 0 then Inl (ParseError (RFloat n k))
      else Inr (of_int (intOfFloat n k)))"
| "coerceUint RFloatSpecial = Inl (ParseError RFloatSpecial)"
| "coerceUint (RString v) =
     (case parseUint v of None \<Rightarrow> Inl (ParseError (RString v)) | Some u \<Rightarrow> Inr u)"
| "coerceUint raw = Inl (TypeError raw)"

fun coerceInt :: "any \<Rightarrow> cfgErr + int" where
  "coerceInt (RInt v) = Inr v"
| "coerceInt (RInt64 v) = Inr v"
| "coerceInt (RFloat n k) =
     (if \<not> floatIsInt n k then Inl (ParseError (RFloat n k)) else Inr (intOfFloat n k))"
| "coerceInt RFloatSpecial = Inl (ParseError RFloatSpecial)"
| "coerceInt (RString v) = (case atoi v of None \<Rightarrow> Inl (ParseError (RString v)) | Some i \<Rightarrow> Inr i)"
| "coerceInt raw = Inl (TypeError raw)"

fun coerceDuration :: "(string \<Rightarrow> int option) \<Rightarrow> any \<Rightarrow> cfgErr + int" where
  "coerceDuration pd (RString v) = (case pd v of None \<Rightarrow> Inl (ParseError (RString v)) | Some d \<Rightarrow> Inr d)"
| "coerceDuration pd (RDuration d) = Inr d"
| "coerceDuration pd raw = Inl (TypeError raw)"

fun ParseAndValidate :: "(string \<Rightarrow> int option) \<Rightarrow> ConfigSchema \<Rightarrow> any \<Rightarrow> cfgErr + any" where
  "ParseAndValidate pd (DurationSchema mn mx) raw =
     rbind (coerceDuration pd raw) (\<lambda>d.
       if d < 0 \<or> (mn > 0 \<and> d < mn) then Inl (RangeError (RDuration d) (RDuration mn) (RDuration mx))
       else if mx > 0 \<and> d > mx then Inl (RangeError (RDuration d) (RDuration mn) (RDuration mx))
       else Inr (RDuration d))"
| "ParseAndValidate pd (IntSchema mn mx) raw =
     rbind (coerceInt raw) (\<lambda>i.
       if i < mn then Inl (RangeError (RInt i) (RInt mn) (RInt mx))
       else if i > mx then Inl (RangeError (RInt i) (RInt mn) (RInt mx))
       else Inr (RInt i))"
| "ParseAndValidate pd (UintSchema mn mx) raw =
     rbind (coerceUint raw) (\<lambda>u.
       if u < mn then Inl (RangeError (RUint u) (RUint mn) (RUint mx))
       else if u > mx then Inl (RangeError (RUint u) (RUint mn) (RUint mx))
       else Inr (RUint u))"
| "ParseAndValidate pd (PowerOfTwoSchema mn mx) raw =
     rbind (coerceUint raw) (\<lambda>u.
       if onesCount64 u \<noteq> 1 then Inl (ParseError (RUint u))
       else if u < mn then Inl (RangeError (RUint u) (RUint mn) (RUint mx))
       else if mx > 0 \<and> u > mx then Inl (RangeError (RUint u) (RUint mn) (RUint mx))
       else Inr (RUint u))"

section \<open>The registry\<close>

record ConfigEntry =
  Value :: any
  Schema :: ConfigSchema

record ChangeEvent =
  Key :: string
  OldValue :: any
  NewValue :: any
  Source :: string

record Registry =
  config :: "string \<rightharpoonup> ConfigEntry"
  observers :: "string \<Rightarrow> (u64 \<times> nat) list"
  nextObserverID :: u64

text \<open>An observer is a number here; a notification pairs it with the event it receives.\<close>

type_synonym notification = "nat \<times> ChangeEvent"

definition NewRegistry :: "(string \<rightharpoonup> ConfigEntry) \<Rightarrow> Registry" where
  "NewRegistry cfgs = \<lparr>config = cfgs, observers = (\<lambda>_. []), nextObserverID = 0\<rparr>"

text \<open>Phase 1 of \<open>Update\<close>: parse and validate every update.\<close>

fun parseUpdates :: "(string \<Rightarrow> int option) \<Rightarrow> Registry \<Rightarrow> (string \<times> any) list \<Rightarrow> cfgErr + (string \<times> any) list" where
  "parseUpdates pd r [] = Inr []"
| "parseUpdates pd r ((key, raw) # us) =
     (case config r key of
       None \<Rightarrow> Inl (UnknownKeyError key)
     | Some entry \<Rightarrow>
         (case ParseAndValidate pd (Schema entry) raw of
           Inl e \<Rightarrow> Inl (ValidationError key e)
         | Inr v \<Rightarrow> rbind (parseUpdates pd r us) (\<lambda>vs. Inr ((key, v) # vs))))"

text \<open>The loops that store values, used by phase 3 and by the rollback.\<close>

definition setValue :: "string \<Rightarrow> any \<Rightarrow> Registry \<Rightarrow> Registry" where
  "setValue key v r =
     r\<lparr>config := (config r)(key := map_option (\<lambda>entry. entry\<lparr>Value := v\<rparr>) (config r key))\<rparr>"

fun setValues :: "(string \<times> any) list \<Rightarrow> Registry \<Rightarrow> Registry" where
  "setValues [] r = r"
| "setValues ((key, v) # vs) r = setValues vs (setValue key v r)"

definition oldValues :: "Registry \<Rightarrow> (string \<times> any) list \<Rightarrow> (string \<times> any) list" where
  "oldValues r parsed = map (\<lambda>(key, _). (key, Value (the (config r key)))) parsed"

text \<open>
  What the locked section of \<open>Update\<close> leaves behind for its later phases: the parsed updates, the old
  values and the copied observers.
\<close>

record pendingUpdate =
  parsed :: "(string \<times> any) list"
  olds :: "(string \<times> any) list"
  observersCopy :: "string \<Rightarrow> (u64 \<times> nat) list"

text \<open>Phases 1 to 3, run under the lock.\<close>

definition updateLocked :: "(string \<Rightarrow> int option) \<Rightarrow> (string \<times> any) list \<Rightarrow> Registry
    \<Rightarrow> cfgErr + (pendingUpdate \<times> Registry)" where
  "updateLocked pd updates r =
     rbind (parseUpdates pd r updates) (\<lambda>ps.
       Inr (\<lparr>parsed = ps, olds = oldValues r ps, observersCopy = observers r\<rparr>, setValues ps r))"

text \<open>Phase 4 when persisting fails: the old values are stored again, in a second locked section.\<close>

definition updateRollback :: "pendingUpdate \<Rightarrow> Registry \<Rightarrow> Registry" where
  "updateRollback p r = setValues (olds p) r"

text \<open>Phase 5: the events in the order they are sent.\<close>

definition notifications :: "string \<Rightarrow> pendingUpdate \<Rightarrow> notification list" where
  "notifications source p =
     concat (map2 (\<lambda>(key, new) (_, old).
       map (\<lambda>(_, obs). (obs, \<lparr>Key = key, OldValue = old, NewValue = new, Source = source\<rparr>)) (observersCopy p key))
       (parsed p) (olds p))"

text \<open>
  \<open>Update\<close>. \<open>persister\<close> is \<open>None\<close> without a persister, otherwise the outcome of \<open>Persist\<close> as a function of
  the parsed updates (\<open>True\<close> for success).
\<close>

definition Update :: "(string \<Rightarrow> int option) \<Rightarrow> ((string \<times> any) list \<Rightarrow> bool) option \<Rightarrow> (string \<times> any) list
    \<Rightarrow> bool \<Rightarrow> string \<Rightarrow> Registry \<Rightarrow> (cfgErr + notification list) \<times> Registry" where
  "Update pd persister updates persist source r =
     (if updates = [] then (Inr [], r)
      else (case updateLocked pd updates r of
        Inl e \<Rightarrow> (Inl e, r)
      | Inr (p, r') \<Rightarrow>
          if persist \<and> (case persister of None \<Rightarrow> False | Some f \<Rightarrow> \<not> f (parsed p))
          then (Inl PersistError, updateRollback p r')
          else (Inr (notifications source p), r')))"

definition GetDuration :: "Registry \<Rightarrow> string \<Rightarrow> int \<Rightarrow> int" where
  "GetDuration r key fallback =
     (case config r key of
       Some entry \<Rightarrow> (case Value entry of RDuration d \<Rightarrow> d | _ \<Rightarrow> fallback)
     | None \<Rightarrow> fallback)"

definition GetInt :: "Registry \<Rightarrow> string \<Rightarrow> int \<Rightarrow> int" where
  "GetInt r key fallback =
     (case config r key of
       Some entry \<Rightarrow> (case Value entry of RInt i \<Rightarrow> i | _ \<Rightarrow> fallback)
     | None \<Rightarrow> fallback)"

definition GetUint :: "Registry \<Rightarrow> string \<Rightarrow> u64 \<Rightarrow> u64" where
  "GetUint r key fallback =
     (case config r key of
       Some entry \<Rightarrow> (case Value entry of RUint u \<Rightarrow> u | _ \<Rightarrow> fallback)
     | None \<Rightarrow> fallback)"

text \<open>\<open>RegisterEntries\<close>: conflicts first, then all entries.\<close>

definition RegisterEntries :: "(string \<times> ConfigEntry) list \<Rightarrow> Registry \<Rightarrow> (cfgErr + unit) \<times> Registry" where
  "RegisterEntries entries r =
     (case find (\<lambda>(key, _). config r key \<noteq> None) entries of
       Some (key, _) \<Rightarrow> (Inl (AlreadyRegistered key), r)
     | None \<Rightarrow> (Inr (), r\<lparr>config := foldl (\<lambda>c (key, entry). c(key \<mapsto> entry)) (config r) entries\<rparr>))"

text \<open>\<open>Subscribe\<close> returns the identifier its unsubscribe closure captures.\<close>

definition Subscribe :: "string \<Rightarrow> nat \<Rightarrow> Registry \<Rightarrow> (cfgErr + u64) \<times> Registry" where
  "Subscribe key observer r =
     (if config r key = None then (Inl (NoSuchKey key), r)
      else (Inr (nextObserverID r),
        r\<lparr>nextObserverID := nextObserverID r + 1,
          observers := (observers r)(key := observers r key @ [(nextObserverID r, observer)])\<rparr>))"

fun removeFirst :: "u64 \<Rightarrow> (u64 \<times> nat) list \<Rightarrow> (u64 \<times> nat) list" where
  "removeFirst i [] = []"
| "removeFirst i (e # es) = (if fst e = i then es else e # removeFirst i es)"

definition unsubscribe :: "string \<Rightarrow> u64 \<Rightarrow> Registry \<Rightarrow> Registry" where
  "unsubscribe key i r = r\<lparr>observers := (observers r)(key := removeFirst i (observers r key))\<rparr>"

section \<open>Reloading and persisting\<close>

text \<open>
  \<open>ViperBridge.Reload\<close>: \<open>file\<close> is the configuration file as read (\<open>None\<close> when it cannot be), giving the
  value of each key that is set; \<open>keys\<close> are the registered keys in their iteration order.
\<close>

definition Reload :: "(string \<Rightarrow> int option) \<Rightarrow> (string \<rightharpoonup> any) option \<Rightarrow> string list \<Rightarrow> Registry
    \<Rightarrow> (cfgErr + notification list) \<times> Registry" where
  "Reload pd file keys r =
     (case file of
       None \<Rightarrow> (Inl ReadConfigError, r)
     | Some v \<Rightarrow>
         let updates = concat (map (\<lambda>key. case v key of None \<Rightarrow> [] | Some raw \<Rightarrow> [(key, raw)]) keys)
         in Update pd None updates False ''file'' r)"

text \<open>A parsed TOML document: nested tables over scalar values.\<close>

datatype toml = Scalar any | Table "(string \<times> toml) list"

fun assocSet :: "string \<Rightarrow> 'v \<Rightarrow> (string \<times> 'v) list \<Rightarrow> (string \<times> 'v) list" where
  "assocSet k v [] = [(k, v)]"
| "assocSet k v ((k', v') # kvs) = (if k = k' then (k, v) # kvs else (k', v') # assocSet k v kvs)"

text \<open>\<open>strings.Split(key, ".")\<close>.\<close>

fun splitDots :: "string \<Rightarrow> string list" where
  "splitDots [] = [[]]"
| "splitDots (c # cs) =
     (if c = CHR ''.'' then [] # splitDots cs
      else (case splitDots cs of w # ws \<Rightarrow> (c # w) # ws | [] \<Rightarrow> [[c]]))"

text \<open>
  \<open>setNestedValue\<close> along the parts of a key: a missing part or one that is not a table becomes a new table.
  \<open>fmt\<close> is \<open>Duration.String\<close>.
\<close>

definition tomlValue :: "(int \<Rightarrow> string) \<Rightarrow> any \<Rightarrow> any" where
  "tomlValue fmt v = (case v of RDuration d \<Rightarrow> RString (fmt d) | _ \<Rightarrow> v)"

fun setNested :: "(int \<Rightarrow> string) \<Rightarrow> (string \<times> toml) list \<Rightarrow> string list \<Rightarrow> any \<Rightarrow> (string \<times> toml) list" where
  "setNested fmt m [] v = m"
| "setNested fmt m [p] v = assocSet p (Scalar (tomlValue fmt v)) m"
| "setNested fmt m (p # ps) v =
     assocSet p (Table (setNested fmt (case map_of m p of Some (Table t) \<Rightarrow> t | _ \<Rightarrow> []) ps v)) m"

definition setNestedValue :: "(int \<Rightarrow> string) \<Rightarrow> (string \<times> toml) list \<Rightarrow> string \<Rightarrow> any \<Rightarrow> (string \<times> toml) list" where
  "setNestedValue fmt m key v = setNested fmt m (splitDots key) v"

text \<open>
  \<open>TOMLPersister.Persist\<close>. The TOML codec is the pair of parameters \<open>unmarshal\<close> and \<open>marshal\<close>; the result is the
  file's content after the call, \<open>written\<close> tells whether the final write succeeds.
\<close>

datatype fileRead = FileError | FileMissing | FileContent string

definition Persist :: "(string \<Rightarrow> (string \<times> toml) list option) \<Rightarrow> ((string \<times> toml) list \<Rightarrow> string option) \<Rightarrow> (int \<Rightarrow> string)
    \<Rightarrow> fileRead \<Rightarrow> bool \<Rightarrow> (string \<times> any) list \<Rightarrow> cfgErr + string" where
  "Persist unmarshal marshal fmt file written updates =
     (case (case file of
             FileError \<Rightarrow> None
           | FileMissing \<Rightarrow> Some []
           | FileContent s \<Rightarrow> if s = [] then Some [] else unmarshal s) of
       None \<Rightarrow> Inl PersistError
     | Some cfg \<Rightarrow>
         (case marshal (foldl (\<lambda>m (key, v). setNestedValue fmt m key v) cfg updates) of
           None \<Rightarrow> Inl PersistError
         | Some out \<Rightarrow> if written then Inr out else Inl PersistError))"

section \<open>Validated values\<close>

lemma ParseAndValidate_idem:
  "ParseAndValidate pd s raw = Inr v \<Longrightarrow> ParseAndValidate pd s v = Inr v"
proof (cases s)
  case (UintSchema mn mx)
  then show "ParseAndValidate pd s raw = Inr v \<Longrightarrow> ParseAndValidate pd s v = Inr v"
    by (cases "coerceUint raw") (auto split: if_split_asm)
next
  case (PowerOfTwoSchema mn mx)
  then show "ParseAndValidate pd s raw = Inr v \<Longrightarrow> ParseAndValidate pd s v = Inr v"
    by (cases "coerceUint raw") (auto split: if_split_asm)
next
  case (IntSchema mn mx)
  then show "ParseAndValidate pd s raw = Inr v \<Longrightarrow> ParseAndValidate pd s v = Inr v"
    by (cases "coerceInt raw") (auto split: if_split_asm)
next
  case (DurationSchema mn mx)
  then show "ParseAndValidate pd s raw = Inr v \<Longrightarrow> ParseAndValidate pd s v = Inr v"
    by (cases "coerceDuration pd raw") (auto split: if_split_asm)
qed

definition validEntry :: "(string \<Rightarrow> int option) \<Rightarrow> ConfigEntry \<Rightarrow> bool" where
  "validEntry pd e \<longleftrightarrow> ParseAndValidate pd (Schema e) (Value e) = Inr (Value e)"

definition regValid :: "(string \<Rightarrow> int option) \<Rightarrow> Registry \<Rightarrow> bool" where
  "regValid pd r \<longleftrightarrow> (\<forall>k e. config r k = Some e \<longrightarrow> validEntry pd e)"

text \<open>A value that a schema accepts as it stands may be stored under a key of that schema.\<close>

definition storable :: "(string \<Rightarrow> int option) \<Rightarrow> Registry \<Rightarrow> string \<times> any \<Rightarrow> bool" where
  "storable pd r kv \<longleftrightarrow>
     (\<exists>e. config r (fst kv) = Some e \<and> ParseAndValidate pd (Schema e) (snd kv) = Inr (snd kv))"

text \<open>The schemas of the keys, which no operation changes.\<close>

definition schemas :: "Registry \<Rightarrow> string \<rightharpoonup> ConfigSchema" where
  "schemas r k = map_option Schema (config r k)"

lemma storable_schemas:
  "storable pd r kv \<longleftrightarrow> (\<exists>s. schemas r (fst kv) = Some s \<and> ParseAndValidate pd s (snd kv) = Inr (snd kv))"
  by (auto simp: storable_def schemas_def)

lemma setValue_schemas [simp]: "schemas (setValue k v r) = schemas r"
  by (rule ext) (simp add: schemas_def setValue_def option.map_comp comp_def)

lemma setValues_schemas [simp]: "schemas (setValues vs r) = schemas r"
  by (induction vs r rule: setValues.induct) simp_all

lemma storable_setValues [simp]: "storable pd (setValues vs r) = storable pd r"
  by (rule ext) (simp add: storable_schemas)

lemma setValue_regValid: "regValid pd r \<Longrightarrow> storable pd r (k, v) \<Longrightarrow> regValid pd (setValue k v r)"
  by (auto simp: regValid_def storable_def setValue_def validEntry_def)

lemma setValues_regValid:
  "regValid pd r \<Longrightarrow> \<forall>kv\<in>set vs. storable pd r kv \<Longrightarrow> regValid pd (setValues vs r)"
proof (induction vs r rule: setValues.induct)
  case (2 k v vs r)
  then show ?case
    using setValue_regValid [of pd r k v] storable_setValues [of pd "[(k, v)]" r] by simp
qed simp

lemma parseUpdates_storable:
  "parseUpdates pd r us = Inr ps \<Longrightarrow> kv \<in> set ps \<Longrightarrow> storable pd r kv"
proof (induction pd r us arbitrary: ps rule: parseUpdates.induct)
  case (2 pd r key raw us)
  then obtain entry v vs where *: "config r key = Some entry" "ParseAndValidate pd (Schema entry) raw = Inr v"
    "parseUpdates pd r us = Inr vs" "ps = (key, v) # vs"
    by (auto simp: rbind_eq_Inr split: option.splits sum.splits)
  with 2 ParseAndValidate_idem [OF *(2)] show ?case
    by (auto simp: storable_def)
qed simp

lemma parseUpdates_keys: "parseUpdates pd r us = Inr ps \<Longrightarrow> map fst ps = map fst us"
  by (induction pd r us arbitrary: ps rule: parseUpdates.induct)
    (auto simp: rbind_eq_Inr split: option.splits sum.splits)

lemma config_setValues:
  "distinct (map fst vs) \<Longrightarrow> config (setValues vs r) k =
     (case map_of vs k of None \<Rightarrow> config r k | Some v \<Rightarrow> map_option (\<lambda>e. e\<lparr>Value := v\<rparr>) (config r k))"
proof (induction vs r rule: setValues.induct)
  case (2 k' v vs r)
  moreover have "map_of vs k' = None"
    using 2(2) by (simp add: map_of_eq_None_iff)
  ultimately show ?case
    by (cases "k = k'") (auto simp: setValue_def split: option.splits)
qed simp

lemma setValues_other [simp]:
  "observers (setValues vs r) = observers r" "nextObserverID (setValues vs r) = nextObserverID r"
  by (induction vs r rule: setValues.induct) (simp_all add: setValue_def)

lemma setValues_restore:
  assumes "distinct (map fst ps)" "\<forall>kv\<in>set ps. config r (fst kv) \<noteq> None"
  shows "setValues (oldValues r ps) (setValues ps r) = r"
proof -
  have keys: "map fst (oldValues r ps) = map fst ps"
    by (simp add: oldValues_def case_prod_beta comp_def)
  have lookup: "map_of (oldValues r ps) k = map_option (\<lambda>_. Value (the (config r k))) (map_of ps k)" for k
    by (induction ps) (auto simp: oldValues_def)
  have "config (setValues (oldValues r ps) (setValues ps r)) k = config r k" for k
  proof (cases "map_of ps k")
    case (Some v)
    then have "config r k \<noteq> None"
      using assms(2) map_of_SomeD [OF Some] by fastforce
    with Some show ?thesis
      using assms(1) keys by (auto simp: config_setValues lookup)
  qed (use assms(1) keys in \<open>simp add: config_setValues lookup\<close>)
  then show ?thesis
    by (intro Registry.equality) (simp_all add: fun_eq_iff)
qed

section \<open>Updates as transactions\<close>

lemma updateLocked_Inr:
  assumes "updateLocked pd us r = Inr (p, r')"
  shows "parseUpdates pd r us = Inr (parsed p)" "olds p = oldValues r (parsed p)"
    "observersCopy p = observers r" "r' = setValues (parsed p) r"
  using assms by (auto simp: updateLocked_def rbind_eq_Inr)

lemma updateLocked_rollback:
  assumes "distinct (map fst us)" "updateLocked pd us r = Inr (p, r')"
  shows "updateRollback p r' = r"
proof -
  note p = updateLocked_Inr [OF assms(2)]
  have "distinct (map fst (parsed p))"
    using parseUpdates_keys [OF p(1)] assms(1) by simp
  moreover have "\<forall>kv\<in>set (parsed p). config r (fst kv) \<noteq> None"
    using parseUpdates_storable [OF p(1)] by (auto simp: storable_def)
  ultimately show ?thesis
    by (simp add: updateRollback_def p setValues_restore)
qed

lemma parseUpdates_lookup:
  "parseUpdates pd r us = Inr ps \<Longrightarrow> map_of us k = Some raw \<Longrightarrow>
     \<exists>e v. config r k = Some e \<and> ParseAndValidate pd (Schema e) raw = Inr v \<and> map_of ps k = Some v"
  by (induction pd r us arbitrary: ps rule: parseUpdates.induct)
    (auto simp: rbind_eq_Inr split: option.splits sum.splits if_split_asm)

lemma parseUpdates_lookup_None:
  "parseUpdates pd r us = Inr ps \<Longrightarrow> map_of us k = None \<Longrightarrow> map_of ps k = None"
  using parseUpdates_keys [of pd r us ps] by (metis map_of_eq_None_iff list.set_map)

lemma map2_map_same: "map2 f xs (map g xs) = map (\<lambda>x. f x (g x)) xs"
  by (induction xs) auto

lemma notifications_alt:
  "olds p = oldValues r (parsed p) \<Longrightarrow> notifications source p =
     concat (map (\<lambda>(key, new). map (\<lambda>(_, obs). (obs, \<lparr>Key = key, OldValue = Value (the (config r key)),
       NewValue = new, Source = source\<rparr>)) (observersCopy p key)) (parsed p))"
  by (simp only: notifications_def oldValues_def map2_map_same)
    (auto intro!: arg_cong [where f = concat] map_cong)

section \<open>Interleaved operations\<close>

text \<open>
  Between the locked section of an update and its end other operations run, so the state of a running node is
  the registry and the updates that are still to persist. An update ends by committing, or by rolling back
  when persisting fails.
\<close>

inductive cfgStep :: "(string \<Rightarrow> int option) \<Rightarrow> Registry \<times> pendingUpdate list \<Rightarrow> Registry \<times> pendingUpdate list \<Rightarrow> bool"
  for pd :: "string \<Rightarrow> int option" where
  locked: "updateLocked pd us r = Inr (p, r') \<Longrightarrow> cfgStep pd (r, ps) (r', p # ps)"
| commit: "p \<in> set ps \<Longrightarrow> cfgStep pd (r, ps) (r, remove1 p ps)"
| rollback: "p \<in> set ps \<Longrightarrow> cfgStep pd (r, ps) (updateRollback p r, remove1 p ps)"
| register: "RegisterEntries es r = (Inr (), r') \<Longrightarrow> \<forall>e\<in>set es. validEntry pd (snd e) \<Longrightarrow> cfgStep pd (r, ps) (r', ps)"
| subscribe: "Subscribe k obs r = (Inr i, r') \<Longrightarrow> cfgStep pd (r, ps) (r', ps)"
| unsubscribed: "cfgStep pd (r, ps) (unsubscribe k i r, ps)"

inductive_cases cfgStepE: "cfgStep pd s s'"

definition cfgInv :: "(string \<Rightarrow> int option) \<Rightarrow> Registry \<times> pendingUpdate list \<Rightarrow> bool" where
  "cfgInv pd s \<longleftrightarrow> regValid pd (fst s) \<and> (\<forall>p\<in>set (snd s). \<forall>kv\<in>set (olds p). storable pd (fst s) kv)"

lemma regValid_storable: "regValid pd r \<Longrightarrow> config r k = Some e \<Longrightarrow> storable pd r (k, Value e)"
  by (auto simp: regValid_def storable_def validEntry_def)

lemma RegisterEntries_config:
  assumes "RegisterEntries es r = (Inr (), r')"
  shows "config r \<subseteq>\<^sub>m config r'"
    "config r' k = Some e \<Longrightarrow> config r k = Some e \<or> (k, e) \<in> set es"
proof -
  have upd: "config r' = foldl (\<lambda>c (key, entry). c(key \<mapsto> entry)) (config r) es"
    and new: "\<And>kv. kv \<in> set es \<Longrightarrow> config r (fst kv) = None"
    using assms by (auto simp: RegisterEntries_def find_None_iff split: option.splits)
  have gen: "foldl (\<lambda>c (key, entry). c(key \<mapsto> entry)) c es k = Some e \<Longrightarrow> c k = Some e \<or> (k, e) \<in> set es" for c k e
    by (induction es arbitrary: c) (fastforce split: if_splits)+
  have keep: "k \<notin> fst ` set es \<Longrightarrow> foldl (\<lambda>c (key, entry). c(key \<mapsto> entry)) c es k = c k"
    for c :: "string \<rightharpoonup> ConfigEntry" and k
    by (induction es arbitrary: c) auto
  show "config r' k = Some e \<Longrightarrow> config r k = Some e \<or> (k, e) \<in> set es"
    using gen upd by simp
  show "config r \<subseteq>\<^sub>m config r'"
    unfolding map_le_def upd
  proof
    fix k assume "k \<in> dom (config r)"
    then have "k \<notin> fst ` set es"
      using new by force
    then show "config r k = foldl (\<lambda>c (key, entry). c(key \<mapsto> entry)) (config r) es k"
      by (simp add: keep)
  qed
qed


lemma storable_mono: "config r \<subseteq>\<^sub>m config r' \<Longrightarrow> storable pd r kv \<Longrightarrow> storable pd r' kv"
  unfolding storable_def by (metis domI map_le_def)

lemma cfgInv_locked:
  assumes "cfgInv pd (r, ps)" "updateLocked pd us r = Inr (p, r')"
  shows "cfgInv pd (r', p # ps)"
proof -
  note p = updateLocked_Inr [OF assms(2)]
  have st: "storable pd r kv" if "kv \<in> set (parsed p)" for kv
    using parseUpdates_storable [OF p(1) that] .
  have "storable pd r kv" if old: "kv \<in> set (olds p)" for kv
  proof -
    obtain k v where kv: "(k, v) \<in> set (parsed p)" "kv = (k, Value (the (config r k)))"
      using old by (auto simp: p(2) oldValues_def)
    then obtain e where "config r k = Some e"
      using st [OF kv(1)] by (auto simp: storable_def)
    then show ?thesis
      using assms(1) kv(2) regValid_storable [of pd r k e] by (simp add: cfgInv_def)
  qed
  then show ?thesis
    using assms(1) st by (simp add: cfgInv_def p(4) setValues_regValid)
qed

lemma cfgStep_cfgInv: "cfgStep pd s s' \<Longrightarrow> cfgInv pd s \<Longrightarrow> cfgInv pd s'"
proof (induction rule: cfgStep.induct)
  case (locked us r p r' ps)
  then show ?case by (rule cfgInv_locked [rotated])
next
  case (commit p ps r)
  then show ?case
    by (auto simp: cfgInv_def dest: set_mp [OF set_remove1_subset])
next
  case (rollback p ps r)
  then show ?case
    by (auto simp: cfgInv_def updateRollback_def setValues_regValid dest: set_mp [OF set_remove1_subset])
next
  case (register es r r' ps)
  have "regValid pd r'"
    using register RegisterEntries_config(2) [OF register(1)] by (fastforce simp: cfgInv_def regValid_def)
  then show ?case
    using register(3) storable_mono [OF RegisterEntries_config(1) [OF register(1)]] by (auto simp: cfgInv_def)
next
  case (subscribe k obs r i r' ps)
  then have "config r' = config r"
    by (auto simp: Subscribe_def split: if_splits)
  with subscribe show ?case
    by (simp add: cfgInv_def regValid_def storable_def)
next
  case (unsubscribed r ps k i)
  then show ?case
    by (simp add: cfgInv_def regValid_def storable_def unsubscribe_def)
qed

lemma cfgSteps_cfgInv: "(cfgStep pd)\<^sup>*\<^sup>* s s' \<Longrightarrow> cfgInv pd s \<Longrightarrow> cfgInv pd s'"
  by (induction rule: rtranclp_induct) (auto intro: cfgStep_cfgInv)

section \<open>Nested keys\<close>

fun nestedLookup :: "(string \<times> toml) list \<Rightarrow> string list \<Rightarrow> toml option" where
  "nestedLookup m [] = Some (Table m)"
| "nestedLookup m [p] = map_of m p"
| "nestedLookup m (p # ps) = (case map_of m p of Some (Table t) \<Rightarrow> nestedLookup t ps | _ \<Rightarrow> None)"

lemma map_of_assocSet: "map_of (assocSet k v m) = (map_of m)(k \<mapsto> v)"
  by (induction k v m rule: assocSet.induct) auto

lemma splitDots_ne [simp]: "splitDots key \<noteq> []"
  by (induction key) (auto split: list.splits)

lemma setNested_same:
  "path \<noteq> [] \<Longrightarrow> nestedLookup (setNested fmt m path v) path = Some (Scalar (tomlValue fmt v))"
  by (induction fmt m path v rule: setNested.induct) (auto simp: map_of_assocSet)

lemma nestedLookup_Nil [simp]: "q \<noteq> [] \<Longrightarrow> nestedLookup [] q = None"
  by (cases "([] :: (string \<times> toml) list, q)" rule: nestedLookup.cases) auto

lemma setNested_other:
  "\<not> prefix path q \<Longrightarrow> \<not> prefix q path \<Longrightarrow> nestedLookup (setNested fmt m path v) q = nestedLookup m q"
proof (induction fmt m path v arbitrary: q rule: setNested.induct)
  case (2 fmt m p v)
  then obtain a q' where "q = a # q'" "a \<noteq> p"
    by (cases q) auto
  then show ?case
    by (cases q') (auto simp: map_of_assocSet)
next
  case (3 fmt m p p' ps v)
  obtain a q' where q: "q = a # q'"
    using 3(3) by (cases q) auto
  show ?case
  proof (cases "a = p")
    case False
    then show ?thesis
      by (cases q') (auto simp: q map_of_assocSet)
  next
    case True
    then obtain b q'' where q': "q' = b # q''" and "\<not> prefix (p' # ps) q'" "\<not> prefix q' (p' # ps)"
      using 3(2,3) q by (cases q') auto
    with 3(1) [of q'] True show ?thesis
      by (auto simp: q map_of_assocSet split: option.splits toml.splits)
  qed
qed simp

section \<open>Properties\<close>

text \<open>
  C8: an update is all or nothing. If any value is rejected, or persisting fails and the update is rolled back,
  the registry is exactly what it was; otherwise every updated key holds its value as validated by its schema
  and every other key is unchanged.
\<close>

theorem Update_all_or_nothing:
  assumes "distinct (map fst us)"
  shows "case Update pd persister us persist source r of
       (Inl e, r') \<Rightarrow> r' = r
     | (Inr ns, r') \<Rightarrow> (\<forall>k. case map_of us k of
           None \<Rightarrow> config r' k = config r k
         | Some raw \<Rightarrow> (\<exists>e v. config r k = Some e \<and> ParseAndValidate pd (Schema e) raw = Inr v \<and>
             config r' k = Some (e\<lparr>Value := v\<rparr>)))"
proof (cases "updateLocked pd us r")
  case (Inr pr)
  obtain p r' where pr: "pr = (p, r')" by (cases pr)
  note p = updateLocked_Inr [OF Inr [unfolded pr]]
  have d: "distinct (map fst (parsed p))"
    using parseUpdates_keys [OF p(1)] assms by simp
  have "case map_of us k of None \<Rightarrow> config r' k = config r k
      | Some raw \<Rightarrow> (\<exists>e v. config r k = Some e \<and> ParseAndValidate pd (Schema e) raw = Inr v \<and>
          config r' k = Some (e\<lparr>Value := v\<rparr>))" for k
    using parseUpdates_lookup [OF p(1), of k] parseUpdates_lookup_None [OF p(1), of k]
    by (auto simp: p(4) config_setValues [OF d] split: option.splits)
  then show ?thesis
    using updateLocked_rollback [OF assms Inr [unfolded pr]] Inr pr by (auto simp: Update_def)
qed (auto simp: Update_def)

definition sampleRegistry :: Registry where
  "sampleRegistry = NewRegistry [''size'' \<mapsto> \<lparr>Value = RUint 4, Schema = PowerOfTwoSchema 2 64\<rparr>]"

lemma sampleRegistry_valid: "regValid pd sampleRegistry"
  by (auto simp: regValid_def validEntry_def sampleRegistry_def NewRegistry_def onesCount64_def upt_rec)

lemma parseUint16: "parseUint ''16'' = Some 16"
  by code_simp

lemma onesCount64_16: "onesCount64 16 = Suc 0"
  using onesCount64_one_iff [of 16] by (auto intro!: exI [of _ 4])

theorem Update_all_or_nothing_witness:
  "snd (Update (\<lambda>_. None) (Some (\<lambda>_. False)) [(''size'', RString ''16'')] True ''api'' sampleRegistry) = sampleRegistry"
proof -
  have "fst (Update (\<lambda>_. None) (Some (\<lambda>_. False)) [(''size'', RString ''16'')] True ''api'' sampleRegistry) =
      Inl PersistError"
    by code_simp
  then show ?thesis
    using Update_all_or_nothing [where us = "[(''size'', RString ''16'')]" and pd = "\<lambda>_. None"
        and persister = "Some (\<lambda>_. False)" and persist = True and source = "''api''" and r = sampleRegistry]
    by (auto split: prod.splits)
qed

text \<open>
  C9: a successful update notifies exactly the observers subscribed to an updated key, each with the key's
  previous and new value and the source of the change.
\<close>

theorem Update_notifies_observers:
  assumes "distinct (map fst us)" "Update pd persister us persist source r = (Inr ns, r')"
  shows "(obs, ev) \<in> set ns \<longleftrightarrow>
     (\<exists>k raw e v i. map_of us k = Some raw \<and> (i, obs) \<in> set (observers r k) \<and> config r k = Some e \<and>
        ParseAndValidate pd (Schema e) raw = Inr v \<and>
        ev = \<lparr>Key = k, OldValue = Value e, NewValue = v, Source = source\<rparr>)"
proof (cases "us = []")
  case True
  then show ?thesis
    using assms(2) by (simp add: Update_def)
next
  case False
  then obtain p where lk: "updateLocked pd us r = Inr (p, r')" and ns: "ns = notifications source p"
    using assms(2) by (auto simp: Update_def split: sum.splits if_splits)
  note p = updateLocked_Inr [OF lk]
  have d: "distinct (map fst (parsed p))"
    using parseUpdates_keys [OF p(1)] assms(1) by simp
  have parsed: "map_of (parsed p) k = Some v \<longleftrightarrow>
      (\<exists>raw e. map_of us k = Some raw \<and> config r k = Some e \<and> ParseAndValidate pd (Schema e) raw = Inr v)" for k v
    using parseUpdates_lookup [OF p(1), of k] parseUpdates_lookup_None [OF p(1), of k]
    by (cases "map_of us k") auto
  have "(obs, ev) \<in> set ns \<longleftrightarrow> (\<exists>(k, v)\<in>set (parsed p). \<exists>i. (i, obs) \<in> set (observers r k) \<and>
      ev = \<lparr>Key = k, OldValue = Value (the (config r k)), NewValue = v, Source = source\<rparr>)"
    unfolding ns notifications_alt [OF p(2)] p(3) by force
  also have "\<dots> \<longleftrightarrow> (\<exists>k v. map_of (parsed p) k = Some v \<and> (\<exists>i. (i, obs) \<in> set (observers r k) \<and>
      ev = \<lparr>Key = k, OldValue = Value (the (config r k)), NewValue = v, Source = source\<rparr>))"
    unfolding map_of_eq_Some_iff [OF d] by blast
  finally show ?thesis
    unfolding parsed by (metis option.sel)
qed

theorem Update_notifies_observers_witness:
  "\<exists>ns r r'. Subscribe ''size'' 9 sampleRegistry = (Inr 0, r) \<and>
     Update (\<lambda>_. None) None [(''size'', RString ''16'')] False ''api'' r = (Inr ns, r') \<and>
     (9, \<lparr>Key = ''size'', OldValue = RUint 4, NewValue = RUint 16, Source = ''api''\<rparr>) \<in> set ns"
proof -
  let ?r = "snd (Subscribe ''size'' 9 sampleRegistry)"
  let ?u = "Update (\<lambda>_. None) None [(''size'', RString ''16'')] False ''api'' ?r"
  have sub: "fst (Subscribe ''size'' 9 sampleRegistry) = Inr 0"
    by code_simp
  have "\<exists>ns r'. ?u = (Inr ns, r')"
    by (cases ?u, cases "fst ?u") (use parseUint16 in \<open>simp_all add: Update_def updateLocked_def
      Subscribe_def sampleRegistry_def NewRegistry_def onesCount64_16\<close>)
  then obtain ns r' where u: "?u = (Inr ns, r')"
    by blast
  have "(9, \<lparr>Key = ''size'', OldValue = RUint 4, NewValue = RUint 16, Source = ''api''\<rparr>) \<in> set ns"
    by (subst Update_notifies_observers [OF _ u])
      (use parseUint16 in \<open>simp_all add: Subscribe_def sampleRegistry_def NewRegistry_def onesCount64_16\<close>)
  with sub u show ?thesis
    by (metis prod.collapse)
qed


lemma sampleRegistry_locked:
  "\<exists>p r. updateLocked pd [(''size'', RUint 16)] sampleRegistry = Inr (p, r) \<and>
     config r ''size'' = Some \<lparr>Value = RUint 16, Schema = PowerOfTwoSchema 2 64\<rparr>"
  by (simp add: updateLocked_def sampleRegistry_def NewRegistry_def onesCount64_16 setValue_def)


text \<open>
  C11: rollback is not isolated. When a second update of a key commits between the locked section of a first
  update and its failed persist, the rollback of the first also undoes the second.
\<close>

theorem rollback_undoes_concurrent_commit:
  assumes "updateLocked pd [(k, raw1)] r = Inr (p1, r1)" "updateLocked pd [(k, raw2)] r1 = Inr (p2, r2)"
  shows "(cfgStep pd)\<^sup>*\<^sup>* (r, []) (updateRollback p1 r2, []) \<and> config (updateRollback p1 r2) k = config r k"
proof -
  note p1 = updateLocked_Inr [OF assms(1)] and p2 = updateLocked_Inr [OF assms(2)]
  have "cfgStep pd (r, []) (r1, [p1])" "cfgStep pd (r1, [p1]) (r2, [p2, p1])"
    using assms by (auto intro: cfgStep.intros)
  moreover have "cfgStep pd (r2, [p2, p1]) (r2, [p1])" "cfgStep pd (r2, [p1]) (updateRollback p1 r2, [])"
    using cfgStep.commit [of p2 "[p2, p1]"] cfgStep.rollback [of p1 "[p1]"] by auto
  ultimately have "(cfgStep pd)\<^sup>*\<^sup>* (r, []) (updateRollback p1 r2, [])"
    by (meson converse_rtranclp_into_rtranclp rtranclp.rtrancl_refl)
  moreover obtain v1 e where "parsed p1 = [(k, v1)]" "config r k = Some e"
    using p1(1) by (auto simp: rbind_eq_Inr dest: sym [of _ "parsed p1"] split: option.splits sum.splits)
  moreover obtain v2 where "parsed p2 = [(k, v2)]"
    using p2(1) by (auto simp: rbind_eq_Inr dest: sym [of _ "parsed p2"] split: option.splits sum.splits)
  ultimately show ?thesis
    by (simp add: updateRollback_def p1(2,4) p2(4) oldValues_def setValue_def)
qed

theorem rollback_undoes_concurrent_commit_witness:
  "\<exists>p1 r1 p2 r2. updateLocked (\<lambda>_. None) [(''size'', RUint 16)] sampleRegistry = Inr (p1, r1) \<and>
     updateLocked (\<lambda>_. None) [(''size'', RString ''16'')] r1 = Inr (p2, r2) \<and>
     config (updateRollback p1 r2) ''size'' = config sampleRegistry ''size''"
proof -
  obtain p1 r1 where 1: "updateLocked (\<lambda>_. None) [(''size'', RUint 16)] sampleRegistry = Inr (p1, r1)"
    and r1: "config r1 ''size'' = Some \<lparr>Value = RUint 16, Schema = PowerOfTwoSchema 2 64\<rparr>"
    using sampleRegistry_locked by blast
  from r1 obtain p2 r2 where 2: "updateLocked (\<lambda>_. None) [(''size'', RString ''16'')] r1 = Inr (p2, r2)"
    by (simp add: updateLocked_def onesCount64_16 parseUint16)
  show ?thesis
    using 1 2 rollback_undoes_concurrent_commit [OF 1 2] by blast
qed

text \<open>
  C12: writing a dotted key into the configuration file's tables makes the key read back as the formatted value
  and leaves every key that is neither an extension nor a prefix of it as it was.
\<close>

theorem setNestedValue_correct:
  assumes "\<not> prefix (splitDots key) q" "\<not> prefix q (splitDots key)"
  shows "nestedLookup (setNestedValue fmt m key v) (splitDots key) = Some (Scalar (tomlValue fmt v)) \<and>
     nestedLookup (setNestedValue fmt m key v) q = nestedLookup m q"
  using assms by (simp add: setNestedValue_def setNested_same setNested_other)

theorem setNestedValue_correct_witness:
  "nestedLookup (setNestedValue (\<lambda>_. ''1m0s'') [(''pdp'', Table [(''n'', Scalar (RInt 1))])] ''pdp.poll'' (RDuration 60)) [''pdp'', ''n''] =
     Some (Scalar (RInt 1))"
  using setNestedValue_correct [of "''pdp.poll''" "[''pdp'', ''n'']" "\<lambda>_. ''1m0s''" "[(''pdp'', Table [(''n'', Scalar (RInt 1))])]" "RDuration 60"]
  by simp

end
