(* ===== verification/Size_Policies.thy ===== *)
theory Size_Policies
  imports Dynamic_Config Piece_Fold
begin

text \<open>
  The limits read through the dynamic configuration: the maximum piece size
  (\<open>pkg/pdp/piecesize/piecesize.go\<close> and \<open>piecesize/policy/policy.go\<close>), the aggregation threshold
  (\<open>aggregation/aggregator/policy/policy.go\<close>), the delay before a commP (\<open>aggregation/commp\<close>) and the
  aggregate manager's settings (\<open>aggregation/manager/config.go\<close>).

  Parameters: \<open>curioMax\<close> is Curio's \<open>proof.MaxMemtreeSize\<close>, \<open>maxDataSize\<close> is \<open>libpiece.MaxDataSize\<close>, and
  \<open>treeHeight\<close> and \<open>paddedOf\<close> are \<open>libpiece.UnpaddedSizeToV1TreeHeightAndPadding\<close> and
  \<open>libpiece.HeightToPaddedSize\<close>.
\<close>

section \<open>Piece sizes\<close>

definition MinPaddedSize :: u64 where
  "MinPaddedSize = push_bit 28 1"

definition DefaultMaxPaddedSize :: u64 where
  "DefaultMaxPaddedSize = push_bit 28 1"

definition minPaddedPiece :: u64 where
  "minPaddedPiece = 128"

definition PaddedForRaw :: "(u64 \<Rightarrow> nat option) \<Rightarrow> (nat \<Rightarrow> u64) \<Rightarrow> u64 \<Rightarrow> u64 option" where
  "PaddedForRaw treeHeight paddedOf raw =
     (if raw < 127 then Some minPaddedPiece
      else (case treeHeight raw of None \<Rightarrow> None | Some h \<Rightarrow> Some (paddedOf h)))"

datatype sizeErr =
    NotPowerOfTwo u64
  | BelowMinimum u64
  | AboveProvingLimit u64
  | ExceededError u64 u64 u64
  | RegisterFailed cfgErr

definition ValidatePaddedSize :: "u64 \<Rightarrow> u64 \<Rightarrow> sizeErr + unit" where
  "ValidatePaddedSize curioMax padded =
     (if onesCount64 padded \<noteq> 1 then Inl (NotPowerOfTwo padded)
      else if padded < MinPaddedSize then Inl (BelowMinimum padded)
      else if padded > curioMax then Inl (AboveProvingLimit padded)
      else Inr ())"

record Limits =
  Padded :: u64

definition DefaultLimits :: Limits where
  "DefaultLimits = \<lparr>Padded = DefaultMaxPaddedSize\<rparr>"

definition MaxPadded :: "Limits \<Rightarrow> u64" where
  "MaxPadded l = (if Padded l = 0 then DefaultMaxPaddedSize else Padded l)"

definition MaxRaw :: "(u64 \<Rightarrow> u64) \<Rightarrow> Limits \<Rightarrow> u64" where
  "MaxRaw maxDataSize l = maxDataSize (MaxPadded l)"

definition CheckRaw :: "(u64 \<Rightarrow> u64) \<Rightarrow> Limits \<Rightarrow> u64 \<Rightarrow> sizeErr + unit" where
  "CheckRaw maxDataSize l n =
     (let mx = MaxRaw maxDataSize l
      in if n > mx then Inl (ExceededError n mx (MaxPadded l)) else Inr ())"

section \<open>Policies over the registry\<close>

definition PieceMaxPaddedSize :: string where
  "PieceMaxPaddedSize = ''pdp.piece.max_padded_size''"

definition AggregatorMinAggregateSize :: string where
  "AggregatorMinAggregateSize = ''pdp.aggregation.aggregator.min_aggregate_size''"

text \<open>
  \<open>policy.New\<close> registers the entry and captures the fallback; the policy reads the registry as it is at the
  time of the check.
\<close>

definition pieceFallback :: "u64 \<Rightarrow> u64" where
  "pieceFallback cfg = (if cfg = 0 then DefaultMaxPaddedSize else cfg)"

definition piecePolicyNew :: "u64 \<Rightarrow> u64 \<Rightarrow> Registry \<Rightarrow> (sizeErr + u64) \<times> Registry" where
  "piecePolicyNew curioMax cfg r =
     (let fallback = pieceFallback cfg
      in case ValidatePaddedSize curioMax fallback of
           Inl e \<Rightarrow> (Inl e, r)
         | Inr _ \<Rightarrow>
             (case RegisterEntries [(PieceMaxPaddedSize,
                      \<lparr>Value = RUint fallback, Schema = PowerOfTwoSchema MinPaddedSize curioMax\<rparr>)] r of
               (Inl e, r') \<Rightarrow> (Inl (RegisterFailed e), r')
             | (Inr _, r') \<Rightarrow> (Inr fallback, r')))"

definition pieceLimits :: "u64 \<Rightarrow> Registry \<Rightarrow> Limits" where
  "pieceLimits fallback r = \<lparr>Padded = GetUint r PieceMaxPaddedSize fallback\<rparr>"

definition aggPolicyNew :: "u64 \<Rightarrow> Registry \<Rightarrow> (sizeErr + u64) \<times> Registry" where
  "aggPolicyNew cfg r =
     (let fallback = (if cfg = 0 then DefaultMinAggregateSize else cfg)
      in case RegisterEntries [(AggregatorMinAggregateSize,
                \<lparr>Value = RUint fallback, Schema = PowerOfTwoSchema MinAllowedAggregateSize MaxAllowedAggregateSize\<rparr>)] r of
           (Inl e, r') \<Rightarrow> (Inl (RegisterFailed e), r')
         | (Inr _, r') \<Rightarrow> (Inr fallback, r'))"

definition aggPolicy :: "u64 \<Rightarrow> Registry \<Rightarrow> agg_policy" where
  "aggPolicy fallback r = Some (GetUint r AggregatorMinAggregateSize fallback)"

definition CommPDelay :: string where
  "CommPDelay = ''pdp.aggregation.commp.delay''"

text \<open>Durations are nanoseconds; \<open>commp.MaxDelay\<close> is thirty days.\<close>

definition MaxDelay :: int where
  "MaxDelay = 30 * 24 * 3600 * 1000000000"

definition commpPolicyNew :: "int \<Rightarrow> Registry \<Rightarrow> (sizeErr + int) \<times> Registry" where
  "commpPolicyNew fallback r =
     (case RegisterEntries [(CommPDelay, \<lparr>Value = RDuration fallback, Schema = DurationSchema 0 MaxDelay\<rparr>)] r of
       (Inl e, r') \<Rightarrow> (Inl (RegisterFailed e), r')
     | (Inr _, r') \<Rightarrow> (Inr fallback, r'))"

definition commpDelay :: "(unit \<Rightarrow> int) option \<Rightarrow> int" where
  "commpDelay read = (case read of None \<Rightarrow> 0 | Some f \<Rightarrow> if f () > 0 then f () else 0)"

definition ManagerPollInterval :: string where
  "ManagerPollInterval = ''pdp.aggregation.manager.poll_interval''"

definition ManagerBatchSize :: string where
  "ManagerBatchSize = ''pdp.aggregation.manager.batch_size''"

definition NewConfigProvider :: "int \<Rightarrow> u64 \<Rightarrow> Registry \<Rightarrow> (sizeErr + unit) \<times> Registry" where
  "NewConfigProvider poll batch r =
     (case RegisterEntries
        [(ManagerPollInterval, \<lparr>Value = RDuration poll, Schema = DurationSchema 1000000000 (365 * 24 * 3600 * 1000000000)\<rparr>),
         (ManagerBatchSize, \<lparr>Value = RUint batch, Schema = UintSchema 1 500\<rparr>)] r of
       (Inl e, r') \<Rightarrow> (Inl (RegisterFailed e), r')
     | (Inr _, r') \<Rightarrow> (Inr (), r'))"

section \<open>Schemas are stable\<close>

lemma cfgStep_schemas: "cfgStep pd s s' \<Longrightarrow> schemas (fst s) \<subseteq>\<^sub>m schemas (fst s')"
proof (induction rule: cfgStep.induct)
  case (locked us r p r' ps)
  then show ?case
    using updateLocked_Inr(4) [OF locked] by simp
next
  case (register es r r' ps)
  then show ?case
    using RegisterEntries_config(1) [OF register(1)] by (auto simp: map_le_def schemas_def dom_def)
next
  case (subscribe k obs r i r' ps)
  then show ?case
    by (auto simp: Subscribe_def schemas_def map_le_def split: if_splits)
qed (simp_all add: updateRollback_def unsubscribe_def schemas_def map_le_def)

lemma cfgSteps_schemas: "(cfgStep pd)\<^sup>*\<^sup>* s s' \<Longrightarrow> schemas (fst s) \<subseteq>\<^sub>m schemas (fst s')"
  by (induction rule: rtranclp_induct) (auto intro: map_le_trans cfgStep_schemas)

lemma PowerOfTwo_valid:
  "ParseAndValidate pd (PowerOfTwoSchema mn mx) v = Inr v \<Longrightarrow>
     \<exists>u. v = RUint u \<and> onesCount64 u = 1 \<and> mn \<le> u \<and> (mx = 0 \<or> u \<le> mx)"
  by (cases "coerceUint v") (auto simp: not_less split: if_split_asm)

lemma GetUint_PowerOfTwo:
  assumes "cfgInv pd (r, [])" "schemas r k = Some (PowerOfTwoSchema mn mx)" "(cfgStep pd)\<^sup>*\<^sup>* (r, []) (r', ps)"
  shows "onesCount64 (GetUint r' k fb) = 1 \<and> mn \<le> GetUint r' k fb \<and> (mx = 0 \<or> GetUint r' k fb \<le> mx)"
proof -
  have "schemas r' k = Some (PowerOfTwoSchema mn mx)"
    using cfgSteps_schemas [OF assms(3)] assms(2) by (auto simp: map_le_def dom_def)
  then obtain e where e: "config r' k = Some e" "Schema e = PowerOfTwoSchema mn mx"
    by (auto simp: schemas_def)
  then have "ParseAndValidate pd (PowerOfTwoSchema mn mx) (Value e) = Inr (Value e)"
    using cfgSteps_cfgInv [OF assms(3,1)] unfolding cfgInv_def regValid_def validEntry_def by (metis fst_conv)
  from PowerOfTwo_valid [OF this] e show ?thesis
    by (auto simp: GetUint_def)
qed

lemma registered_valid:
  assumes "cfgInv pd (r, [])" "RegisterEntries [(k, e)] r = (Inr (), r')" "validEntry pd e"
  shows "cfgInv pd (r', [])" "schemas r' k = Some (Schema e)"
proof -
  show "cfgInv pd (r', [])"
    using cfgStep_cfgInv [OF cfgStep.register [OF assms(2)] assms(1)] assms(3) by simp
  show "schemas r' k = Some (Schema e)"
    using assms(2) by (auto simp: RegisterEntries_def schemas_def split: option.splits)
qed

lemma ValidatePaddedSize_entry:
  "ValidatePaddedSize curioMax p = Inr () \<Longrightarrow>
     validEntry pd \<lparr>Value = RUint p, Schema = PowerOfTwoSchema MinPaddedSize curioMax\<rparr>"
  by (auto simp: ValidatePaddedSize_def validEntry_def split: if_splits)

lemma piecePolicyNew_Inr:
  assumes "piecePolicyNew curioMax cfg r = (Inr fb, r')"
  shows "fb = pieceFallback cfg" "ValidatePaddedSize curioMax fb = Inr ()"
    "RegisterEntries [(PieceMaxPaddedSize, \<lparr>Value = RUint fb, Schema = PowerOfTwoSchema MinPaddedSize curioMax\<rparr>)] r = (Inr (), r')"
  using assms by (auto simp: piecePolicyNew_def Let_def split: sum.splits prod.splits)

section \<open>Properties\<close>

text \<open>
  C13: \<open>ValidatePaddedSize\<close> accepts exactly the powers of two from 256 MiB to the proving limit.
\<close>

theorem ValidatePaddedSize_iff:
  "ValidatePaddedSize curioMax padded = Inr () \<longleftrightarrow> (\<exists>k. 28 \<le> k \<and> k < 64 \<and> padded = 2 ^ k \<and> padded \<le> curioMax)"
proof -
  have min: "MinPaddedSize \<le> 2 ^ k \<longleftrightarrow> 28 \<le> k" if "k < 64" for k
    using power2_u64_le [of 28 k] that by (simp add: MinPaddedSize_def)
  have "ValidatePaddedSize curioMax padded = Inr () \<longleftrightarrow>
      onesCount64 padded = 1 \<and> MinPaddedSize \<le> padded \<and> padded \<le> curioMax"
    by (auto simp: ValidatePaddedSize_def not_less)
  then show ?thesis
    using min by (auto simp: onesCount64_one_iff simp del: One_nat_def)
qed

text \<open>
  C14: once the piece-size policy is registered, whatever configuration operations run, the limit it reads is a
  valid one, and a raw size it admits fits the largest tree the prover builds in memory.
\<close>

theorem piece_limit_always_provable:
  assumes "cfgInv pd (r0, [])" "piecePolicyNew curioMax cfg r0 = (Inr fb, r1)" "(cfgStep pd)\<^sup>*\<^sup>* (r1, []) (r, ps)"
    and mono: "\<And>a b. a \<le> b \<Longrightarrow> b \<le> curioMax \<Longrightarrow> maxDataSize a \<le> maxDataSize b"
    and "CheckRaw maxDataSize (pieceLimits fb r) n = Inr ()"
  shows "ValidatePaddedSize curioMax (MaxPadded (pieceLimits fb r)) = Inr () \<and> n \<le> maxDataSize curioMax"
proof -
  note new = piecePolicyNew_Inr [OF assms(2)]
  note reg = registered_valid [OF assms(1) new(3) ValidatePaddedSize_entry [OF new(2)]]
  let ?p = "GetUint r PieceMaxPaddedSize fb"
  have "MinPaddedSize \<le> curioMax"
    using new(2) by (auto simp: ValidatePaddedSize_def not_less split: if_splits)
  then have "curioMax \<noteq> 0"
    by (auto simp: MinPaddedSize_def)
  moreover have p: "onesCount64 ?p = 1 \<and> MinPaddedSize \<le> ?p \<and> (curioMax = 0 \<or> ?p \<le> curioMax)"
    by (rule GetUint_PowerOfTwo [OF reg(1) _ assms(3)]) (use reg(2) in simp)
  ultimately have ok: "ValidatePaddedSize curioMax ?p = Inr ()" "?p \<le> curioMax" "?p \<noteq> 0"
    by (auto simp: ValidatePaddedSize_def not_less MinPaddedSize_def)
  have "n \<le> maxDataSize ?p"
    using assms(5) ok(3) by (auto simp: CheckRaw_def Let_def MaxRaw_def MaxPadded_def pieceLimits_def not_less split: if_splits)
  then show ?thesis
    using ok mono [of ?p curioMax] by (auto simp: MaxPadded_def pieceLimits_def)
qed

text \<open>
  C15: once the aggregation policy is registered with an allowed threshold, every threshold a fold can read is a
  power of two within the allowed bounds, so the fold keeps its guarantees under any reconfiguration.
\<close>

theorem aggregation_threshold_always_allowed:
  assumes "cfgInv pd (r0, [])" "aggPolicyNew cfg r0 = (Inr fb, r1)" "(cfgStep pd)\<^sup>*\<^sup>* (r1, []) (r, ps)"
    and "cfg = 0 \<or> ParseAndValidate pd (PowerOfTwoSchema MinAllowedAggregateSize MaxAllowedAggregateSize) (RUint cfg) = Inr (RUint cfg)"
  shows "onesCount64 (MinAggregateSize (aggPolicy fb r)) = 1 \<and>
     MinAllowedAggregateSize \<le> MinAggregateSize (aggPolicy fb r) \<and>
     MinAggregateSize (aggPolicy fb r) \<le> MaxAllowedAggregateSize"
proof -
  let ?e = "\<lparr>Value = RUint fb, Schema = PowerOfTwoSchema MinAllowedAggregateSize MaxAllowedAggregateSize\<rparr>"
  have fb: "fb = (if cfg = 0 then DefaultMinAggregateSize else cfg)"
    and reg: "RegisterEntries [(AggregatorMinAggregateSize, ?e)] r0 = (Inr (), r1)"
    using assms(2) by (auto simp: aggPolicyNew_def Let_def split: sum.splits prod.splits)
  have "onesCount64 DefaultMinAggregateSize = 1"
    by (subst onesCount64_one_iff) (auto intro!: exI [of _ 27] simp: DefaultMinAggregateSize_def)
  then have "validEntry pd ?e"
    using assms(4) fb by (cases "cfg = 0") (simp_all add: validEntry_def DefaultMinAggregateSize_def
        MinAllowedAggregateSize_def MaxAllowedAggregateSize_def)
  note reg = registered_valid [OF assms(1) reg this]
  have "onesCount64 (GetUint r AggregatorMinAggregateSize fb) = 1 \<and>
      MinAllowedAggregateSize \<le> GetUint r AggregatorMinAggregateSize fb \<and>
      (MaxAllowedAggregateSize = 0 \<or> GetUint r AggregatorMinAggregateSize fb \<le> MaxAllowedAggregateSize)"
    by (rule GetUint_PowerOfTwo [OF reg(1) _ assms(3)]) (use reg(2) in simp)
  moreover have "0 < GetUint r AggregatorMinAggregateSize fb"
    using calculation less_le_trans [of 0 MinAllowedAggregateSize] by (simp add: MinAllowedAggregateSize_def)
  ultimately show ?thesis
    by (simp add: MinAggregateSize_def aggPolicy_def MaxAllowedAggregateSize_def)
qed

lemma emptyRegistry_cfgInv: "cfgInv pd (NewRegistry Map.empty, [])"
  by (simp add: cfgInv_def regValid_def NewRegistry_def)

theorem piece_limit_always_provable_witness:
  "\<exists>r1. piecePolicyNew (2 ^ 30) 0 (NewRegistry Map.empty) = (Inr (2 ^ 28), r1) \<and>
     ValidatePaddedSize (2 ^ 30) (MaxPadded (pieceLimits (2 ^ 28) r1)) = Inr () \<and> 1000 \<le> (2 ^ 30 :: u64)"
proof -
  have "onesCount64 268435456 = Suc 0"
    using onesCount64_one_iff [of 268435456] by (auto intro!: exI [of _ 28])
  then obtain r1 where 1: "piecePolicyNew (2 ^ 30) 0 (NewRegistry Map.empty) = (Inr (2 ^ 28), r1)"
    and 2: "GetUint r1 PieceMaxPaddedSize (2 ^ 28) = 2 ^ 28"
    by (simp add: piecePolicyNew_def pieceFallback_def ValidatePaddedSize_def DefaultMaxPaddedSize_def
        MinPaddedSize_def RegisterEntries_def NewRegistry_def GetUint_def)
  then have 3: "CheckRaw id (pieceLimits (2 ^ 28) r1) 1000 = Inr ()"
    by (simp add: CheckRaw_def MaxRaw_def MaxPadded_def pieceLimits_def)
  show ?thesis
    using piece_limit_always_provable [OF emptyRegistry_cfgInv 1 rtranclp.rtrancl_refl _ 3] 1 by auto
qed

theorem aggregation_threshold_always_allowed_witness:
  "\<exists>r1. aggPolicyNew 0 (NewRegistry Map.empty) = (Inr DefaultMinAggregateSize, r1) \<and>
     MinAggregateSize (aggPolicy DefaultMinAggregateSize r1) \<le> MaxAllowedAggregateSize"
proof -
  obtain r1 where 1: "aggPolicyNew 0 (NewRegistry Map.empty) = (Inr DefaultMinAggregateSize, r1)"
    by (simp add: aggPolicyNew_def RegisterEntries_def NewRegistry_def)
  show ?thesis
    using aggregation_threshold_always_allowed [OF emptyRegistry_cfgInv 1 rtranclp.rtrancl_refl] 1 by auto
qed

end
