(* ===== verification/Job_Queue.thy ===== *)
theory Job_Queue
  imports Go_Strconv
begin

text \<open>
  The SQL job queue, \<open>lib/jobqueue/queue/queue.go\<close> with its tables from \<open>schema.sql\<close>, and the transaction
  wrapper of \<open>lib/jobqueue/internal/sql/tx.go\<close>.

  A table is the list of its rows in insertion order. Times are milliseconds; the current time is an argument
  of the operations that read the clock, and the identifier the database generates for a new row is an argument
  of \<open>Send\<close>. Rows with equal creation time are taken in insertion order. The trigger that refreshes
  \<open>updated\<close> is part of every update of a row.
\<close>

section \<open>Transactions\<close>

datatype qErr =
    DBError
  | PanicNegativeDelay
  | NotFound
  | InvalidJobID
  | DecodeError
  | MissingName
  | UniqueViolation
  | ContextDone
  | ConfigError string

text \<open>
  \<open>InTx\<close>: an error of the callback rolls back, and so does a database that fails to begin or commit
  (\<open>dbok = False\<close>); a panic rolls back and is raised again.
\<close>

definition InTx :: "bool \<Rightarrow> ('s \<Rightarrow> (qErr + 'a) \<times> 's) \<Rightarrow> 's \<Rightarrow> (qErr + 'a) \<times> 's" where
  "InTx dbok cb s =
     (case cb s of
       (Inl e, _) \<Rightarrow> (Inl e, s)
     | (Inr x, s') \<Rightarrow> if dbok then (Inr x, s') else (Inl DBError, s))"

lemma InTx_Inl: "InTx dbok cb s = (Inl e, s') \<Longrightarrow> s' = s"
  by (auto simp: InTx_def split: prod.splits sum.splits if_splits)

lemma InTx_Inr: "InTx dbok cb s = (Inr x, s') \<Longrightarrow> cb s = (Inr x, s')"
  by (auto simp: InTx_def split: prod.splits sum.splits if_splits)

section \<open>The queue\<close>

record jobRow =
  id_of :: string
  created :: int
  updated :: int
  queue_of :: string
  body_of :: string
  timeout_of :: int
  received_of :: nat

record deadRow =
  djob :: jobRow
  job_name :: string
  failure_reason :: string
  error_message :: string
  moved_at :: int

record queueDB =
  jobqueue :: "jobRow list"
  jobqueue_dead :: "deadRow list"

record Message =
  ID :: string
  Delay :: int
  Received :: nat
  Body :: string

record Queue =
  qname :: string
  maxReceive :: nat
  qtimeout :: int

text \<open>\<open>New\<close> checks the options and fills in the defaults: three receives, five seconds.\<close>

definition NewQueue :: "bool \<Rightarrow> string \<Rightarrow> int \<Rightarrow> int \<Rightarrow> qErr + Queue" where
  "NewQueue dbGiven nm mr tmo =
     (if \<not> dbGiven then Inl (ConfigError ''db is required'')
      else if nm = '''' then Inl (ConfigError ''queue name is required'')
      else if mr < 0 then Inl (ConfigError ''max receive cannot negative'')
      else if tmo < 0 then Inl (ConfigError ''timeout cannot be negative'')
      else Inr \<lparr>qname = nm, maxReceive = (if mr = 0 then 3 else nat mr), qtimeout = (if tmo = 0 then 5000 else tmo)\<rparr>)"

definition sendAndGetIDTx :: "Queue \<Rightarrow> int \<Rightarrow> string \<Rightarrow> Message \<Rightarrow> queueDB \<Rightarrow> (qErr + string) \<times> queueDB" where
  "sendAndGetIDTx q now newID m s =
     (if Delay m < 0 then (Inl PanicNegativeDelay, s)
      else if newID \<in> id_of ` set (jobqueue s) then (Inl UniqueViolation, s)
      else (Inr newID, s\<lparr>jobqueue := jobqueue s @
        [\<lparr>id_of = newID, created = now, updated = now, queue_of = qname q, body_of = Body m,
          timeout_of = now + Delay m, received_of = 0\<rparr>]\<rparr>))"

definition Send :: "Queue \<Rightarrow> bool \<Rightarrow> int \<Rightarrow> string \<Rightarrow> Message \<Rightarrow> queueDB \<Rightarrow> (qErr + string) \<times> queueDB" where
  "Send q dbok now newID m = InTx dbok (sendAndGetIDTx q now newID m)"

text \<open>The subselect of \<open>receiveTx\<close>: \<open>ORDER BY created LIMIT 1\<close> over the receivable rows.\<close>

definition receivable :: "Queue \<Rightarrow> int \<Rightarrow> jobRow \<Rightarrow> bool" where
  "receivable q now r \<longleftrightarrow> queue_of r = qname q \<and> now \<ge> timeout_of r \<and> received_of r < maxReceive q"

fun firstBy :: "('a \<Rightarrow> 'b::linorder) \<Rightarrow> 'a list \<Rightarrow> 'a option" where
  "firstBy f [] = None"
| "firstBy f (x # xs) = (case firstBy f xs of None \<Rightarrow> Some x | Some y \<Rightarrow> if f y < f x then Some y else Some x)"

definition updateRow :: "string \<Rightarrow> int \<Rightarrow> (jobRow \<Rightarrow> jobRow) \<Rightarrow> queueDB \<Rightarrow> queueDB" where
  "updateRow i now f s = s\<lparr>jobqueue := map (\<lambda>r. if id_of r = i then (f r)\<lparr>updated := now\<rparr> else r) (jobqueue s)\<rparr>"

definition receiveTx :: "Queue \<Rightarrow> int \<Rightarrow> queueDB \<Rightarrow> (qErr + Message option) \<times> queueDB" where
  "receiveTx q now s =
     (case firstBy created (filter (receivable q now) (jobqueue s)) of
       None \<Rightarrow> (Inr None, s)
     | Some r \<Rightarrow>
         (Inr (Some \<lparr>ID = id_of r, Delay = 0, Received = received_of r + 1, Body = body_of r\<rparr>),
          updateRow (id_of r) now (\<lambda>r. r\<lparr>timeout_of := now + qtimeout q, received_of := received_of r + 1\<rparr>) s))"

definition Receive :: "Queue \<Rightarrow> bool \<Rightarrow> int \<Rightarrow> queueDB \<Rightarrow> (qErr + Message option) \<times> queueDB" where
  "Receive q dbok now = InTx dbok (receiveTx q now)"

text \<open>
  \<open>ReceiveAndWait\<close> over the events its \<open>select\<close> sees, in order: a tick of the timer at some time, with the
  database's health, or the end of the context. \<open>None\<close> is a call that is still waiting.
\<close>

datatype waitEvent = Tick int bool | Done

fun ReceiveAndWait :: "(bool \<Rightarrow> int \<Rightarrow> 's \<Rightarrow> (qErr + Message option) \<times> 's) \<Rightarrow> waitEvent list \<Rightarrow> 's
    \<Rightarrow> (qErr + Message) option \<times> 's" where
  "ReceiveAndWait recv [] s = (None, s)"
| "ReceiveAndWait recv (Done # es) s = (Some (Inl ContextDone), s)"
| "ReceiveAndWait recv (Tick now dbok # es) s =
     (case recv dbok now s of
       (Inl e, s') \<Rightarrow> (Some (Inl e), s')
     | (Inr (Some m), s') \<Rightarrow> (Some (Inr m), s')
     | (Inr None, s') \<Rightarrow> ReceiveAndWait recv es s')"

text \<open>The clause \<open>WHERE queue = ? AND id = ?\<close>.\<close>

definition isRow :: "Queue \<Rightarrow> string \<Rightarrow> jobRow \<Rightarrow> bool" where
  "isRow q i r \<longleftrightarrow> queue_of r = qname q \<and> id_of r = i"

definition extendTx :: "Queue \<Rightarrow> int \<Rightarrow> string \<Rightarrow> int \<Rightarrow> queueDB \<Rightarrow> (qErr + unit) \<times> queueDB" where
  "extendTx q now i delay s =
     (if delay < 0 then (Inl PanicNegativeDelay, s)
      else (Inr (), s\<lparr>jobqueue := map (\<lambda>r. if isRow q i r
        then r\<lparr>timeout_of := now + delay, updated := now\<rparr> else r) (jobqueue s)\<rparr>))"

definition Extend :: "Queue \<Rightarrow> bool \<Rightarrow> int \<Rightarrow> string \<Rightarrow> int \<Rightarrow> queueDB \<Rightarrow> (qErr + unit) \<times> queueDB" where
  "Extend q dbok now i delay = InTx dbok (extendTx q now i delay)"

definition deleteTx :: "Queue \<Rightarrow> string \<Rightarrow> queueDB \<Rightarrow> (qErr + unit) \<times> queueDB" where
  "deleteTx q i s = (Inr (), s\<lparr>jobqueue := filter (\<lambda>r. \<not> isRow q i r) (jobqueue s)\<rparr>)"

definition Delete :: "Queue \<Rightarrow> bool \<Rightarrow> string \<Rightarrow> queueDB \<Rightarrow> (qErr + unit) \<times> queueDB" where
  "Delete q dbok i = InTx dbok (deleteTx q i)"

definition moveToDeadLetterTx :: "Queue \<Rightarrow> int \<Rightarrow> string \<Rightarrow> string \<Rightarrow> string \<Rightarrow> string \<Rightarrow> queueDB \<Rightarrow> (qErr + unit) \<times> queueDB" where
  "moveToDeadLetterTx q now i jobName failureReason errorMsg s =
     (let rows = filter (isRow q i) (jobqueue s);
          dead = map (\<lambda>r. \<lparr>djob = r, job_name = jobName, failure_reason = failureReason,
                            error_message = errorMsg, moved_at = now\<rparr>) rows
      in if rows \<noteq> [] \<and> i \<in> (id_of \<circ> djob) ` set (jobqueue_dead s) then (Inl UniqueViolation, s)
         else if rows = [] then (Inl NotFound, s)
         else deleteTx q i (s\<lparr>jobqueue_dead := jobqueue_dead s @ dead\<rparr>))"

definition MoveToDeadLetter :: "Queue \<Rightarrow> bool \<Rightarrow> int \<Rightarrow> string \<Rightarrow> string \<Rightarrow> string \<Rightarrow> string \<Rightarrow> queueDB \<Rightarrow> (qErr + unit) \<times> queueDB" where
  "MoveToDeadLetter q dbok now i jobName failureReason errorMsg =
     InTx dbok (moveToDeadLetterTx q now i jobName failureReason errorMsg)"

section \<open>Selection\<close>

lemma firstBy_None [simp]: "firstBy f xs = None \<longleftrightarrow> xs = []"
  by (cases xs) (auto split: option.splits if_splits)

lemma firstBy_Some:
  "firstBy f xs = Some x \<Longrightarrow> x \<in> set xs \<and> (\<forall>y\<in>set xs. f x \<le> f y)"
proof (induction xs arbitrary: x)
  case (Cons a xs)
  then show ?case
    by (cases "firstBy f xs") (fastforce split: if_splits)+
qed simp

text \<open>The table's invariant: the primary key.\<close>

definition queueInv :: "queueDB \<Rightarrow> bool" where
  "queueInv s \<longleftrightarrow> distinct (map id_of (jobqueue s))"

text \<open>The abstract content: the receive count of each live message of the queue.\<close>

definition liveCount :: "Queue \<Rightarrow> queueDB \<Rightarrow> string \<rightharpoonup> nat" where
  "liveCount q s i = map_option received_of (find (isRow q i) (jobqueue s))"

section \<open>The contract of a queue\<close>

text \<open>
  What the worker relies on of \<open>queue.Interface\<close>. \<open>live s k\<close> is the receive count of the live message \<open>k\<close>, and
  \<open>ident\<close> reads a message identifier.
\<close>

locale job_queue =
  fixes inv :: "'s \<Rightarrow> bool"
    and live :: "'s \<Rightarrow> 'k \<rightharpoonup> nat"
    and ident :: "string \<Rightarrow> 'k option"
    and maxRecv :: nat
    and recv :: "bool \<Rightarrow> int \<Rightarrow> 's \<Rightarrow> (qErr + Message option) \<times> 's"
    and del :: "bool \<Rightarrow> string \<Rightarrow> 's \<Rightarrow> (qErr + unit) \<times> 's"
    and move :: "bool \<Rightarrow> int \<Rightarrow> string \<Rightarrow> string \<Rightarrow> string \<Rightarrow> string \<Rightarrow> 's \<Rightarrow> (qErr + unit) \<times> 's"
    and ext :: "bool \<Rightarrow> int \<Rightarrow> string \<Rightarrow> int \<Rightarrow> 's \<Rightarrow> (qErr + unit) \<times> 's"
  assumes recv_Some: "inv s \<Longrightarrow> recv ok now s = (Inr (Some m), s') \<Longrightarrow>
      \<exists>k n. ident (ID m) = Some k \<and> live s k = Some n \<and> n < maxRecv \<and> Received m = Suc n \<and>
        inv s' \<and> live s' = (live s)(k \<mapsto> Suc n)"
    and recv_None: "recv ok now s = (Inr None, s') \<Longrightarrow> s' = s"
    and recv_Inl: "recv ok now s = (Inl e, s') \<Longrightarrow> s' = s"
    and del_Inr: "inv s \<Longrightarrow> del ok i s = (Inr (), s') \<Longrightarrow>
      inv s' \<and> live s' = (case ident i of None \<Rightarrow> live s | Some k \<Rightarrow> (live s)(k := None))"
    and del_Inl: "del ok i s = (Inl e, s') \<Longrightarrow> s' = s"
    and move_Inr: "inv s \<Longrightarrow> move ok now i jn fr em s = (Inr (), s') \<Longrightarrow>
      inv s' \<and> live s' = (case ident i of None \<Rightarrow> live s | Some k \<Rightarrow> (live s)(k := None))"
    and move_Inl: "move ok now i jn fr em s = (Inl e, s') \<Longrightarrow> s' = s"
    and ext_Inr: "inv s \<Longrightarrow> ext ok now i d s = (Inr (), s') \<Longrightarrow> inv s' \<and> live s' = live s"
    and ext_Inl: "ext ok now i d s = (Inl e, s') \<Longrightarrow> s' = s"

section \<open>The table implements the contract\<close>

lemma find_map_preserve:
  assumes "\<And>r. P (f r) = P r"
  shows "find P (map f xs) = map_option f (find P xs)"
  using assms by (induction xs) auto

lemma find_distinct_id:
  assumes "distinct (map id_of rows)" "r \<in> set rows" "isRow q i r"
  shows "find (isRow q i) rows = Some r"
  using assms by (induction rows) (auto simp: isRow_def image_iff)

lemma isRow_unique: "isRow q i r \<Longrightarrow> isRow q j r \<Longrightarrow> i = j"
  by (simp add: isRow_def)

lemma liveCount_updateRow:
  assumes "queueInv s" "r \<in> set (jobqueue s)" "queue_of r = qname q"
    and "\<And>r. queue_of (f r) = queue_of r" "\<And>r. id_of (f r) = id_of r"
  shows "liveCount q (updateRow (id_of r) now f s) = (liveCount q s)(id_of r \<mapsto> received_of (f r))"
proof
  fix i
  define g where "g = (\<lambda>r'. if id_of r' = id_of r then (f r')\<lparr>updated := now\<rparr> else r')"
  have "isRow q i (g r') = isRow q i r'" for r'
    using assms(4,5) by (simp add: isRow_def g_def)
  then have live: "liveCount q (updateRow (id_of r) now f s) i = map_option (received_of \<circ> g) (find (isRow q i) (jobqueue s))"
    by (simp add: liveCount_def updateRow_def find_map_preserve option.map_comp flip: g_def)
  show "liveCount q (updateRow (id_of r) now f s) i = ((liveCount q s)(id_of r \<mapsto> received_of (f r))) i"
  proof (cases "i = id_of r")
    case True
    then show ?thesis
      unfolding live using find_distinct_id [of "jobqueue s" r q i] assms(1-3)
      by (simp add: queueInv_def isRow_def g_def)
  next
    case False
    then have "map_option (received_of \<circ> g) (find (isRow q i) (jobqueue s)) = map_option received_of (find (isRow q i) (jobqueue s))"
      using find_SomeD [of "isRow q i" "jobqueue s"]
      by (cases "find (isRow q i) (jobqueue s)") (simp_all add: isRow_def g_def)
    with False show ?thesis
      unfolding live by (simp add: liveCount_def)
  qed
qed

lemma queueInv_updateRow: "(\<And>r. id_of (f r) = id_of r) \<Longrightarrow> queueInv s \<Longrightarrow> queueInv (updateRow i now f s)"
  by (simp add: queueInv_def updateRow_def comp_def if_distrib cong: if_cong)

lemma Receive_Some:
  assumes "Receive q ok now s = (Inr (Some m), s')"
  shows "\<exists>r. r \<in> set (jobqueue s) \<and> receivable q now r \<and>
      (\<forall>r'\<in>set (jobqueue s). receivable q now r' \<longrightarrow> created r \<le> created r') \<and>
      m = \<lparr>ID = id_of r, Delay = 0, Received = received_of r + 1, Body = body_of r\<rparr> \<and>
      s' = updateRow (id_of r) now (\<lambda>r. r\<lparr>timeout_of := now + qtimeout q, received_of := received_of r + 1\<rparr>) s"
proof -
  from InTx_Inr [OF assms [unfolded Receive_def]]
  obtain r where r: "firstBy created (filter (receivable q now) (jobqueue s)) = Some r"
    "m = \<lparr>ID = id_of r, Delay = 0, Received = received_of r + 1, Body = body_of r\<rparr>"
    "s' = updateRow (id_of r) now (\<lambda>r. r\<lparr>timeout_of := now + qtimeout q, received_of := received_of r + 1\<rparr>) s"
    by (auto simp: receiveTx_def split: option.splits)
  with firstBy_Some [OF r(1)] show ?thesis by auto
qed

lemma Receive_None: "Receive q ok now s = (Inr None, s') \<Longrightarrow> s' = s"
  by (auto simp: Receive_def receiveTx_def dest!: InTx_Inr split: option.splits)

lemma Receive_Inl: "Receive q ok now s = (Inl e, s') \<Longrightarrow> s' = s"
  by (auto simp: Receive_def dest: InTx_Inl)

lemma liveCount_delete:
  "liveCount q (s\<lparr>jobqueue := filter (\<lambda>r. \<not> isRow q i r) (jobqueue s)\<rparr>) =
     (liveCount q s)(i := None)"
proof
  fix j
  have "find (isRow q j) (filter (\<lambda>r. \<not> isRow q i r) rows) =
      (if j = i then None else find (isRow q j) rows)" for rows
    by (induction rows) (auto dest: isRow_unique)
  then show "liveCount q (s\<lparr>jobqueue := filter (\<lambda>r. \<not> isRow q i r) (jobqueue s)\<rparr>) j =
      ((liveCount q s)(i := None)) j"
    by (simp add: liveCount_def)
qed

lemma liveCount_extend:
  "liveCount q (s\<lparr>jobqueue := map (\<lambda>r. if isRow q i r
      then r\<lparr>timeout_of := t, updated := now\<rparr> else r) (jobqueue s)\<rparr>) = liveCount q s"
proof -
  have "isRow q j (if isRow q i r then r\<lparr>timeout_of := t, updated := now\<rparr> else r) = isRow q j r" for j r
    by (simp add: isRow_def)
  then show ?thesis
    by (auto simp: fun_eq_iff liveCount_def find_map_preserve option.map_comp comp_def intro!: option.map_cong0)
qed

lemma queueInv_filter: "queueInv s \<Longrightarrow> queueInv (s\<lparr>jobqueue := filter P (jobqueue s)\<rparr>)"
  by (simp add: queueInv_def distinct_map_filter)

lemma queueInv_extend:
  "queueInv s \<Longrightarrow> queueInv (s\<lparr>jobqueue := map (\<lambda>r. if P r then r\<lparr>timeout_of := t, updated := now\<rparr> else r) (jobqueue s)\<rparr>)"
  by (simp add: queueInv_def comp_def if_distrib cong: if_cong)

lemma moveToDeadLetterTx_Inr:
  assumes "moveToDeadLetterTx q now i jn fr em s = (Inr (), s')"
  shows "jobqueue s' = filter (\<lambda>r. \<not> isRow q i r) (jobqueue s)"
    "jobqueue_dead s' = jobqueue_dead s @ map (\<lambda>r. \<lparr>djob = r, job_name = jn, failure_reason = fr, error_message = em,
       moved_at = now\<rparr>) (filter (isRow q i) (jobqueue s))"
    "filter (isRow q i) (jobqueue s) \<noteq> []"
  using assms by (auto simp: moveToDeadLetterTx_def deleteTx_def Let_def split: if_splits)

lemma liveCount_jobqueue: "jobqueue s = jobqueue s' \<Longrightarrow> liveCount q s = liveCount q s'"
  by (simp add: liveCount_def fun_eq_iff)

lemma sql_queue_contract:
  "job_queue queueInv (liveCount q) Some (maxReceive q) (Receive q) (Delete q) (MoveToDeadLetter q) (Extend q)"
proof
  fix s ok now m s'
  assume inv: "queueInv s" and "Receive q ok now s = (Inr (Some m), s')"
  from Receive_Some [OF this(2)] obtain r where r: "r \<in> set (jobqueue s)" "receivable q now r"
    "m = \<lparr>ID = id_of r, Delay = 0, Received = received_of r + 1, Body = body_of r\<rparr>"
    "s' = updateRow (id_of r) now (\<lambda>r. r\<lparr>timeout_of := now + qtimeout q, received_of := received_of r + 1\<rparr>) s"
    by blast
  have "liveCount q s (id_of r) = Some (received_of r)"
    using find_distinct_id [of "jobqueue s" r q "id_of r"] inv r(1,2)
    by (simp add: liveCount_def queueInv_def receivable_def isRow_def)
  then show "\<exists>k n. Some (ID m) = Some k \<and> liveCount q s k = Some n \<and> n < maxReceive q \<and> Received m = Suc n \<and>
      queueInv s' \<and> liveCount q s' = (liveCount q s)(k \<mapsto> Suc n)"
    using inv r by (simp add: receivable_def liveCount_updateRow queueInv_updateRow)
next
  fix s ok i s'
  assume "queueInv s" "Delete q ok i s = (Inr (), s')"
  then show "queueInv s' \<and> liveCount q s' = (case Some i of None \<Rightarrow> liveCount q s | Some k \<Rightarrow> (liveCount q s)(k := None))"
    by (auto simp: Delete_def deleteTx_def liveCount_delete queueInv_filter dest!: InTx_Inr)
next
  fix s ok now i jn fr em s'
  assume "queueInv s" and "MoveToDeadLetter q ok now i jn fr em s = (Inr (), s')"
  note mv = moveToDeadLetterTx_Inr [OF InTx_Inr [OF this(2) [unfolded MoveToDeadLetter_def]]]
  show "queueInv s' \<and> liveCount q s' = (case Some i of None \<Rightarrow> liveCount q s | Some k \<Rightarrow> (liveCount q s)(k := None))"
    using liveCount_delete [where q = q and s = s and i = i] liveCount_jobqueue [of s' "s\<lparr>jobqueue := jobqueue s'\<rparr>" q] \<open>queueInv s\<close>
    by (simp add: mv(1) queueInv_def distinct_map_filter)
next
  fix s ok now i d s'
  assume "queueInv s" "Extend q ok now i d s = (Inr (), s')"
  then show "queueInv s' \<and> liveCount q s' = liveCount q s"
    by (auto simp: Extend_def extendTx_def liveCount_extend queueInv_extend dest!: InTx_Inr split: if_splits)
qed (auto simp: Delete_def MoveToDeadLetter_def Extend_def dest: InTx_Inl Receive_None Receive_Inl)

interpretation sqlq: job_queue queueInv "liveCount q" Some "maxReceive q" "Receive q" "Delete q" "MoveToDeadLetter q" "Extend q"
  for q
  by (rule sql_queue_contract)

section \<open>Properties\<close>

text \<open>
  C16: a receive delivers the oldest message of the queue that is due and below its receive limit, counts the
  delivery, hides the message for the queue's timeout and touches no other row; it delivers nothing only when
  no message is receivable.
\<close>

theorem Receive_delivers_oldest:
  assumes "Receive q True now s = (res, s')"
  shows "(res = Inr None \<and> s' = s \<and> \<not> (\<exists>r\<in>set (jobqueue s). receivable q now r)) \<or>
     (\<exists>m. res = Inr (Some m) \<and> (\<exists>r\<in>set (jobqueue s). receivable q now r \<and>
        \<not> (\<exists>r'\<in>set (jobqueue s). receivable q now r' \<and> created r' < created r) \<and>
        ID m = id_of r \<and> Body m = body_of r \<and> Received m = received_of r + 1 \<and> Received m \<le> maxReceive q \<and>
        jobqueue s' = map (\<lambda>r'. if id_of r' = id_of r
          then r'\<lparr>timeout_of := now + qtimeout q, received_of := received_of r' + 1, updated := now\<rparr> else r') (jobqueue s) \<and>
        jobqueue_dead s' = jobqueue_dead s))"
proof (cases "firstBy created (filter (receivable q now) (jobqueue s))")
  case None
  then show ?thesis
    using assms by (auto simp: Receive_def InTx_def receiveTx_def filter_empty_conv)
next
  case (Some r)
  then obtain m where "res = Inr (Some m)"
    using assms by (auto simp: Receive_def InTx_def receiveTx_def)
  moreover from this Receive_Some [of q True now s m s'] assms obtain r where
    r: "r \<in> set (jobqueue s)" "receivable q now r"
      "\<forall>r'\<in>set (jobqueue s). receivable q now r' \<longrightarrow> created r \<le> created r'"
      "m = \<lparr>ID = id_of r, Delay = 0, Received = received_of r + 1, Body = body_of r\<rparr>"
      "s' = updateRow (id_of r) now (\<lambda>r. r\<lparr>timeout_of := now + qtimeout q, received_of := received_of r + 1\<rparr>) s"
    by blast
  moreover have "\<not> (\<exists>r'\<in>set (jobqueue s). receivable q now r' \<and> created r' < created r)"
    using r(3) by force
  ultimately show ?thesis
    by (intro disjI2 exI [of _ m] conjI bexI [of _ r]) (simp_all add: receivable_def updateRow_def)
qed

definition sampleQueue :: Queue where
  "sampleQueue = \<lparr>qname = ''q'', maxReceive = 3, qtimeout = 5000\<rparr>"

definition sampleDB :: queueDB where
  "sampleDB = \<lparr>jobqueue =
     [\<lparr>id_of = ''m1'', created = 10, updated = 10, queue_of = ''q'', body_of = ''one'', timeout_of = 10, received_of = 0\<rparr>,
      \<lparr>id_of = ''m2'', created = 5, updated = 5, queue_of = ''q'', body_of = ''two'', timeout_of = 5, received_of = 2\<rparr>],
     jobqueue_dead = []\<rparr>"

theorem Receive_delivers_oldest_witness:
  "\<exists>m s'. Receive sampleQueue True 20 sampleDB = (Inr (Some m), s') \<and> ID m = ''m2'' \<and> Received m = 3"
proof -
  obtain res s' where 1: "Receive sampleQueue True 20 sampleDB = (res, s')"
    by (cases "Receive sampleQueue True 20 sampleDB")
  have "res \<noteq> Inr None"
    using 1 by (auto simp: Receive_def InTx_def receiveTx_def sampleQueue_def sampleDB_def receivable_def)
  with Receive_delivers_oldest [OF 1] 1 show ?thesis
    by (auto simp: sampleQueue_def sampleDB_def receivable_def)
qed

text \<open>
  C17: moving a message to the dead-letter table conserves messages: on success the row leaves the queue and
  appears unchanged, with its reason, among the dead letters; on any error nothing changes.
\<close>

theorem MoveToDeadLetter_conserves:
  assumes "MoveToDeadLetter q dbok now i jn fr em s = (res, s')"
  shows "mset (jobqueue s') + mset (map djob (jobqueue_dead s')) = mset (jobqueue s) + mset (map djob (jobqueue_dead s)) \<and>
     (case res of
       Inl e \<Rightarrow> s' = s
     | Inr _ \<Rightarrow> liveCount q s' i = None \<and> (\<exists>r\<in>set (jobqueue s). isRow q i r \<and>
         \<lparr>djob = r, job_name = jn, failure_reason = fr, error_message = em, moved_at = now\<rparr> \<in> set (jobqueue_dead s')))"
proof (cases res)
  case (Inl e)
  then show ?thesis
    using assms InTx_Inl [of dbok "moveToDeadLetterTx q now i jn fr em"] by (auto simp: MoveToDeadLetter_def)
next
  case (Inr u)
  then have mv: "moveToDeadLetterTx q now i jn fr em s = (Inr (), s')"
    using assms by (auto simp: MoveToDeadLetter_def dest: InTx_Inr)
  note mv = moveToDeadLetterTx_Inr [OF mv]
  have "liveCount q s' i = None"
    using liveCount_delete [where q = q and s = s and i = i] liveCount_jobqueue [of s' "s\<lparr>jobqueue := jobqueue s'\<rparr>" q]
    by (simp add: mv(1))
  moreover obtain r where "r \<in> set (jobqueue s)" "isRow q i r"
    using mv(3) by (auto simp: filter_empty_conv)
  moreover have "mset (jobqueue s') + mset (map djob (jobqueue_dead s')) = mset (jobqueue s) + mset (map djob (jobqueue_dead s))"
    using multiset_partition [of "mset (jobqueue s)" "isRow q i"] by (simp add: mv(1,2) comp_def)
  ultimately show ?thesis
    using Inr by (auto simp: mv(2))
qed

theorem MoveToDeadLetter_conserves_witness:
  "\<exists>s'. MoveToDeadLetter sampleQueue True 30 ''m2'' ''task'' ''max_retries'' ''boom'' sampleDB = (Inr (), s') \<and>
     liveCount sampleQueue s' ''m2'' = None \<and> length (jobqueue s') + length (jobqueue_dead s') = 2"
proof -
  obtain s' where 1: "MoveToDeadLetter sampleQueue True 30 ''m2'' ''task'' ''max_retries'' ''boom'' sampleDB = (Inr (), s')"
    by (simp add: MoveToDeadLetter_def InTx_def moveToDeadLetterTx_def deleteTx_def isRow_def sampleQueue_def sampleDB_def)
  have "length (jobqueue s') + length (jobqueue_dead s') = 2"
    using arg_cong [OF conjunct1 [OF MoveToDeadLetter_conserves [OF 1]], of size] by (simp add: sampleDB_def)
  with MoveToDeadLetter_conserves [OF 1] 1 show ?thesis
    by auto
qed

end
