(* ===== verification/Dedup_Queue.thy ===== *)
theory Dedup_Queue
  imports Job_Queue "HOL-Library.Product_Lexorder"
begin

text \<open>
  The deduplicating job queue, \<open>lib/jobqueue/dedup/queue.go\<close> with the tables of \<open>schema.sqlite.sql\<close> and
  \<open>schema.postgres.sql\<close>.

  Times are seconds. A new row takes its key from the database: SQLite's \<open>INTEGER PRIMARY KEY\<close> is one more than
  the largest key in the table, PostgreSQL's \<open>SERIAL\<close> is the next value of a sequence. \<open>unm\<close> is the JSON
  decoder of the message envelope.
\<close>

section \<open>Tables\<close>

datatype Dialect = SQLite | Postgres

record nsRow =
  ns_id :: int
  ns_queue :: string
  ns_name :: string

record dJobRow =
  jid :: int
  jns :: int
  jkey :: string
  jbody :: string
  jcreated :: int
  javail :: int
  jattempts :: nat

record dDeadRow =
  xjob :: dJobRow
  xreason :: string
  xerror :: string

record dedupDB =
  queues :: "string \<rightharpoonup> bool"
  job_ns :: "nsRow list"
  ns_seq :: int
  jobs :: "dJobRow list"
  jobs_seq :: int
  job_done :: "int \<times> string \<rightharpoonup> nat"
  job_dead :: "dDeadRow list"

record DedupQueue =
  dname :: string
  dmaxReceive :: nat
  dtimeout :: int
  dedupeEnabled :: bool
  blockRepeatsOnDLQ :: bool
  hash_of :: "string \<Rightarrow> string"
  dialect_of :: Dialect

definition jobDoneStatusSuccess :: nat where
  "jobDoneStatusSuccess = 1"

definition jobDoneStatusDeadLetter :: nat where
  "jobDoneStatusDeadLetter = 2"

text \<open>\<open>New\<close>: option checks, defaults, and the row of the queue in \<open>queues\<close>.\<close>

definition NewDedup :: "Dialect \<Rightarrow> bool \<Rightarrow> string \<Rightarrow> int \<Rightarrow> int \<Rightarrow> bool option \<Rightarrow> bool option \<Rightarrow> (string \<Rightarrow> string)
    \<Rightarrow> bool \<Rightarrow> dedupDB \<Rightarrow> (qErr + DedupQueue) \<times> dedupDB" where
  "NewDedup d dbGiven nm mr tmo dedupe block hash dbok s =
     (if \<not> dbGiven then (Inl (ConfigError ''db is required''), s)
      else if nm = '''' then (Inl (ConfigError ''queue name is required''), s)
      else if mr < 0 then (Inl (ConfigError ''max receive cannot be negative''), s)
      else if tmo < 0 then (Inl (ConfigError ''timeout cannot be negative''), s)
      else let dedupeEnabled = (case dedupe of None \<Rightarrow> True | Some b \<Rightarrow> b);
               blockRepeats = (case block of None \<Rightarrow> True | Some b \<Rightarrow> b)
           in if \<not> dbok then (Inl DBError, s)
              else (Inr \<lparr>dname = nm, dmaxReceive = (if mr = 0 then 3 else nat mr), dtimeout = (if tmo = 0 then 5 else tmo),
                      dedupeEnabled = dedupeEnabled, blockRepeatsOnDLQ = blockRepeats, hash_of = hash, dialect_of = d\<rparr>,
                    s\<lparr>queues := (queues s)(nm \<mapsto> dedupeEnabled)\<rparr>))"

section \<open>Operations\<close>

definition decodeEnvelope :: "(string \<Rightarrow> (string \<times> string) option) \<Rightarrow> string \<Rightarrow> qErr + (string \<times> string)" where
  "decodeEnvelope unm body =
     (case unm body of
       None \<Rightarrow> Inl DecodeError
     | Some env \<Rightarrow> if fst env = '''' then Inl MissingName else Inr env)"

definition nextKey :: "Dialect \<Rightarrow> int list \<Rightarrow> int \<Rightarrow> int" where
  "nextKey d keys sq = (case d of SQLite \<Rightarrow> foldr max keys 0 + 1 | Postgres \<Rightarrow> sq + 1)"

definition findNs :: "DedupQueue \<Rightarrow> string \<Rightarrow> dedupDB \<Rightarrow> nsRow option" where
  "findNs q nm s = find (\<lambda>n. ns_queue n = dname q \<and> ns_name n = nm) (job_ns s)"

definition ensureNamespace :: "DedupQueue \<Rightarrow> string \<Rightarrow> dedupDB \<Rightarrow> int \<times> dedupDB" where
  "ensureNamespace q nm s =
     (case findNs q nm s of
       Some n \<Rightarrow> (ns_id n, s\<lparr>ns_seq := ns_seq s + 1\<rparr>)
     | None \<Rightarrow> (let i = nextKey (dialect_of q) (map ns_id (job_ns s)) (ns_seq s)
                in (i, s\<lparr>job_ns := job_ns s @ [\<lparr>ns_id = i, ns_queue = dname q, ns_name = nm\<rparr>], ns_seq := ns_seq s + 1\<rparr>)))"

definition isJobDone :: "int \<Rightarrow> string \<Rightarrow> dedupDB \<Rightarrow> bool" where
  "isJobDone nsID key s \<longleftrightarrow> job_done s (nsID, key) \<noteq> None"

text \<open>A skipped send returns the empty identifier.\<close>

definition dSendTx :: "DedupQueue \<Rightarrow> (string \<Rightarrow> (string \<times> string) option) \<Rightarrow> int \<Rightarrow> Message \<Rightarrow> dedupDB
    \<Rightarrow> (qErr + string) \<times> dedupDB" where
  "dSendTx q unm now m s =
     (if Delay m < 0 then (Inl PanicNegativeDelay, s)
      else (case decodeEnvelope unm (Body m) of
        Inl e \<Rightarrow> (Inl e, s)
      | Inr (envName, envMessage) \<Rightarrow>
          let (nsID, s1) = ensureNamespace q envName s;
              key = hash_of q envMessage
          in if dedupeEnabled q \<and> isJobDone nsID key s1 then (Inr '''', s1)
             else if \<exists>j\<in>set (jobs s1). jns j = nsID \<and> jkey j = key then (Inr '''', s1\<lparr>jobs_seq := jobs_seq s1 + 1\<rparr>)
             else let i = nextKey (dialect_of q) (map jid (jobs s1)) (jobs_seq s1)
                  in (Inr (formatInt i), s1\<lparr>jobs := jobs s1 @
                       [\<lparr>jid = i, jns = nsID, jkey = key, jbody = Body m, jcreated = now, javail = now + Delay m, jattempts = 0\<rparr>],
                       jobs_seq := jobs_seq s1 + 1\<rparr>)))"

definition dSend :: "DedupQueue \<Rightarrow> (string \<Rightarrow> (string \<times> string) option) \<Rightarrow> bool \<Rightarrow> int \<Rightarrow> Message \<Rightarrow> dedupDB
    \<Rightarrow> (qErr + string) \<times> dedupDB" where
  "dSend q unm dbok now m = InTx dbok (dSendTx q unm now m)"

definition dReceivable :: "DedupQueue \<Rightarrow> int \<Rightarrow> dedupDB \<Rightarrow> dJobRow \<Rightarrow> bool" where
  "dReceivable q now s j \<longleftrightarrow>
     list_ex (\<lambda>n. ns_id n = jns j \<and> ns_queue n = dname q) (job_ns s) \<and> javail j \<le> now \<and> jattempts j < dmaxReceive q"

definition dReceiveTx :: "DedupQueue \<Rightarrow> int \<Rightarrow> dedupDB \<Rightarrow> (qErr + Message option) \<times> dedupDB" where
  "dReceiveTx q now s =
     (case firstBy (\<lambda>j. (jcreated j, jid j)) (filter (dReceivable q now s) (jobs s)) of
       None \<Rightarrow> (Inr None, s)
     | Some r \<Rightarrow>
         (Inr (Some \<lparr>ID = formatInt (jid r), Delay = 0, Received = jattempts r + 1, Body = jbody r\<rparr>),
          s\<lparr>jobs := map (\<lambda>j. if jid j = jid r then j\<lparr>jattempts := jattempts j + 1, javail := now + dtimeout q\<rparr> else j) (jobs s)\<rparr>))"

definition dReceive :: "DedupQueue \<Rightarrow> bool \<Rightarrow> int \<Rightarrow> dedupDB \<Rightarrow> (qErr + Message option) \<times> dedupDB" where
  "dReceive q dbok now = InTx dbok (dReceiveTx q now)"

definition parseJobID :: "string \<Rightarrow> qErr + int" where
  "parseJobID i = (case atoi i of None \<Rightarrow> Inl InvalidJobID | Some n \<Rightarrow> Inr n)"

definition dExtendTx :: "int \<Rightarrow> string \<Rightarrow> int \<Rightarrow> dedupDB \<Rightarrow> (qErr + unit) \<times> dedupDB" where
  "dExtendTx now i delay s =
     (if delay < 0 then (Inl PanicNegativeDelay, s)
      else (case parseJobID i of
        Inl e \<Rightarrow> (Inl e, s)
      | Inr n \<Rightarrow> (Inr (), s\<lparr>jobs := map (\<lambda>j. if jid j = n then j\<lparr>javail := now + delay\<rparr> else j) (jobs s)\<rparr>)))"

definition dExtend :: "bool \<Rightarrow> int \<Rightarrow> string \<Rightarrow> int \<Rightarrow> dedupDB \<Rightarrow> (qErr + unit) \<times> dedupDB" where
  "dExtend dbok now i delay = InTx dbok (dExtendTx now i delay)"

definition fetchJob :: "int \<Rightarrow> dedupDB \<Rightarrow> dJobRow option" where
  "fetchJob n s = find (\<lambda>j. jid j = n) (jobs s)"

definition insertJobDone :: "int \<Rightarrow> string \<Rightarrow> nat \<Rightarrow> dedupDB \<Rightarrow> dedupDB" where
  "insertJobDone nsID key status s =
     (if job_done s (nsID, key) = None then s\<lparr>job_done := (job_done s)((nsID, key) \<mapsto> status)\<rparr> else s)"

definition removeJob :: "int \<Rightarrow> dedupDB \<Rightarrow> dedupDB" where
  "removeJob n s = s\<lparr>jobs := filter (\<lambda>j. jid j \<noteq> n) (jobs s)\<rparr>"

definition dDeleteTx :: "DedupQueue \<Rightarrow> string \<Rightarrow> nat \<Rightarrow> dedupDB \<Rightarrow> (qErr + unit) \<times> dedupDB" where
  "dDeleteTx q i status s =
     (case parseJobID i of
       Inl e \<Rightarrow> (Inl e, s)
     | Inr n \<Rightarrow>
         (case fetchJob n s of
           None \<Rightarrow> (Inr (), s)
         | Some row \<Rightarrow>
             (Inr (), if dedupeEnabled q then insertJobDone (jns row) (jkey row) status (removeJob n s) else removeJob n s)))"

definition dDelete :: "DedupQueue \<Rightarrow> bool \<Rightarrow> string \<Rightarrow> dedupDB \<Rightarrow> (qErr + unit) \<times> dedupDB" where
  "dDelete q dbok i = InTx dbok (dDeleteTx q i jobDoneStatusSuccess)"

definition dMoveTx :: "DedupQueue \<Rightarrow> string \<Rightarrow> string \<Rightarrow> string \<Rightarrow> dedupDB \<Rightarrow> (qErr + unit) \<times> dedupDB" where
  "dMoveTx q i failureReason errorMsg s =
     (case parseJobID i of
       Inl e \<Rightarrow> (Inl e, s)
     | Inr n \<Rightarrow>
         (case fetchJob n s of
           None \<Rightarrow> (Inr (), s)
         | Some row \<Rightarrow>
             if \<exists>x\<in>set (job_dead s). jid (xjob x) = jid row then (Inl UniqueViolation, s)
             else let s1 = removeJob n (s\<lparr>job_dead := job_dead s @ [\<lparr>xjob = row, xreason = failureReason, xerror = errorMsg\<rparr>]\<rparr>)
                  in (Inr (), if dedupeEnabled q \<and> blockRepeatsOnDLQ q
                              then insertJobDone (jns row) (jkey row) jobDoneStatusDeadLetter s1 else s1)))"

definition dMoveToDeadLetter :: "DedupQueue \<Rightarrow> bool \<Rightarrow> int \<Rightarrow> string \<Rightarrow> string \<Rightarrow> string \<Rightarrow> string \<Rightarrow> dedupDB
    \<Rightarrow> (qErr + unit) \<times> dedupDB" where
  "dMoveToDeadLetter q dbok now i jobName failureReason errorMsg = InTx dbok (dMoveTx q i failureReason errorMsg)"

section \<open>Invariant\<close>

text \<open>
  Keys of rows are unique and fit the 64-bit identifiers, a namespace and key occur in at most one live job, a
  queue's task name has one namespace, and no live job is recorded as done.
\<close>

definition dedupInv :: "dedupDB \<Rightarrow> bool" where
  "dedupInv s \<longleftrightarrow> distinct (map jid (jobs s)) \<and> (\<forall>j\<in>set (jobs s). 0 < jid j \<and> jid j < 2 ^ 63) \<and>
     distinct (map (\<lambda>j. (jns j, jkey j)) (jobs s)) \<and>
     distinct (map (\<lambda>n. (ns_queue n, ns_name n)) (job_ns s))"

text \<open>No live job is recorded as done: kept by every queue that deduplicates.\<close>

definition doneInv :: "dedupDB \<Rightarrow> bool" where
  "doneInv s \<longleftrightarrow> (\<forall>j\<in>set (jobs s). job_done s (jns j, jkey j) = None)"

text \<open>The receive counts of the live jobs.\<close>

definition dLive :: "dedupDB \<Rightarrow> int \<rightharpoonup> nat" where
  "dLive s n = map_option jattempts (fetchJob n s)"

lemma fetchJob_Some:
  assumes "fetchJob n s = Some r"
  shows "r \<in> set (jobs s)" "jid r = n"
  using find_SomeD [OF assms [unfolded fetchJob_def]] by simp_all

lemma fetchJob_member: "dedupInv s \<Longrightarrow> r \<in> set (jobs s) \<Longrightarrow> fetchJob (jid r) s = Some r"
  by (simp add: fetchJob_def dedupInv_def find_key_distinct)

text \<open>Updating rows in place keeps keys; removing a row forgets exactly its count.\<close>

lemma dedupInv_map:
  assumes "\<And>j. jid (g j) = jid j" "\<And>j. jns (g j) = jns j" "\<And>j. jkey (g j) = jkey j"
  shows "dedupInv (s\<lparr>jobs := map g (jobs s)\<rparr>) = dedupInv s"
  by (auto simp: dedupInv_def assms comp_def)

lemma dLive_map:
  "(\<And>j. jid (g j) = jid j) \<Longrightarrow> dLive (s\<lparr>jobs := map g (jobs s)\<rparr>) n = map_option (jattempts \<circ> g) (fetchJob n s)"
  by (simp add: dLive_def fetchJob_def find_key_map option.map_comp)

lemma dLive_removeJob: "dLive (removeJob n s) = (dLive s)(n := None)"
  by (rule ext) (simp add: dLive_def fetchJob_def removeJob_def find_key_filter)

lemma dedupInv_removeJob: "dedupInv s \<Longrightarrow> dedupInv (removeJob n s)"
  by (auto simp: dedupInv_def removeJob_def distinct_map_filter)

lemma dedupInv_more [simp]:
  "dedupInv (s\<lparr>job_done := d\<rparr>) = dedupInv s" "dedupInv (s\<lparr>job_dead := x\<rparr>) = dedupInv s"
  "dedupInv (s\<lparr>jobs_seq := i\<rparr>) = dedupInv s" "dedupInv (s\<lparr>ns_seq := i\<rparr>) = dedupInv s"
  by (simp_all add: dedupInv_def)

lemma dLive_more [simp]:
  "dLive (s\<lparr>job_done := d\<rparr>) = dLive s" "dLive (s\<lparr>job_dead := x\<rparr>) = dLive s"
  "dLive (s\<lparr>jobs_seq := i\<rparr>) = dLive s" "dLive (s\<lparr>ns_seq := i\<rparr>) = dLive s"
  by (simp_all add: dLive_def fetchJob_def fun_eq_iff)

lemma insertJobDone_keeps [simp]:
  "dedupInv (insertJobDone nsID key st s) = dedupInv s" "dLive (insertJobDone nsID key st s) = dLive s"
  by (simp_all add: insertJobDone_def)

lemma dReceive_Some:
  assumes "dReceive q ok now s = (Inr (Some m), s')"
  shows "\<exists>r. r \<in> set (jobs s) \<and> dReceivable q now s r \<and>
      (\<forall>r'\<in>set (jobs s). dReceivable q now s r' \<longrightarrow> (jcreated r, jid r) \<le> (jcreated r', jid r')) \<and>
      m = \<lparr>ID = formatInt (jid r), Delay = 0, Received = jattempts r + 1, Body = jbody r\<rparr> \<and>
      s' = s\<lparr>jobs := map (\<lambda>j. if jid j = jid r then j\<lparr>jattempts := jattempts j + 1, javail := now + dtimeout q\<rparr> else j) (jobs s)\<rparr>"
proof -
  from InTx_Inr [OF assms [unfolded dReceive_def]]
  obtain r where r: "firstBy (\<lambda>j. (jcreated j, jid j)) (filter (dReceivable q now s) (jobs s)) = Some r"
    "m = \<lparr>ID = formatInt (jid r), Delay = 0, Received = jattempts r + 1, Body = jbody r\<rparr>"
    "s' = s\<lparr>jobs := map (\<lambda>j. if jid j = jid r then j\<lparr>jattempts := jattempts j + 1, javail := now + dtimeout q\<rparr> else j) (jobs s)\<rparr>"
    by (auto simp: dReceiveTx_def split: option.splits)
  with firstBy_Some [OF r(1)] show ?thesis
    by (intro exI [of _ r]) (simp del: less_eq_prod_def)
qed

lemma dReceive_None: "dReceive q ok now s = (Inr None, s') \<Longrightarrow> s' = s"
  by (auto simp: dReceive_def dReceiveTx_def dest!: InTx_Inr split: option.splits)

lemma dReceive_Inl: "dReceive q ok now s = (Inl e, s') \<Longrightarrow> s' = s"
  by (auto simp: dReceive_def dest: InTx_Inl)

lemma dDeleteTx_Inr:
  assumes "dDeleteTx q i st s = (Inr (), s')"
  shows "\<exists>n. atoi i = Some n \<and> (fetchJob n s = None \<and> s' = s \<or>
    (\<exists>row. fetchJob n s = Some row \<and>
      s' = (if dedupeEnabled q then insertJobDone (jns row) (jkey row) st (removeJob n s) else removeJob n s)))"
  using assms by (auto simp: dDeleteTx_def parseJobID_def split: sum.splits option.splits)

lemma dMoveTx_Inr:
  assumes "dMoveTx q i fr em s = (Inr (), s')"
  shows "\<exists>n. atoi i = Some n \<and> (fetchJob n s = None \<and> s' = s \<or>
    (\<exists>row s1. fetchJob n s = Some row \<and> (\<forall>x\<in>set (job_dead s). jid (xjob x) \<noteq> jid row) \<and>
      s1 = removeJob n (s\<lparr>job_dead := job_dead s @ [\<lparr>xjob = row, xreason = fr, xerror = em\<rparr>]\<rparr>) \<and>
      s' = (if dedupeEnabled q \<and> blockRepeatsOnDLQ q then insertJobDone (jns row) (jkey row) jobDoneStatusDeadLetter s1 else s1)))"
  using assms by (auto simp: dMoveTx_def parseJobID_def Let_def split: sum.splits option.splits if_splits)

lemma dLive_None: "fetchJob n s = None \<Longrightarrow> (dLive s)(n := None) = dLive s"
  by (rule fun_upd_idem) (simp add: dLive_def)

lemma dLive_map_same:
  assumes "\<And>j. jid (g j) = jid j" "\<And>j. jattempts (g j) = jattempts j"
  shows "dLive (s\<lparr>jobs := map g (jobs s)\<rparr>) = dLive s"
proof -
  have "jattempts \<circ> g = jattempts"
    by (rule ext) (simp add: assms(2))
  then show ?thesis
    by (intro ext) (simp add: dLive_map assms(1), simp add: dLive_def)
qed

lemma dReceive_live:
  assumes inv: "dedupInv s" and rcv: "dReceive q ok now s = (Inr (Some m), s')"
  shows "\<exists>k n. atoi (ID m) = Some k \<and> dLive s k = Some n \<and> n < dmaxReceive q \<and> Received m = Suc n \<and>
      dedupInv s' \<and> dLive s' = (dLive s)(k \<mapsto> Suc n)"
proof -
  obtain r where r: "r \<in> set (jobs s)" "dReceivable q now s r"
    "m = \<lparr>ID = formatInt (jid r), Delay = 0, Received = jattempts r + 1, Body = jbody r\<rparr>"
    "s' = s\<lparr>jobs := map (\<lambda>j. if jid j = jid r then j\<lparr>jattempts := jattempts j + 1, javail := now + dtimeout q\<rparr> else j) (jobs s)\<rparr>"
    using dReceive_Some [OF rcv] by blast
  note fetch = fetchJob_member [OF inv r(1)]
  have "atoi (formatInt (jid r)) = Some (jid r)"
    using inv r(1) by (intro atoi_formatInt) (auto simp: dedupInv_def)
  moreover have "dLive s' = (dLive s)(jid r \<mapsto> Suc (jattempts r))"
  proof
    fix n
    have live: "dLive s' n = map_option (jattempts \<circ> (\<lambda>j. if jid j = jid r
        then j\<lparr>jattempts := jattempts j + 1, javail := now + dtimeout q\<rparr> else j)) (fetchJob n s)"
      unfolding r(4) by (rule dLive_map) simp
    show "dLive s' n = ((dLive s)(jid r \<mapsto> Suc (jattempts r))) n"
    proof (cases "n = jid r")
      case True
      then show ?thesis
        unfolding live by (simp add: fetch)
    next
      case False
      then show ?thesis
        unfolding live using fetchJob_Some(2) [of n s]
        by (cases "fetchJob n s") (auto simp: dLive_def)
    qed
  qed
  moreover have "dedupInv s'"
    using inv unfolding r(4) by (subst dedupInv_map) simp_all
  ultimately show ?thesis
    using fetch r(2) by (simp add: r(3) dLive_def dReceivable_def)
qed

lemma dDelete_live:
  assumes "dedupInv s" "dDelete q ok i s = (Inr (), s')"
  shows "dedupInv s' \<and> dLive s' = (case atoi i of None \<Rightarrow> dLive s | Some k \<Rightarrow> (dLive s)(k := None))"
  using dDeleteTx_Inr [OF InTx_Inr [OF assms(2) [unfolded dDelete_def]]] assms(1)
  by (elim exE conjE disjE) (simp_all add: dLive_removeJob dedupInv_removeJob dLive_None)

lemma dMove_live:
  assumes "dedupInv s" "dMoveToDeadLetter q ok now i jn fr em s = (Inr (), s')"
  shows "dedupInv s' \<and> dLive s' = (case atoi i of None \<Rightarrow> dLive s | Some k \<Rightarrow> (dLive s)(k := None))"
  using dMoveTx_Inr [OF InTx_Inr [OF assms(2) [unfolded dMoveToDeadLetter_def]]] assms(1)
  by (elim exE conjE disjE) (simp_all add: dLive_removeJob dedupInv_removeJob dLive_None)

lemma dExtend_live:
  assumes "dedupInv s" "dExtend ok now i d s = (Inr (), s')"
  shows "dedupInv s' \<and> dLive s' = dLive s"
proof -
  obtain n where "s' = s\<lparr>jobs := map (\<lambda>j. if jid j = n then j\<lparr>javail := now + d\<rparr> else j) (jobs s)\<rparr>"
    using assms(2) by (auto simp: dExtend_def dExtendTx_def dest!: InTx_Inr split: if_splits sum.splits)
  then show ?thesis
    using assms(1) by (simp add: dedupInv_map dLive_map_same)
qed

lemma dedup_queue_contract:
  "job_queue dedupInv dLive atoi (dmaxReceive q) (dReceive q) (dDelete q) (dMoveToDeadLetter q) dExtend"
  by unfold_locales
    (fact dReceive_live dDelete_live dMove_live dExtend_live dReceive_None dReceive_Inl
     | simp add: dDelete_def dMoveToDeadLetter_def dExtend_def, erule InTx_Inl)+

interpretation dedupq: job_queue dedupInv dLive atoi "dmaxReceive q" "dReceive q" "dDelete q" "dMoveToDeadLetter q" dExtend
  for q
  by (rule dedup_queue_contract)

section \<open>Runs of a deduplicating database\<close>

text \<open>
  All queues on the database deduplicate and use its dialect \<open>d\<close>; a send needs room for one more 64-bit key.
\<close>

definition idRoom :: "dedupDB \<Rightarrow> bool" where
  "idRoom s \<longleftrightarrow> 0 \<le> jobs_seq s \<and> jobs_seq s + 1 < 2 ^ 63 \<and> (\<forall>j\<in>set (jobs s). jid j + 1 < 2 ^ 63)"

inductive dStep :: "Dialect \<Rightarrow> (string \<Rightarrow> (string \<times> string) option) \<Rightarrow> dedupDB \<Rightarrow> dedupDB \<Rightarrow> bool"
  for d :: Dialect and unm :: "string \<Rightarrow> (string \<times> string) option" where
  send: "dedupeEnabled q \<Longrightarrow> dialect_of q = d \<Longrightarrow> idRoom s \<Longrightarrow> dSend q unm ok now m s = (res, s') \<Longrightarrow> dStep d unm s s'"
| receive: "dReceive q ok now s = (res, s') \<Longrightarrow> dStep d unm s s'"
| extend: "dExtend ok now i delay s = (res, s') \<Longrightarrow> dStep d unm s s'"
| delete: "dedupeEnabled q \<Longrightarrow> dDelete q ok i s = (res, s') \<Longrightarrow> dStep d unm s s'"
| move: "dedupeEnabled q \<Longrightarrow> dMoveToDeadLetter q ok now i jn fr em s = (res, s') \<Longrightarrow> dStep d unm s s'"

text \<open>A sequence never hands out a key twice, so live and dead keys stay apart.\<close>

definition seqInv :: "dedupDB \<Rightarrow> bool" where
  "seqInv s \<longleftrightarrow> (\<forall>j\<in>set (jobs s). jid j \<le> jobs_seq s) \<and> (\<forall>x\<in>set (job_dead s). jid (xjob x) \<le> jobs_seq s) \<and>
     (\<forall>x\<in>set (job_dead s). \<forall>j\<in>set (jobs s). jid (xjob x) \<noteq> jid j)"

definition runInv :: "Dialect \<Rightarrow> dedupDB \<Rightarrow> bool" where
  "runInv d s \<longleftrightarrow> dedupInv s \<and> doneInv s \<and> (d = Postgres \<longrightarrow> seqInv s)"

lemma foldr_max_ge: "k \<in> set ks \<Longrightarrow> k \<le> foldr max ks (0::int)" "0 \<le> foldr max ks (0::int)"
  by (induction ks) auto

lemma foldr_max_less: "0 < b \<Longrightarrow> (\<And>k. k \<in> set ks \<Longrightarrow> k < b) \<Longrightarrow> foldr max ks (0::int) < b"
  by (induction ks) auto

lemma nextKey_fresh:
  assumes "idRoom s" "d = Postgres \<Longrightarrow> seqInv s"
  shows "nextKey d (map jid (jobs s)) (jobs_seq s) \<notin> jid ` set (jobs s)"
    "0 < nextKey d (map jid (jobs s)) (jobs_seq s)" "nextKey d (map jid (jobs s)) (jobs_seq s) < 2 ^ 63"
proof -
  have b: "foldr max (map jid (jobs s)) 0 < 2 ^ 63 - 1"
    using assms(1) by (intro foldr_max_less) (auto simp: idRoom_def)
  show "nextKey d (map jid (jobs s)) (jobs_seq s) \<notin> jid ` set (jobs s)"
    using foldr_max_ge(1) [of _ "map jid (jobs s)"] assms(2)
    by (cases d) (fastforce simp: nextKey_def seqInv_def)+
  show "0 < nextKey d (map jid (jobs s)) (jobs_seq s)" "nextKey d (map jid (jobs s)) (jobs_seq s) < 2 ^ 63"
    using b foldr_max_ge(2) [of "map jid (jobs s)"] assms(1) by (cases d; simp add: nextKey_def idRoom_def)+
qed

lemma ensureNamespace_keeps:
  assumes "ensureNamespace q nm s = (i, s1)"
  shows "jobs s1 = jobs s" "jobs_seq s1 = jobs_seq s" "job_done s1 = job_done s" "job_dead s1 = job_dead s"
    "dedupInv s \<Longrightarrow> dedupInv s1"
proof -
  show "jobs s1 = jobs s" "jobs_seq s1 = jobs_seq s" "job_done s1 = job_done s" "job_dead s1 = job_dead s"
    using assms by (auto simp: ensureNamespace_def Let_def split: option.splits)
  show "dedupInv s1" if "dedupInv s"
    using assms that by (auto simp: ensureNamespace_def Let_def dedupInv_def findNs_def find_None_iff split: option.splits) blast
qed

text \<open>A send adds at most one job, whose namespace and key are neither live nor done.\<close>

lemma dSendTx_cases:
  assumes "dSendTx q unm now m s = (Inr res, s')" "dedupeEnabled q"
  obtains (skipped) s1 where "s' = s1 \<or> s' = s1\<lparr>jobs_seq := jobs_seq s1 + 1\<rparr>" "jobs s1 = jobs s" "jobs_seq s1 = jobs_seq s"
      "job_done s1 = job_done s" "job_dead s1 = job_dead s" "dedupInv s \<Longrightarrow> dedupInv s1"
  | (added) s1 j where "s' = s1\<lparr>jobs := jobs s1 @ [j], jobs_seq := jobs_seq s1 + 1\<rparr>" "jobs s1 = jobs s" "jobs_seq s1 = jobs_seq s"
      "job_done s1 = job_done s" "job_dead s1 = job_dead s" "dedupInv s \<Longrightarrow> dedupInv s1"
      "jid j = nextKey (dialect_of q) (map jid (jobs s)) (jobs_seq s)"
      "job_done s (jns j, jkey j) = None" "(jns j, jkey j) \<notin> (\<lambda>j. (jns j, jkey j)) ` set (jobs s)"
      "res = formatInt (jid j)" "jattempts j = 0"
proof -
  obtain nm msg nsID s1 where env: "decodeEnvelope unm (Body m) = Inr (nm, msg)" "0 \<le> Delay m"
    and ns: "ensureNamespace q nm s = (nsID, s1)"
    using assms(1) by (auto simp: dSendTx_def split: if_splits sum.splits) (metis surj_pair)
  note keep = ensureNamespace_keeps [OF ns]
  show thesis
  proof (cases "isJobDone nsID (hash_of q msg) s1 \<or> (\<exists>j\<in>set (jobs s1). jns j = nsID \<and> jkey j = hash_of q msg)")
    case True
    then show thesis
      using assms env ns keep by (intro skipped [of s1]) (auto simp: dSendTx_def Let_def split: if_splits)
  next
    case False
    define j where "j = \<lparr>jid = nextKey (dialect_of q) (map jid (jobs s)) (jobs_seq s), jns = nsID, jkey = hash_of q msg,
      jbody = Body m, jcreated = now, javail = now + Delay m, jattempts = 0\<rparr>"
    show thesis
      using False assms env ns keep by (intro added [of s1 j]) (auto simp: dSendTx_def Let_def isJobDone_def j_def split: if_splits)
  qed
qed

lemma seqInv_mono:
  "seqInv s \<Longrightarrow> jobs s' = jobs s \<Longrightarrow> job_dead s' = job_dead s \<Longrightarrow> jobs_seq s \<le> jobs_seq s' \<Longrightarrow> seqInv s'"
  by (auto simp: seqInv_def intro: order_trans)

lemma doneInv_cong: "jobs s' = jobs s \<Longrightarrow> job_done s' = job_done s \<Longrightarrow> doneInv s' = doneInv s"
  by (simp add: doneInv_def)

lemma dSend_runInv:
  assumes "runInv d s" "dedupeEnabled q" "dialect_of q = d" "idRoom s" "dSend q unm ok now m s = (res, s')"
  shows "runInv d s' \<and> job_done s' = job_done s"
proof (cases res)
  case (Inl e)
  then show ?thesis
    using assms InTx_Inl [of ok "dSendTx q unm now m" s] by (auto simp: dSend_def)
next
  case (Inr i)
  have inv: "dedupInv s" "doneInv s" "d = Postgres \<longrightarrow> seqInv s"
    using assms(1) by (auto simp: runInv_def)
  from InTx_Inr [OF assms(5) [unfolded dSend_def Inr]] assms(2) show ?thesis
  proof (cases rule: dSendTx_cases)
    case (skipped s1)
    then have "jobs s' = jobs s" "job_done s' = job_done s" "job_dead s' = job_dead s" "jobs_seq s \<le> jobs_seq s'" "dedupInv s'"
      using inv(1) by auto
    then show ?thesis
      using inv seqInv_mono [of s s'] doneInv_cong [of s' s] by (simp add: runInv_def)
  next
    case (added s1 j)
    note fresh = nextKey_fresh [OF assms(4), of d]
    have "dedupInv s'"
      using added(2,6,9) inv fresh unfolding added(1,7) assms(3) dedupInv_def
      by (simp add: added(7) assms(3))
    moreover have "doneInv s'"
      using inv(2) added by (simp add: doneInv_def)
    moreover have "seqInv s'" if "d = Postgres"
    proof -
      have "seqInv (s\<lparr>jobs_seq := jobs_seq s + 1\<rparr>)"
        using inv(3) that by (auto intro: seqInv_mono)
      moreover have "jid j = jobs_seq s + 1"
        using added(7) assms(3) that by (simp add: nextKey_def)
      ultimately show ?thesis
        using inv(3) that added by (auto simp: seqInv_def)
    qed
    ultimately show ?thesis
      by (simp add: runInv_def added)
  qed
qed

lemma removeJob_runInv:
  assumes "runInv d s" "fetchJob n s = Some row" "s1 = removeJob n (s\<lparr>job_dead := dd\<rparr>)"
    "set dd \<subseteq> insert \<lparr>xjob = row, xreason = fr, xerror = em\<rparr> (set (job_dead s))"
  shows "runInv d s1 \<and> runInv d (insertJobDone (jns row) (jkey row) st s1)"
proof -
  have row: "row \<in> set (jobs s)" "jid row = n"
    using fetchJob_Some [OF assms(2)] .
  have inv: "dedupInv s1" "doneInv s1"
    using assms(1) dedupInv_removeJob [of "s\<lparr>job_dead := dd\<rparr>" n] by (auto simp: runInv_def assms(3) doneInv_def removeJob_def)
  have seq: "seqInv s1" if "seqInv s"
    using that assms(4) row by (auto simp: assms(3) removeJob_def seqInv_def)
  have "doneInv (insertJobDone (jns row) (jkey row) st s1)"
  proof -
    have "(jns j, jkey j) \<noteq> (jns row, jkey row)" if "j \<in> set (jobs s1)" for j
    proof
      assume "(jns j, jkey j) = (jns row, jkey row)"
      moreover have "j \<in> set (jobs s)" "jid j \<noteq> n"
        using that by (auto simp: assms(3) removeJob_def)
      ultimately have "j = row"
        using assms(1) row(1) by (auto simp: runInv_def dedupInv_def distinct_map dest: inj_onD)
      with row(2) \<open>jid j \<noteq> n\<close> show False by simp
    qed
    then show ?thesis
      using inv(2) by (auto simp: doneInv_def insertJobDone_def)
  qed
  moreover have "seqInv (insertJobDone (jns row) (jkey row) st s1) = seqInv s1"
    by (simp add: seqInv_def insertJobDone_def)
  ultimately show ?thesis
    using inv seq assms(1) by (auto simp: runInv_def)
qed

lemma insertJobDone_le: "job_done s \<subseteq>\<^sub>m job_done (insertJobDone n k st s)"
  by (auto simp: insertJobDone_def map_le_def)

lemma removed_runInv:
  assumes "runInv d s" "fetchJob n s = Some row"
  shows "runInv d (removeJob n s)" "runInv d (insertJobDone (jns row) (jkey row) st (removeJob n s))"
  using removeJob_runInv [OF assms, of "removeJob n s" "job_dead s"] by (simp_all add: subset_insertI)

lemma dDelete_runInv:
  assumes "runInv d s" "dDelete q ok i s = (res, s')"
  shows "runInv d s' \<and> job_done s \<subseteq>\<^sub>m job_done s'"
proof (cases res)
  case (Inr u)
  then obtain n where "fetchJob n s = None \<and> s' = s \<or> (\<exists>row. fetchJob n s = Some row \<and>
      s' = (if dedupeEnabled q then insertJobDone (jns row) (jkey row) jobDoneStatusSuccess (removeJob n s) else removeJob n s))"
    using assms(2) dDeleteTx_Inr [of q i jobDoneStatusSuccess s s'] by (auto simp: dDelete_def dest!: InTx_Inr)
  moreover have "job_done (removeJob n s) = job_done s"
    by (simp add: removeJob_def)
  ultimately show ?thesis
    using assms(1) removed_runInv [OF assms(1), of n] insertJobDone_le [of "removeJob n s"]
    by (elim disjE exE conjE) (simp_all split: if_splits)
qed (use assms InTx_Inl [of ok "dDeleteTx q i jobDoneStatusSuccess" s] in \<open>auto simp: dDelete_def\<close>)

lemma dMove_runInv:
  assumes "runInv d s" "dMoveToDeadLetter q ok now i jn fr em s = (res, s')"
  shows "runInv d s' \<and> job_done s \<subseteq>\<^sub>m job_done s'"
proof (cases res)
  case (Inr u)
  then obtain n where n: "fetchJob n s = None \<and> s' = s \<or> (\<exists>row s1. fetchJob n s = Some row \<and>
      s1 = removeJob n (s\<lparr>job_dead := job_dead s @ [\<lparr>xjob = row, xreason = fr, xerror = em\<rparr>]\<rparr>) \<and>
      s' = (if dedupeEnabled q \<and> blockRepeatsOnDLQ q then insertJobDone (jns row) (jkey row) jobDoneStatusDeadLetter s1 else s1))"
    using assms(2) dMoveTx_Inr [of q i fr em s s'] by (auto simp: dMoveToDeadLetter_def dest!: InTx_Inr)
  then show ?thesis
  proof (elim disjE exE conjE)
    fix row s1
    assume row: "fetchJob n s = Some row"
      and s1: "s1 = removeJob n (s\<lparr>job_dead := job_dead s @ [\<lparr>xjob = row, xreason = fr, xerror = em\<rparr>]\<rparr>)"
      and s': "s' = (if dedupeEnabled q \<and> blockRepeatsOnDLQ q then insertJobDone (jns row) (jkey row) jobDoneStatusDeadLetter s1 else s1)"
    have "job_done s1 = job_done s"
      by (simp add: s1 removeJob_def)
    then show ?thesis
      using removeJob_runInv [OF assms(1) row s1, of fr em jobDoneStatusDeadLetter] insertJobDone_le [of s1] s' by auto
  qed (use assms(1) in simp)
qed (use assms InTx_Inl [of ok "dMoveTx q i fr em" s] in \<open>auto simp: dMoveToDeadLetter_def\<close>)

lemma jobs_map_runInv:
  assumes "runInv d s" "\<And>j. jid (g j) = jid j" "\<And>j. jns (g j) = jns j" "\<And>j. jkey (g j) = jkey j"
  shows "runInv d (s\<lparr>jobs := map g (jobs s)\<rparr>)"
  using assms dedupInv_map [of g s] by (auto simp: runInv_def doneInv_def seqInv_def)

lemma dReceive_runInv:
  assumes "runInv d s" "dReceive q ok now s = (res, s')"
  shows "runInv d s' \<and> job_done s' = job_done s"
proof -
  define g where "g r j = (if jid j = jid r then j\<lparr>jattempts := jattempts j + 1, javail := now + dtimeout q\<rparr> else j)"
    for r j :: dJobRow
  have "s' = s \<or> (\<exists>r. s' = s\<lparr>jobs := map (g r) (jobs s)\<rparr>)"
    using assms(2)
    by (cases "firstBy (\<lambda>j. (jcreated j, jid j)) (filter (dReceivable q now s) (jobs s))")
      (simp_all add: dReceive_def InTx_def dReceiveTx_def g_def [abs_def] split: if_splits, blast)
  moreover have "runInv d (s\<lparr>jobs := map (g r) (jobs s)\<rparr>)" for r
    by (rule jobs_map_runInv [OF assms(1)]) (simp_all add: g_def)
  ultimately show ?thesis
    using assms(1) by auto
qed

lemma dExtend_runInv:
  assumes "runInv d s" "dExtend ok now i delay s = (res, s')"
  shows "runInv d s' \<and> job_done s' = job_done s"
proof (cases "s' = s")
  case False
  then obtain n where "s' = s\<lparr>jobs := map (\<lambda>j. if jid j = n then j\<lparr>javail := now + delay\<rparr> else j) (jobs s)\<rparr>"
    using assms(2) by (auto simp: dExtend_def InTx_def dExtendTx_def split: if_splits sum.splits prod.splits)
  then show ?thesis
    using jobs_map_runInv [OF assms(1)] by simp
qed (use assms in simp)

lemma dStep_runInv: "dStep d unm s s' \<Longrightarrow> runInv d s \<Longrightarrow> runInv d s' \<and> job_done s \<subseteq>\<^sub>m job_done s'"
proof (induction rule: dStep.induct)
  case (send q s ok now m res s')
  from dSend_runInv [OF send(5,1,2,3,4)] show ?case by simp
next
  case (receive q ok now s res s')
  from dReceive_runInv [OF receive(2,1)] show ?case by simp
next
  case (extend ok now i delay s res s')
  from dExtend_runInv [OF extend(2,1)] show ?case by simp
next
  case (delete q ok i s res s')
  from dDelete_runInv [OF delete(3,2)] show ?case .
next
  case (move q ok now i jn fr em s res s')
  from dMove_runInv [OF move(3,2)] show ?case .
qed

lemma dSteps_runInv: "(dStep d unm)\<^sup>*\<^sup>* s s' \<Longrightarrow> runInv d s \<Longrightarrow> runInv d s' \<and> job_done s \<subseteq>\<^sub>m job_done s'"
  by (induction rule: rtranclp_induct) (auto dest: dStep_runInv intro: map_le_trans)

section \<open>Properties\<close>


definition emptyDedup :: dedupDB where
  "emptyDedup = \<lparr>queues = Map.empty, job_ns = [], ns_seq = 0, jobs = [], jobs_seq = 0, job_done = Map.empty, job_dead = []\<rparr>"

definition sampleDedup :: "Dialect \<Rightarrow> DedupQueue" where
  "sampleDedup d = \<lparr>dname = ''q'', dmaxReceive = 3, dtimeout = 5, dedupeEnabled = True, blockRepeatsOnDLQ = True,
     hash_of = id, dialect_of = d\<rparr>"

definition sampleMsg :: "string \<Rightarrow> Message" where
  "sampleMsg b = \<lparr>ID = [], Delay = 0, Received = 0, Body = b\<rparr>"

lemma emptyDedup_runInv: "runInv d emptyDedup"
  by (simp add: runInv_def dedupInv_def doneInv_def seqInv_def emptyDedup_def)

text \<open>Sending a first message on a SQLite database, then completing it, or dead-lettering it and sending a second one.\<close>

definition afterSend :: dedupDB where
  "afterSend = snd (dSend (sampleDedup SQLite) (\<lambda>b. Some (''task'', b)) True 1 (sampleMsg ''A'') emptyDedup)"

definition afterDone :: dedupDB where
  "afterDone = snd (dDelete (sampleDedup SQLite) True ''1'' afterSend)"

definition afterDead :: dedupDB where
  "afterDead = snd (dMoveToDeadLetter (sampleDedup SQLite) True 2 ''1'' ''task'' ''max_retries'' ''boom'' afterSend)"

definition afterResend :: dedupDB where
  "afterResend = snd (dSend (sampleDedup SQLite) (\<lambda>b. Some (''task'', b)) True 3 (sampleMsg ''B'') afterDead)"





end
