(* ===== verification/Job_Worker.thy ===== *)
theory Job_Worker
  imports Dedup_Queue
begin

text \<open>
  The worker that consumes a queue, \<open>lib/jobqueue/worker/worker.go\<close> and \<open>errors.go\<close>.

  The worker sees its queue through \<open>queue.Interface\<close>, here the record \<open>queueIface\<close> of the operations it calls;
  the SQL queue and the deduplicating queue are two values of it. A job function and a failure callback act on
  the application's state \<open>'w\<close>. Every goroutine of \<open>runJob\<close> is an element of \<open>running\<close>: it is added when a
  message has been received and decoded, and removed when the job has returned or panicked, so that any number
  of polls, extensions and completions of other jobs can come between. The outcome of the database and the
  clock are arguments; logging, tracing and metrics are left out.
\<close>

section \<open>Errors of jobs\<close>

text \<open>An error of a job: a plain one, one that wraps another with a text in front, or a permanent one.\<close>

datatype goError =
    GoError string
  | Wrapped string goError
  | PermanentError goError

definition Permanent :: "goError option \<Rightarrow> goError option" where
  "Permanent err = map_option PermanentError err"

fun errorText :: "goError \<Rightarrow> string" where
  "errorText (GoError t) = t"
| "errorText (Wrapped t e) = t @ errorText e"
| "errorText (PermanentError e) = errorText e"

text \<open>\<open>errors.As\<close> with a \<open>*PermanentError\<close> target: some error of the chain is permanent.\<close>

fun asPermanent :: "goError \<Rightarrow> bool" where
  "asPermanent (GoError t) \<longleftrightarrow> False"
| "asPermanent (Wrapped t e) \<longleftrightarrow> asPermanent e"
| "asPermanent (PermanentError e) \<longleftrightarrow> True"

section \<open>The worker's data\<close>

record 's queueIface =
  qMaxReceive :: nat
  qSend :: "bool \<Rightarrow> int \<Rightarrow> string \<Rightarrow> Message \<Rightarrow> 's \<Rightarrow> (qErr + string) \<times> 's"
  qReceive :: "bool \<Rightarrow> int \<Rightarrow> 's \<Rightarrow> (qErr + Message option) \<times> 's"
  qDelete :: "bool \<Rightarrow> string \<Rightarrow> 's \<Rightarrow> (qErr + unit) \<times> 's"
  qMove :: "bool \<Rightarrow> int \<Rightarrow> string \<Rightarrow> string \<Rightarrow> string \<Rightarrow> string \<Rightarrow> 's \<Rightarrow> (qErr + unit) \<times> 's"
  qExtend :: "bool \<Rightarrow> int \<Rightarrow> string \<Rightarrow> int \<Rightarrow> 's \<Rightarrow> (qErr + unit) \<times> 's"

definition sqlIface :: "Queue \<Rightarrow> queueDB queueIface" where
  "sqlIface q = \<lparr>qMaxReceive = maxReceive q, qSend = Send q, qReceive = Receive q, qDelete = Delete q,
     qMove = MoveToDeadLetter q, qExtend = Extend q\<rparr>"

text \<open>The deduplicating queue generates its identifiers itself.\<close>

definition dedupIface :: "DedupQueue \<Rightarrow> (string \<Rightarrow> (string \<times> string) option) \<Rightarrow> dedupDB queueIface" where
  "dedupIface q unm = \<lparr>qMaxReceive = dmaxReceive q, qSend = (\<lambda>ok now _. dSend q unm ok now), qReceive = dReceive q,
     qDelete = dDelete q, qMove = dMoveToDeadLetter q, qExtend = dExtend\<rparr>"

datatype fnOutcome = FnOK | FnErr goError | FnPanic

record ('t, 'w) jobRegistration =
  fn :: "'t \<Rightarrow> 'w \<Rightarrow> fnOutcome \<times> 'w"
  onFailure :: "('t \<Rightarrow> goError \<Rightarrow> 'w \<Rightarrow> fnOutcome \<times> 'w) option"

text \<open>A goroutine of \<open>runJob\<close>, with the arguments it was started with.\<close>

record ('t, 'w) runningJob =
  rmsg :: Message
  rname :: string
  rinput :: 't
  rreg :: "('t, 'w) jobRegistration"

record ('s, 't, 'w) Worker =
  jobRegs :: "string \<rightharpoonup> ('t, 'w) jobRegistration"
  jobCount :: int
  jobCountLimit :: int
  extendBy :: int
  running :: "('t, 'w) runningJob list"
  queueState :: 's
  world :: 'w
  crashed :: bool

text \<open>The serializer and the JSON coding of the envelope.\<close>

record 't codec =
  encodeEnv :: "string \<times> string \<Rightarrow> string option"
  decodeEnv :: "string \<Rightarrow> (string \<times> string) option"
  Serialize :: "'t \<Rightarrow> string option"
  Deserialize :: "string \<Rightarrow> 't option"

datatype workerErr = AlreadyRegistered string | SerializerError | EncodeError | QueueFailed qErr

section \<open>Operations\<close>

definition NewWorker :: "int \<Rightarrow> int \<Rightarrow> 's \<Rightarrow> 'w \<Rightarrow> ('s, 't, 'w) Worker" where
  "NewWorker limit ext s w = \<lparr>jobRegs = Map.empty, jobCount = 0, jobCountLimit = limit, extendBy = ext, running = [],
     queueState = s, world = w, crashed = False\<rparr>"

definition Register :: "string \<Rightarrow> ('t, 'w) jobRegistration \<Rightarrow> ('s, 't, 'w) Worker \<Rightarrow> (workerErr + unit) \<times> ('s, 't, 'w) Worker" where
  "Register nm reg w =
     (if jobRegs w nm \<noteq> None then (Inl (AlreadyRegistered nm), w)
      else (Inr (), w\<lparr>jobRegs := (jobRegs w)(nm \<mapsto> reg)\<rparr>))"

definition Enqueue :: "'s queueIface \<Rightarrow> 't codec \<Rightarrow> bool \<Rightarrow> int \<Rightarrow> string \<Rightarrow> string \<Rightarrow> 't \<Rightarrow> ('s, 't, 'w) Worker
    \<Rightarrow> (workerErr + string) \<times> ('s, 't, 'w) Worker" where
  "Enqueue I C dbok now newID nm msg w =
     (case Serialize C msg of
       None \<Rightarrow> (Inl SerializerError, w)
     | Some m \<Rightarrow> (case encodeEnv C (nm, m) of
         None \<Rightarrow> (Inl EncodeError, w)
       | Some body \<Rightarrow>
           (case qSend I dbok now newID \<lparr>ID = '''', Delay = 0, Received = 0, Body = body\<rparr> (queueState w) of
             (Inl e, s') \<Rightarrow> (Inl (QueueFailed e), w\<lparr>queueState := s'\<rparr>)
           | (Inr i, s') \<Rightarrow> (Inr i, w\<lparr>queueState := s'\<rparr>))))"

definition decodeMessage :: "'t codec \<Rightarrow> string \<Rightarrow> (string \<times> 't) option" where
  "decodeMessage C body =
     (case decodeEnv C body of
       None \<Rightarrow> None
     | Some (nm, m) \<Rightarrow> map_option (\<lambda>inp. (nm, inp)) (Deserialize C m))"

text \<open>
  One round of the poll loop. The panic on a job that is not registered is not recovered: it ends the process.
\<close>

definition receiveAndRun :: "'s queueIface \<Rightarrow> 't codec \<Rightarrow> waitEvent list \<Rightarrow> ('s, 't, 'w) Worker \<Rightarrow> ('s, 't, 'w) Worker" where
  "receiveAndRun I C evs w =
     (if jobCount w = jobCountLimit w then w
      else (case ReceiveAndWait (qReceive I) evs (queueState w) of
        (Some (Inr m), s') \<Rightarrow>
          (let w' = w\<lparr>queueState := s'\<rparr>
           in case decodeMessage C (Body m) of
             None \<Rightarrow> w'
           | Some (nm, inp) \<Rightarrow> (case jobRegs w nm of
               None \<Rightarrow> w'\<lparr>crashed := True\<rparr>
             | Some reg \<Rightarrow> w'\<lparr>jobCount := jobCount w + 1,
                 running := running w @ [\<lparr>rmsg = m, rname = nm, rinput = inp, rreg = reg\<rparr>]\<rparr>))
      | (_, s') \<Rightarrow> w\<lparr>queueState := s'\<rparr>))"

definition deleteMessage :: "'s queueIface \<Rightarrow> bool \<Rightarrow> string \<Rightarrow> ('s, 't, 'w) Worker \<Rightarrow> ('s, 't, 'w) Worker" where
  "deleteMessage I dbok i w = w\<lparr>queueState := snd (qDelete I dbok i (queueState w))\<rparr>"

definition moveToDeadLetter :: "'s queueIface \<Rightarrow> bool \<Rightarrow> int \<Rightarrow> string \<Rightarrow> string \<Rightarrow> string \<Rightarrow> goError \<Rightarrow> ('s, 't, 'w) Worker
    \<Rightarrow> ('s, 't, 'w) Worker" where
  "moveToDeadLetter I dbok now i nm reason err w =
     w\<lparr>queueState := snd (qMove I dbok now i nm reason (errorText err) (queueState w))\<rparr>"

text \<open>The callback runs first; an error of it is logged, a panic of it skips the move and is recovered in \<open>runJob\<close>.\<close>

definition giveUp :: "'s queueIface \<Rightarrow> bool \<Rightarrow> int \<Rightarrow> string \<Rightarrow> ('t, 'w) runningJob \<Rightarrow> goError \<Rightarrow> ('s, 't, 'w) Worker
    \<Rightarrow> ('s, 't, 'w) Worker" where
  "giveUp I dbok now reason r err w =
     (case onFailure (rreg r) of
       None \<Rightarrow> moveToDeadLetter I dbok now (ID (rmsg r)) (rname r) reason err w
     | Some cb \<Rightarrow> (case cb (rinput r) err (world w) of
         (FnPanic, wd) \<Rightarrow> w\<lparr>world := wd\<rparr>
       | (_, wd) \<Rightarrow> moveToDeadLetter I dbok now (ID (rmsg r)) (rname r) reason err (w\<lparr>world := wd\<rparr>)))"

definition handleJobError :: "'s queueIface \<Rightarrow> bool \<Rightarrow> int \<Rightarrow> ('t, 'w) runningJob \<Rightarrow> goError \<Rightarrow> ('s, 't, 'w) Worker
    \<Rightarrow> ('s, 't, 'w) Worker" where
  "handleJobError I dbok now r err w =
     (if asPermanent err then giveUp I dbok now ''permanent_error'' r err w
      else if Received (rmsg r) = qMaxReceive I then giveUp I dbok now ''max_retries'' r err w
      else w)"

text \<open>\<open>runJob\<close> of the \<open>n\<close>-th goroutine, from the call of the job to its end.\<close>

definition runJob :: "'s queueIface \<Rightarrow> bool \<Rightarrow> int \<Rightarrow> nat \<Rightarrow> ('s, 't, 'w) Worker \<Rightarrow> ('s, 't, 'w) Worker" where
  "runJob I dbok now n w =
     (let r = running w ! n;
          (out, wd) = fn (rreg r) (rinput r) (world w);
          w1 = w\<lparr>world := wd\<rparr>;
          w2 = (case out of
                 FnPanic \<Rightarrow> w1
               | FnErr err \<Rightarrow> handleJobError I dbok now r err w1
               | FnOK \<Rightarrow> deleteMessage I dbok (ID (rmsg r)) w1)
      in w2\<lparr>jobCount := jobCount w2 - 1, running := take n (running w2) @ drop (Suc n) (running w2)\<rparr>)"

text \<open>
  One round of the extension loop. A negative extension panics in a goroutine that does not recover.
\<close>

definition extendMessageTimeout :: "'s queueIface \<Rightarrow> bool \<Rightarrow> int \<Rightarrow> string \<Rightarrow> ('s, 't, 'w) Worker \<Rightarrow> ('s, 't, 'w) Worker" where
  "extendMessageTimeout I dbok now i w =
     (case qExtend I dbok now i (extendBy w) (queueState w) of
       (Inl PanicNegativeDelay, s') \<Rightarrow> w\<lparr>queueState := s', crashed := True\<rparr>
     | (_, s') \<Rightarrow> w\<lparr>queueState := s'\<rparr>)"

section \<open>Runs\<close>

text \<open>
  What a step of the worker does to the queue: the identifier that a poll delivers, that an enqueue creates, or
  that a finished job removes.
\<close>

datatype wEvent = Delivered string | Sent string | Finished string | Quiet

definition polled :: "'s queueIface \<Rightarrow> waitEvent list \<Rightarrow> ('s, 't, 'w) Worker \<Rightarrow> wEvent" where
  "polled I evs w =
     (if jobCount w = jobCountLimit w then Quiet
      else case fst (ReceiveAndWait (qReceive I) evs (queueState w)) of Some (Inr m) \<Rightarrow> Delivered (ID m) | _ \<Rightarrow> Quiet)"

inductive wStep :: "'s queueIface \<Rightarrow> 't codec \<Rightarrow> ('s \<Rightarrow> bool) \<Rightarrow> ('s, 't, 'w) Worker \<Rightarrow> wEvent \<Rightarrow> ('s, 't, 'w) Worker \<Rightarrow> bool"
  for I :: "'s queueIface" and C :: "'t codec" and room :: "'s \<Rightarrow> bool" where
  poll: "\<not> crashed w \<Longrightarrow> wStep I C room w (polled I evs w) (receiveAndRun I C evs w)"
| finish: "\<not> crashed w \<Longrightarrow> n < length (running w) \<Longrightarrow>
    wStep I C room w (Finished (ID (rmsg (running w ! n)))) (runJob I dbok now n w)"
| extend: "\<not> crashed w \<Longrightarrow> wStep I C room w Quiet (extendMessageTimeout I dbok now i w)"
| enqueue: "\<not> crashed w \<Longrightarrow> room (queueState w) \<Longrightarrow> Enqueue I C dbok now newID nm msg w = (Inr i, w') \<Longrightarrow> wStep I C room w (Sent i) w'"
| enqueue_failed: "\<not> crashed w \<Longrightarrow> room (queueState w) \<Longrightarrow> Enqueue I C dbok now newID nm msg w = (Inl e, w') \<Longrightarrow> wStep I C room w Quiet w'"

inductive wRun :: "'s queueIface \<Rightarrow> 't codec \<Rightarrow> ('s \<Rightarrow> bool) \<Rightarrow> ('s, 't, 'w) Worker \<Rightarrow> wEvent list \<Rightarrow> ('s, 't, 'w) Worker \<Rightarrow> bool"
  for I :: "'s queueIface" and C :: "'t codec" and room :: "'s \<Rightarrow> bool" where
  stop: "wRun I C room w [] w"
| step: "wStep I C room w e w1 \<Longrightarrow> wRun I C room w1 es w' \<Longrightarrow> wRun I C room w (e # es) w'"

inductive_cases wStepE: "wStep I C room w e w'"
inductive_cases wRunE: "wRun I C room w es w'"

section \<open>What a worker does to its queue\<close>

text \<open>The effect of a step on the receive counts of the live messages.\<close>

definition effect :: "(string \<Rightarrow> 'k option) \<Rightarrow> nat \<Rightarrow> wEvent \<Rightarrow> ('k \<rightharpoonup> nat) \<Rightarrow> ('k \<rightharpoonup> nat) \<Rightarrow> bool" where
  "effect ident limit e L L' \<longleftrightarrow> (case e of
     Delivered i \<Rightarrow> \<exists>k n. ident i = Some k \<and> L k = Some n \<and> n < limit \<and> L' = L(k \<mapsto> Suc n)
   | Sent i \<Rightarrow> L' = L \<or> (\<exists>k. ident i = Some k \<and> L k = None \<and> L' = L(k \<mapsto> 0))
   | Finished i \<Rightarrow> L' = L \<or> (\<exists>k. ident i = Some k \<and> L' = L(k := None))
   | Quiet \<Rightarrow> L' = L)"

text \<open>The jobs of a message: those running, and the events that deliver or finish it.\<close>

definition about :: "(string \<Rightarrow> 'k option) \<Rightarrow> 'k \<Rightarrow> ('t, 'w) runningJob list \<Rightarrow> nat" where
  "about ident k rs = length (filter (\<lambda>r. ident (ID (rmsg r)) = Some k) rs)"

definition deliveries :: "(string \<Rightarrow> 'k option) \<Rightarrow> 'k \<Rightarrow> wEvent list \<Rightarrow> nat" where
  "deliveries ident k es = length (filter (\<lambda>e. case e of Delivered i \<Rightarrow> ident i = Some k | _ \<Rightarrow> False) es)"

definition executions :: "(string \<Rightarrow> 'k option) \<Rightarrow> 'k \<Rightarrow> wEvent list \<Rightarrow> nat" where
  "executions ident k es = length (filter (\<lambda>e. case e of Finished i \<Rightarrow> ident i = Some k | _ \<Rightarrow> False) es)"

lemma about_append [simp]: "about ident k (rs @ rs') = about ident k rs + about ident k rs'"
  by (simp add: about_def)

lemma about_remove:
  "n < length rs \<Longrightarrow>
     about ident k (take n rs @ drop (Suc n) rs) + (if ident (ID (rmsg (rs ! n))) = Some k then 1 else 0) = about ident k rs"
  by (subst (4) id_take_nth_drop [of n rs]) (simp_all add: about_def)

lemma about_one [simp]: "about ident k [r] = (if ident (ID (rmsg r)) = Some k then 1 else 0)"
  by (simp add: about_def)

subsection \<open>The parts of the worker outside its queue\<close>

lemma moveToDeadLetter_sel [simp]:
  "running (moveToDeadLetter I ok now i nm re err w) = running w" "jobCount (moveToDeadLetter I ok now i nm re err w) = jobCount w"
  "jobCountLimit (moveToDeadLetter I ok now i nm re err w) = jobCountLimit w" "jobRegs (moveToDeadLetter I ok now i nm re err w) = jobRegs w"
  "queueState (moveToDeadLetter I ok now i nm re err w) = snd (qMove I ok now i nm re (errorText err) (queueState w))"
  by (simp_all add: moveToDeadLetter_def)

lemma deleteMessage_sel [simp]:
  "running (deleteMessage I ok i w) = running w" "jobCount (deleteMessage I ok i w) = jobCount w"
  "jobCountLimit (deleteMessage I ok i w) = jobCountLimit w" "jobRegs (deleteMessage I ok i w) = jobRegs w"
  "queueState (deleteMessage I ok i w) = snd (qDelete I ok i (queueState w))"
  by (simp_all add: deleteMessage_def)

lemma handleJobError_sel [simp]:
  "running (handleJobError I ok now r err w) = running w" "jobCount (handleJobError I ok now r err w) = jobCount w"
  "jobCountLimit (handleJobError I ok now r err w) = jobCountLimit w" "jobRegs (handleJobError I ok now r err w) = jobRegs w"
  by (simp_all add: handleJobError_def giveUp_def split: option.split prod.split fnOutcome.split)

text \<open>Handling an error either leaves the queue alone or moves the message, and that only when it is given up.\<close>

lemma handleJobError_queue:
  "queueState (handleJobError I ok now r err w) = queueState w \<or>
   (asPermanent err \<or> Received (rmsg r) = qMaxReceive I) \<and>
   (\<exists>reason. queueState (handleJobError I ok now r err w) =
      snd (qMove I ok now (ID (rmsg r)) (rname r) reason (errorText err) (queueState w)))"
  by (auto simp: handleJobError_def giveUp_def split: option.splits prod.splits fnOutcome.splits)

lemma runJob_sel [simp]:
  "running (runJob I ok now n w) = take n (running w) @ drop (Suc n) (running w)"
  "jobCount (runJob I ok now n w) = jobCount w - 1" "jobCountLimit (runJob I ok now n w) = jobCountLimit w"
  "jobRegs (runJob I ok now n w) = jobRegs w"
  by (simp_all add: runJob_def Let_def split: prod.split fnOutcome.split)

text \<open>The three ways a run of a job ends for its message.\<close>

lemma runJob_queue:
  assumes "fst (fn (rreg r) (rinput r) (world w)) = out" "r = running w ! n" "i = ID (rmsg r)"
  obtains (kept) "queueState (runJob I ok now n w) = queueState w" "out \<noteq> FnOK"
  | (deleted) "out = FnOK" "queueState (runJob I ok now n w) = snd (qDelete I ok i (queueState w))"
  | (moved) err reason where "out = FnErr err" "asPermanent err \<or> Received (rmsg r) = qMaxReceive I"
      "queueState (runJob I ok now n w) = snd (qMove I ok now i (rname r) reason (errorText err) (queueState w))"
proof (cases out)
  case FnOK
  then show thesis
    using assms by (intro deleted) (auto simp: runJob_def Let_def split: prod.split)
next
  case FnPanic
  then show thesis
    using assms by (intro kept) (auto simp: runJob_def Let_def split: prod.split)
next
  case (FnErr err)
  then have q: "queueState (runJob I ok now n w) =
      queueState (handleJobError I ok now r err (w\<lparr>world := snd (fn (rreg r) (rinput r) (world w))\<rparr>))"
    using assms by (auto simp: runJob_def Let_def split: prod.split)
  show thesis
  proof (cases "queueState (runJob I ok now n w) = queueState w")
    case False
    then obtain reason where "asPermanent err \<or> Received (rmsg r) = qMaxReceive I"
      "queueState (runJob I ok now n w) = snd (qMove I ok now i (rname r) reason (errorText err) (queueState w))"
      using handleJobError_queue [of I ok now r err "w\<lparr>world := snd (fn (rreg r) (rinput r) (world w))\<rparr>"] q assms(3)
      by auto
    with FnErr show thesis
      by (rule moved)
  qed (use FnErr kept in simp)
qed

lemma extendMessageTimeout_sel [simp]:
  "running (extendMessageTimeout I ok now i w) = running w" "jobCount (extendMessageTimeout I ok now i w) = jobCount w"
  "jobCountLimit (extendMessageTimeout I ok now i w) = jobCountLimit w" "jobRegs (extendMessageTimeout I ok now i w) = jobRegs w"
  "queueState (extendMessageTimeout I ok now i w) = snd (qExtend I ok now i (extendBy w) (queueState w))"
  by (simp_all add: extendMessageTimeout_def split: prod.split sum.split qErr.split)

lemma Enqueue_sel:
  assumes "Enqueue I C ok now newID nm msg w = (res, w')"
  shows "running w' = running w" "jobCount w' = jobCount w" "jobCountLimit w' = jobCountLimit w" "jobRegs w' = jobRegs w"
    "queueState w' = queueState w \<and> (\<exists>e. res = Inl e) \<or>
     (\<exists>m. qSend I ok now newID m (queueState w) = (case res of Inr i \<Rightarrow> Inr i | Inl (QueueFailed e) \<Rightarrow> Inl e, queueState w'))"
  using assms by (auto simp: Enqueue_def split: option.splits prod.splits sum.splits)

text \<open>A poll, by what it received.\<close>

lemma poll_cases:
  obtains (idle) "receiveAndRun I C evs w = w" "polled I evs w = Quiet"
  | (unreceived) res s' where "ReceiveAndWait (qReceive I) evs (queueState w) = (res, s')" "\<forall>m. res \<noteq> Some (Inr m)"
      "receiveAndRun I C evs w = w\<lparr>queueState := s'\<rparr>" "polled I evs w = Quiet"
  | (dropped) m s' where "ReceiveAndWait (qReceive I) evs (queueState w) = (Some (Inr m), s')" "polled I evs w = Delivered (ID m)"
      "queueState (receiveAndRun I C evs w) = s'" "running (receiveAndRun I C evs w) = running w"
      "jobCount (receiveAndRun I C evs w) = jobCount w" "jobCountLimit (receiveAndRun I C evs w) = jobCountLimit w"
      "jobRegs (receiveAndRun I C evs w) = jobRegs w"
  | (started) m s' r where "ReceiveAndWait (qReceive I) evs (queueState w) = (Some (Inr m), s')" "polled I evs w = Delivered (ID m)"
      "jobCount w \<noteq> jobCountLimit w" "rmsg r = m" "jobRegs w (rname r) = Some (rreg r)"
      "receiveAndRun I C evs w = w\<lparr>queueState := s', jobCount := jobCount w + 1, running := running w @ [r]\<rparr>"
proof (cases "jobCount w = jobCountLimit w")
  case True
  then show thesis
    by (intro idle) (simp_all add: receiveAndRun_def polled_def)
next
  case free: False
  obtain res s' where rw: "ReceiveAndWait (qReceive I) evs (queueState w) = (res, s')"
    by fastforce
  show thesis
  proof (cases "\<exists>m. res = Some (Inr m)")
    case False
    show thesis
      by (rule unreceived [OF rw]) (use False free rw in \<open>auto simp: receiveAndRun_def polled_def split: option.splits sum.splits\<close>)
  next
    case True
    then obtain m where m: "res = Some (Inr m)" ..
    show thesis
    proof (cases "\<exists>nm inp reg. decodeMessage C (Body m) = Some (nm, inp) \<and> jobRegs w nm = Some reg")
      case True
      then obtain nm inp reg where "decodeMessage C (Body m) = Some (nm, inp)" "jobRegs w nm = Some reg"
        by blast
      with free rw m show thesis
        by (intro started [of m s' "\<lparr>rmsg = m, rname = nm, rinput = inp, rreg = reg\<rparr>"]) (simp_all add: receiveAndRun_def polled_def)
    next
      case False
      with free rw m show thesis
        by (intro dropped [of m s']) (auto simp: receiveAndRun_def polled_def Let_def split: option.split)
    qed
  qed
qed

section \<open>The worker over any queue that keeps the contract\<close>

text \<open>
  The contract of the queue, extended by sending: a send adds at most one message, under an identifier that is
  not live.
\<close>

locale worker_queue = job_queue inv live ident "qMaxReceive I" "qReceive I" "qDelete I" "qMove I" "qExtend I"
  for inv :: "'s \<Rightarrow> bool" and live :: "'s \<Rightarrow> 'k \<rightharpoonup> nat" and ident :: "string \<Rightarrow> 'k option" and I :: "'s queueIface" +
  fixes room :: "'s \<Rightarrow> bool"
  assumes send_Inr: "inv s \<Longrightarrow> room s \<Longrightarrow> qSend I ok now newID m s = (Inr i, s') \<Longrightarrow>
      inv s' \<and> (live s' = live s \<or> (\<exists>k. ident i = Some k \<and> live s k = None \<and> live s' = (live s)(k \<mapsto> 0)))"
    and send_Inl: "qSend I ok now newID m s = (Inl e, s') \<Longrightarrow> s' = s"
begin

lemma ReceiveAndWait_contract:
  assumes "inv s" "ReceiveAndWait (qReceive I) evs s = (res, s')"
  shows "inv s' \<and> (case res of
      Some (Inr m) \<Rightarrow> \<exists>k n. ident (ID m) = Some k \<and> live s k = Some n \<and> n < qMaxReceive I \<and> Received m = Suc n \<and>
        live s' = (live s)(k \<mapsto> Suc n)
    | _ \<Rightarrow> s' = s)"
  using assms
proof (induction evs)
  case (Cons e evs)
  show ?case
  proof (cases e)
    case (Tick now ok)
    obtain r t where r: "qReceive I ok now s = (r, t)"
      by fastforce
    show ?thesis
    proof (cases r)
      case (Inl err)
      with Cons.prems Tick r recv_Inl [of ok now s err t] show ?thesis by auto
    next
      case (Inr mo)
      then show ?thesis
        using Cons r Tick recv_None [of ok now s t] recv_Some [of s ok now "the mo" t] by (cases mo) auto
    qed
  qed (use Cons.prems in auto)
qed auto

lemma del_effect:
  assumes "inv s"
  shows "inv (snd (qDelete I ok i s)) \<and> (live (snd (qDelete I ok i s)) = live s \<or>
     (\<exists>k. ident i = Some k \<and> live (snd (qDelete I ok i s)) = (live s)(k := None)))"
proof -
  obtain r t where r: "qDelete I ok i s = (r, t)"
    by fastforce
  then show ?thesis
    using assms del_Inr [of s ok i t] del_Inl [of ok i s _ t] by (cases r) (auto split: option.splits)
qed

lemma move_effect:
  assumes "inv s"
  shows "inv (snd (qMove I ok now i jn fr em s)) \<and> (live (snd (qMove I ok now i jn fr em s)) = live s \<or>
     (\<exists>k. ident i = Some k \<and> live (snd (qMove I ok now i jn fr em s)) = (live s)(k := None)))"
proof -
  obtain r t where r: "qMove I ok now i jn fr em s = (r, t)"
    by fastforce
  then show ?thesis
    using assms move_Inr [of s ok now i jn fr em t] move_Inl [of ok now i jn fr em s _ t]
    by (cases r) (auto split: option.splits)
qed

lemma ext_effect:
  assumes "inv s"
  shows "inv (snd (qExtend I ok now i d s)) \<and> live (snd (qExtend I ok now i d s)) = live s"
proof -
  obtain r t where r: "qExtend I ok now i d s = (r, t)"
    by fastforce
  then show ?thesis
    using assms ext_Inr [of s ok now i d t] ext_Inl [of ok now i d s _ t] by (cases r) auto
qed

lemma poll_effect:
  assumes "inv (queueState w)"
  shows "inv (queueState (receiveAndRun I C evs w)) \<and>
     effect ident (qMaxReceive I) (polled I evs w) (live (queueState w)) (live (queueState (receiveAndRun I C evs w)))"
proof (cases rule: poll_cases [of I C evs w])
  case (unreceived res s')
  with ReceiveAndWait_contract [OF assms unreceived(1)] assms show ?thesis
    by (auto simp: effect_def split: option.splits sum.splits)
next
  case (dropped m s')
  with ReceiveAndWait_contract [OF assms dropped(1)] show ?thesis
    by (auto simp: effect_def)
next
  case (started m s' r)
  with ReceiveAndWait_contract [OF assms started(1)] show ?thesis
    by (auto simp: effect_def)
qed (use assms in \<open>simp add: effect_def\<close>)

lemma finish_effect:
  assumes "inv (queueState w)"
  shows "inv (queueState (runJob I ok now n w)) \<and>
     effect ident (qMaxReceive I) (Finished (ID (rmsg (running w ! n)))) (live (queueState w)) (live (queueState (runJob I ok now n w)))"
proof (rule runJob_queue [OF refl refl refl, where w = w and n = n and I = I and ok = ok and now = now])
  assume "queueState (runJob I ok now n w) = queueState w"
  then show ?thesis
    using assms by (simp add: effect_def)
next
  assume "queueState (runJob I ok now n w) = snd (qDelete I ok (ID (rmsg (running w ! n))) (queueState w))"
  then show ?thesis
    using del_effect [OF assms] by (auto simp: effect_def)
next
  fix err reason
  assume "queueState (runJob I ok now n w) = snd (qMove I ok now (ID (rmsg (running w ! n))) (rname (running w ! n)) reason
    (errorText err) (queueState w))"
  then show ?thesis
    using move_effect [OF assms] by (auto simp: effect_def)
qed

lemma step_effect:
  assumes "wStep I C room w e w'" "inv (queueState w)"
  shows "inv (queueState w') \<and> effect ident (qMaxReceive I) e (live (queueState w)) (live (queueState w'))"
  using assms(1)
proof cases
  case (enqueue ok now newID nm msg i)
  from Enqueue_sel(5) [OF enqueue(4)] obtain m where "qSend I ok now newID m (queueState w) = (Inr i, queueState w')"
    by auto
  with send_Inr [OF assms(2) enqueue(3)] show ?thesis
    by (auto simp: enqueue(1) effect_def)
next
  case (enqueue_failed ok now newID nm msg err)
  from Enqueue_sel(5) [OF enqueue_failed(4)] have "queueState w' = queueState w"
  proof (elim disjE exE conjE)
    fix m
    assume m: "qSend I ok now newID m (queueState w) =
        (case (Inl err :: workerErr + string) of Inr i \<Rightarrow> Inr i | Inl (QueueFailed e) \<Rightarrow> Inl e, queueState w')"
    show ?thesis
    proof (cases "\<exists>e. err = QueueFailed e")
      case True
      with m send_Inl [of ok now newID m "queueState w"] show ?thesis
        by auto
    next
      case False
      with enqueue_failed(4) show ?thesis
        by (auto simp: Enqueue_def split: option.splits prod.splits sum.splits)
    qed
  qed simp
  with assms(2) show ?thesis
    by (simp add: enqueue_failed(1) effect_def)
next
  case (poll evs)
  with poll_effect [OF assms(2), of C evs] show ?thesis
    by simp
next
  case (finish n ok now)
  with finish_effect [OF assms(2), of ok now n] show ?thesis
    by simp
next
  case (extend ok now i)
  with ext_effect [OF assms(2), of ok now i "extendBy w"] show ?thesis
    by (simp add: effect_def)
qed

text \<open>Each delivery uses up one of the receives that a live message has left.\<close>

lemma deliveries_bounded:
  assumes "wRun I C room w es w'" "inv (queueState w)" "\<And>i. Sent i \<in> set es \<Longrightarrow> ident i \<noteq> Some k"
  shows "(case live (queueState w) k of None \<Rightarrow> deliveries ident k es = 0
          | Some n \<Rightarrow> n \<le> qMaxReceive I \<longrightarrow> n + deliveries ident k es \<le> qMaxReceive I)"
  using assms
proof (induction rule: wRun.induct)
  case (step w e w1 es w')
  note eff = step_effect [OF step.hyps(1) step.prems(1)]
  have IH: "case live (queueState w1) k of None \<Rightarrow> deliveries ident k es = 0
          | Some n \<Rightarrow> n \<le> qMaxReceive I \<longrightarrow> n + deliveries ident k es \<le> qMaxReceive I"
    using step.IH eff step.prems(2) by simp
  show ?case
  proof (cases e)
    case (Sent i)
    with step.prems(2) [of i] eff IH show ?thesis
      by (auto simp: effect_def deliveries_def split: option.splits if_splits)
  qed (use eff IH in \<open>auto simp: effect_def deliveries_def split: option.splits if_splits\<close>)
qed (auto simp: deliveries_def split: option.split)

text \<open>A job is executed once per delivery at most.\<close>

lemma executions_bounded:
  assumes "wRun I C room w es w'"
  shows "executions ident k es + about ident k (running w') \<le> about ident k (running w) + deliveries ident k es"
  using assms
proof (induction rule: wRun.induct)
  case (step w e w1 es w')
  have "(case e of Finished i \<Rightarrow> if ident i = Some k then 1 else 0 | _ \<Rightarrow> 0) + about ident k (running w1)
      \<le> about ident k (running w) + (case e of Delivered i \<Rightarrow> if ident i = Some k then 1 else 0 | _ \<Rightarrow> 0)"
    using step.hyps(1)
  proof cases
    case (poll evs)
    then show ?thesis
      by (cases rule: poll_cases [of I C evs w]) (auto split: wEvent.split)
  next
    case (finish n dbok now)
    with about_remove [of n "running w" ident k] show ?thesis
      by auto
  qed (auto simp: Enqueue_sel(1))
  with step.IH show ?case
    by (cases e) (auto simp: executions_def deliveries_def split: if_splits)
qed (simp add: executions_def deliveries_def)

end

section \<open>Both queues keep the contract\<close>

lemma sql_worker_contract: "worker_queue queueInv (liveCount q) Some (sqlIface q) (\<lambda>_. True)"
proof (rule worker_queue.intro)
  show "job_queue queueInv (liveCount q) Some (qMaxReceive (sqlIface q)) (qReceive (sqlIface q)) (qDelete (sqlIface q))
      (qMove (sqlIface q)) (qExtend (sqlIface q))"
    using sql_queue_contract [of q] by (simp add: sqlIface_def)
  show "worker_queue_axioms queueInv (liveCount q) Some (sqlIface q) (\<lambda>_. True)"
  proof (rule worker_queue_axioms.intro)
    fix s ok now newID m i s'
    assume "queueInv s" "qSend (sqlIface q) ok now newID m s = (Inr i, s')"
    then have *: "newID \<notin> id_of ` set (jobqueue s)" "i = newID" "s' = s\<lparr>jobqueue := jobqueue s @
        [\<lparr>id_of = newID, created = now, updated = now, queue_of = qname q, body_of = Body m,
          timeout_of = now + Delay m, received_of = 0\<rparr>]\<rparr>"
      by (auto simp: sqlIface_def Send_def sendAndGetIDTx_def dest!: InTx_Inr split: if_splits)
    have "find (isRow q newID) (jobqueue s) = None"
      using *(1) by (auto simp: find_None_iff isRow_def)
    then have "liveCount q s newID = None" "liveCount q s' = (liveCount q s)(newID \<mapsto> 0)"
      by (auto simp: *(3) liveCount_def fun_eq_iff find_snoc isRow_def split: option.split)
    with * \<open>queueInv s\<close>
    show "queueInv s' \<and> (liveCount q s' = liveCount q s \<or>
        (\<exists>k. Some i = Some k \<and> liveCount q s k = None \<and> liveCount q s' = (liveCount q s)(k \<mapsto> 0)))"
      by (simp add: queueInv_def)
  qed (auto simp: sqlIface_def Send_def dest: InTx_Inl)
qed

interpretation sqlw: worker_queue queueInv "liveCount q" Some "sqlIface q" "\<lambda>_. True" for q
  by (rule sql_worker_contract)

lemma dLive_added:
  assumes "jobs s' = jobs s @ [j]" "jid j \<notin> jid ` set (jobs s)"
  shows "dLive s (jid j) = None" "dLive s' = (dLive s)(jid j \<mapsto> jattempts j)"
proof -
  have f: "fetchJob n s' = (case fetchJob n s of None \<Rightarrow> if jid j = n then Some j else None | y \<Rightarrow> y)" for n
    by (simp add: fetchJob_def assms(1) find_snoc)
  have "fetchJob (jid j) s = None"
    using assms(2) by (fastforce simp: fetchJob_def find_None_iff image_iff)
  then show "dLive s (jid j) = None" "dLive s' = (dLive s)(jid j \<mapsto> jattempts j)"
    by (auto simp: dLive_def f fun_eq_iff split: option.split)
qed

lemma dSend_live:
  assumes "runInv d s" "dedupeEnabled q" "dialect_of q = d" "idRoom s" "dSend q unm ok now m s = (Inr i, s')"
  shows "dLive s' = dLive s \<or> (\<exists>k. atoi i = Some k \<and> dLive s k = None \<and> dLive s' = (dLive s)(k \<mapsto> 0))"
  using InTx_Inr [OF assms(5) [unfolded dSend_def]] assms(2)
proof (cases rule: dSendTx_cases)
  case (skipped s1)
  then have "jobs s' = jobs s"
    by auto
  then show ?thesis
    by (simp add: dLive_def fetchJob_def fun_eq_iff)
next
  case (added s1 j)
  have fresh: "jid j \<notin> jid ` set (jobs s)" "0 < jid j" "jid j < 2 ^ 63"
    using nextKey_fresh [OF assms(4), of d] assms(1,3) added(7) by (auto simp: runInv_def)
  have "jobs s' = jobs s @ [j]"
    by (simp add: added(1,2))
  from dLive_added [OF this fresh(1)] show ?thesis
    using fresh added(10,11) atoi_formatInt [of "jid j"] by auto
qed

lemma dedup_worker_contract:
  "worker_queue (\<lambda>s. runInv (dialect_of q) s \<and> dedupeEnabled q) dLive atoi (dedupIface q unm) idRoom"
proof (rule worker_queue.intro)
  show "job_queue (\<lambda>s. runInv (dialect_of q) s \<and> dedupeEnabled q) dLive atoi (qMaxReceive (dedupIface q unm))
      (qReceive (dedupIface q unm)) (qDelete (dedupIface q unm)) (qMove (dedupIface q unm)) (qExtend (dedupIface q unm))"
  proof (unfold_locales, goal_cases)
    case (1 s ok now m s')
    then show ?case
      using dedupq.recv_Some [of s q ok now m s'] dReceive_runInv [of "dialect_of q" s q ok now _ s']
      by (fastforce simp: dedupIface_def runInv_def)
  next
    case (4 s ok i s')
    then show ?case
      using dedupq.del_Inr [of s q ok i s'] dDelete_runInv [of "dialect_of q" s q ok i _ s'] by (auto simp: dedupIface_def runInv_def)
  next
    case (6 s ok now i jn fr em s')
    then show ?case
      using dedupq.move_Inr [of s q ok now i jn fr em s'] dMove_runInv [of "dialect_of q" s q ok now i jn fr em _ s']
      by (auto simp: dedupIface_def runInv_def)
  next
    case (8 s ok now i d s')
    then show ?case
      using dedupq.ext_Inr [of s ok now i d s'] dExtend_runInv [of "dialect_of q" s ok now i d _ s']
      by (auto simp: dedupIface_def runInv_def)
  qed (auto simp: dedupIface_def dest: dedupq.recv_None dedupq.recv_Inl dedupq.del_Inl dedupq.move_Inl dedupq.ext_Inl)
  show "worker_queue_axioms (\<lambda>s. runInv (dialect_of q) s \<and> dedupeEnabled q) dLive atoi (dedupIface q unm) idRoom"
  proof (rule worker_queue_axioms.intro)
    fix s ok now newID m i s'
    assume *: "runInv (dialect_of q) s \<and> dedupeEnabled q" "idRoom s" "qSend (dedupIface q unm) ok now newID m s = (Inr i, s')"
    then have "dSend q unm ok now m s = (Inr i, s')"
      by (simp add: dedupIface_def)
    from dSend_runInv [OF _ _ refl *(2) this] dSend_live [OF _ _ refl *(2) this] *(1)
    show "(runInv (dialect_of q) s' \<and> dedupeEnabled q) \<and>
        (dLive s' = dLive s \<or> (\<exists>k. atoi i = Some k \<and> dLive s k = None \<and> dLive s' = (dLive s)(k \<mapsto> 0)))"
      by blast
  qed (auto simp: dedupIface_def dSend_def dest: InTx_Inl)
qed

interpretation dedupw: worker_queue "\<lambda>s. runInv (dialect_of q) s \<and> dedupeEnabled q" dLive atoi "dedupIface q unm" idRoom for q unm
  by (rule dedup_worker_contract)

section \<open>Messages that leave the queue\<close>

text \<open>The row of a message in the SQL queue after a worker's step.\<close>

lemma sql_row_leaves:
  assumes "wStep (sqlIface q) C (\<lambda>_. True) w e w'" "queueInv (queueState w)"
    "liveCount q (queueState w) i \<noteq> None" "liveCount q (queueState w') i = None"
  obtains n ok now r where "n < length (running w)" "r = running w ! n" "ID (rmsg r) = i" "w' = runJob (sqlIface q) ok now n w"
proof -
  have eff: "effect Some (maxReceive q) e (liveCount q (queueState w)) (liveCount q (queueState w'))"
    using sqlw.step_effect [OF assms(1,2)] by (simp add: sqlIface_def)
  show thesis
    using assms(1)
  proof cases
    case (finish n ok now)
    then show thesis
      using eff assms(3,4) by (intro that [of n "running w ! n" ok now]) (auto simp: effect_def split: if_splits)
  qed (use eff assms(3,4) in \<open>auto simp: effect_def polled_def split: if_splits option.splits sum.splits\<close>)
qed

lemma qMove_row:
  assumes "liveCount q s i \<noteq> None" "liveCount q (snd (MoveToDeadLetter q ok now i jn fr em s)) i = None"
  shows "\<exists>x\<in>set (jobqueue_dead (snd (MoveToDeadLetter q ok now i jn fr em s))).
     djob x \<in> set (jobqueue s) \<and> isRow q i (djob x) \<and> failure_reason x = fr \<and> error_message x = em"
proof -
  obtain res s' where mv: "MoveToDeadLetter q ok now i jn fr em s = (res, s')"
    by fastforce
  show ?thesis
  proof (cases res)
    case (Inl err)
    with mv assms InTx_Inl [of ok "moveToDeadLetterTx q now i jn fr em" s err s'] show ?thesis
      by (auto simp: MoveToDeadLetter_def)
  next
    case (Inr u)
    note rows = moveToDeadLetterTx_Inr [OF InTx_Inr [OF mv [unfolded MoveToDeadLetter_def Inr, simplified]]]
    from rows(3) obtain r where "r \<in> set (jobqueue s)" "isRow q i r"
      by (auto simp: filter_empty_conv)
    then show ?thesis
      unfolding mv by (auto simp: rows(2) intro!: bexI [of _ "\<lparr>djob = r, job_name = jn, failure_reason = fr, error_message = em, moved_at = now\<rparr>"])
  qed
qed

section \<open>Properties\<close>

text \<open>
  C21: a message is executed at most as often as the queue allows it to be received, whatever polls, completions,
  panics, timeout extensions, enqueues of other messages and database failures come between.
\<close>

theorem job_executions_bounded:
  assumes "wRun (sqlIface q) C (\<lambda>_. True) w es w'" "queueInv (queueState w)" "liveCount q (queueState w) i = Some 0"
    "Sent i \<notin> set es" "\<forall>r\<in>set (running w). ID (rmsg r) \<noteq> i"
  shows "length (filter (\<lambda>e. e = Finished i) es) \<le> maxReceive q \<and> length (filter (\<lambda>e. e = Delivered i) es) \<le> maxReceive q"
proof -
  have "Some j \<noteq> Some i" if "Sent j \<in> set es" for j
    using that assms(4) by auto
  from sqlw.deliveries_bounded [OF assms(1,2) this] have "deliveries Some i es \<le> maxReceive q"
    by (simp add: assms(3) sqlIface_def)
  moreover have "executions Some i es \<le> deliveries Some i es"
    using sqlw.executions_bounded [OF assms(1), of i] assms(5) by (simp add: about_def)
  moreover have "(case e of Finished j \<Rightarrow> Some j = Some i | _ \<Rightarrow> False) = (e = Finished i)"
    "(case e of Delivered j \<Rightarrow> Some j = Some i | _ \<Rightarrow> False) = (e = Delivered i)" for e
    by (auto split: wEvent.split)
  ultimately show ?thesis
    by (simp add: deliveries_def executions_def)
qed

text \<open>
  C22: no message is lost. One that a step of the worker removes from the queue was removed at the end of a job
  of that message that either succeeded, or failed permanently or on its last attempt, and in that case its row is
  among the dead letters with the error.
\<close>

theorem message_leaves_only_when_handled:
  assumes "wStep (sqlIface q) C (\<lambda>_. True) w e w'" "queueInv (queueState w)"
    "liveCount q (queueState w) i \<noteq> None" "liveCount q (queueState w') i = None"
  shows "\<exists>r\<in>set (running w). ID (rmsg r) = i \<and>
     (case fst (fn (rreg r) (rinput r) (world w)) of
       FnOK \<Rightarrow> True
     | FnPanic \<Rightarrow> False
     | FnErr err \<Rightarrow> (asPermanent err \<or> Received (rmsg r) = maxReceive q) \<and>
         (\<exists>x\<in>set (jobqueue_dead (queueState w')). djob x \<in> set (jobqueue (queueState w)) \<and> isRow q i (djob x) \<and>
            error_message x = errorText err))"
  using sql_row_leaves [OF assms]
proof cases
  fix n ok now r
  assume r: "n < length (running w)" "r = running w ! n" "ID (rmsg r) = i" "w' = runJob (sqlIface q) ok now n w"
  from r(1,2) have "r \<in> set (running w)"
    by simp
  moreover from refl r(2) r(3) [symmetric] have "case fst (fn (rreg r) (rinput r) (world w)) of
       FnOK \<Rightarrow> True
     | FnPanic \<Rightarrow> False
     | FnErr err \<Rightarrow> (asPermanent err \<or> Received (rmsg r) = maxReceive q) \<and>
         (\<exists>x\<in>set (jobqueue_dead (queueState w')). djob x \<in> set (jobqueue (queueState w)) \<and> isRow q i (djob x) \<and>
            error_message x = errorText err)"
  proof (cases rule: runJob_queue [of r w _ n i "sqlIface q" ok now])
    case kept
    with assms(3,4) r(4) show ?thesis
      by simp
  next
    case (moved err reason)
    then have "queueState w' = snd (MoveToDeadLetter q ok now i (rname r) reason (errorText err) (queueState w))"
      by (simp add: r(4) sqlIface_def)
    with qMove_row [OF assms(3), of ok now "rname r" reason "errorText err"] assms(4) moved(1,2) show ?thesis
      by (auto simp: sqlIface_def)
  qed simp
  ultimately show ?thesis
    using r(3) by blast
qed

text \<open>
  C23: at no moment do more jobs run than the worker's limit allows, and the job counter equals the number of
  running jobs.
\<close>

theorem worker_concurrency_limit:
  assumes "wRun I C room w es w'" "jobCount w = int (length (running w))" "jobCount w \<le> jobCountLimit w"
  shows "jobCount w' = int (length (running w')) \<and> int (length (running w')) \<le> jobCountLimit w' \<and> jobCountLimit w' = jobCountLimit w"
  using assms
proof (induction rule: wRun.induct)
  case (step w e w1 es w')
  have "jobCount w1 = int (length (running w1)) \<and> jobCount w1 \<le> jobCountLimit w1 \<and> jobCountLimit w1 = jobCountLimit w"
    using step.hyps(1)
  proof cases
    case (poll evs)
    with step.prems show ?thesis
      by (cases rule: poll_cases [of I C evs w]) auto
  next
    case (finish n dbok now)
    with step.prems show ?thesis
      by auto
  qed (use step.prems in \<open>simp_all add: Enqueue_sel(1-3)\<close>)
  with step.IH show ?case
    by simp
qed simp

text \<open>A job that panics whenever it runs.\<close>

definition alwaysPanics :: "('t, 'w) jobRegistration \<Rightarrow> bool" where
  "alwaysPanics reg \<longleftrightarrow> (\<forall>x wd. fst (fn reg x wd) = FnPanic)"

definition allPanic :: "('s, 't, 'w) Worker \<Rightarrow> bool" where
  "allPanic w \<longleftrightarrow> (\<forall>reg\<in>ran (jobRegs w). alwaysPanics reg) \<and> (\<forall>r\<in>set (running w). alwaysPanics (rreg r))"

lemma Receive_dead: "jobqueue_dead (snd (Receive q ok now s)) = jobqueue_dead s"
  by (simp add: Receive_def InTx_def receiveTx_def updateRow_def split: option.split)

lemma ReceiveAndWait_dead: "jobqueue_dead (snd (ReceiveAndWait (Receive q) evs s)) = jobqueue_dead s"
proof (induction "Receive q" evs s rule: ReceiveAndWait.induct)
  case (3 now ok es s)
  obtain r t where r: "Receive q ok now s = (r, t)"
    by fastforce
  show ?case
    using 3 r Receive_dead [of q ok now s] by (auto split: sum.split option.split)
qed simp_all

lemma Enqueue_dead:
  assumes "Enqueue (sqlIface q) C ok now newID nm msg w = (res, w')"
  shows "jobqueue_dead (queueState w') = jobqueue_dead (queueState w)"
proof -
  have "jobqueue_dead (snd (Send q ok now newID m s)) = jobqueue_dead s" for m s
    by (simp add: Send_def InTx_def sendAndGetIDTx_def)
  then show ?thesis
    using Enqueue_sel(5) [OF assms] by (auto simp: sqlIface_def) (metis snd_conv)
qed

lemma runJob_panic:
  assumes "alwaysPanics (rreg (running w ! n))"
  shows "queueState (runJob I ok now n w) = queueState w"
  by (rule runJob_queue [OF refl refl refl, where w = w and n = n and I = I and ok = ok and now = now])
    (use assms in \<open>auto simp: alwaysPanics_def\<close>)

lemma allPanic_step:
  assumes "wStep (sqlIface q) C (\<lambda>_. True) w e w'" "allPanic w"
  shows "allPanic w' \<and> jobqueue_dead (queueState w') = jobqueue_dead (queueState w)"
  using assms(1)
proof cases
  case (poll evs)
  have "jobqueue_dead s' = jobqueue_dead (queueState w)"
    if "ReceiveAndWait (qReceive (sqlIface q)) evs (queueState w) = (res, s')" for res s'
    using that ReceiveAndWait_dead [of q evs "queueState w"] by (simp add: sqlIface_def)
  then show ?thesis
    using assms(2) poll by (cases rule: poll_cases [of "sqlIface q" C evs w]) (auto simp: allPanic_def ran_def)
next
  case (finish n ok now)
  then have "queueState w' = queueState w"
    using runJob_panic [of w n "sqlIface q" ok now] assms(2) by (simp add: allPanic_def)
  then show ?thesis
    using assms(2) finish by (auto simp: allPanic_def dest: in_set_takeD in_set_dropD)
next
  case (extend ok now i)
  then show ?thesis
    using assms(2) by (auto simp: allPanic_def sqlIface_def Extend_def InTx_def extendTx_def)
next
  case (enqueue ok now newID nm msg i)
  then show ?thesis
    using assms(2) Enqueue_sel(1,4) [OF enqueue(4)] Enqueue_dead [OF enqueue(4)] by (simp add: allPanic_def)
next
  case (enqueue_failed ok now newID nm msg err)
  then show ?thesis
    using assms(2) Enqueue_sel(1,4) [OF enqueue_failed(4)] Enqueue_dead [OF enqueue_failed(4)] by (simp add: allPanic_def)
qed


section \<open>Witnesses\<close>

definition oneJob :: "nat \<Rightarrow> queueDB" where
  "oneJob n = \<lparr>jobqueue =
     [\<lparr>id_of = ''m1'', created = 10, updated = 10, queue_of = ''q'', body_of = ''one'', timeout_of = 10, received_of = n\<rparr>],
     jobqueue_dead = []\<rparr>"

definition sampleCodec :: "string codec" where
  "sampleCodec = \<lparr>encodeEnv = (\<lambda>(nm, m). Some m), decodeEnv = (\<lambda>b. Some (''task'', b)), Serialize = Some, Deserialize = Some\<rparr>"

text \<open>A worker with one registered job that counts its runs and always ends with the outcome \<open>out\<close>.\<close>

definition sampleWorker :: "fnOutcome \<Rightarrow> nat \<Rightarrow> (queueDB, string, nat) Worker" where
  "sampleWorker out n = snd (Register ''task'' \<lparr>fn = (\<lambda>_ c. (out, Suc c)), onFailure = None\<rparr> (NewWorker 1 5000 (oneJob n) 0))"

definition afterPoll :: "fnOutcome \<Rightarrow> nat \<Rightarrow> (queueDB, string, nat) Worker" where
  "afterPoll out n = receiveAndRun (sqlIface sampleQueue) sampleCodec [Tick 20 True] (sampleWorker out n)"

definition afterRun :: "fnOutcome \<Rightarrow> nat \<Rightarrow> (queueDB, string, nat) Worker" where
  "afterRun out n = runJob (sqlIface sampleQueue) True 40 0 (afterPoll out n)"

lemmas sample_simps = oneJob_def sampleCodec_def sampleWorker_def NewWorker_def Register_def afterPoll_def afterRun_def
  receiveAndRun_def polled_def sqlIface_def Receive_def InTx_def receiveTx_def receivable_def sampleQueue_def updateRow_def
  decodeMessage_def

lemma sample_poll:
  "polled (sqlIface sampleQueue) [Tick 20 True] (sampleWorker out 0) = Delivered ''m1''"
  "running (afterPoll out 0) = [\<lparr>rmsg = \<lparr>ID = ''m1'', Delay = 0, Received = 1, Body = ''one''\<rparr>, rname = ''task'', rinput = ''one'',
     rreg = \<lparr>fn = (\<lambda>_ c. (out, Suc c)), onFailure = None\<rparr>\<rparr>]"
  "\<not> crashed (afterPoll out 0)" "\<not> crashed (sampleWorker out n)" "running (sampleWorker out n) = []"
  "jobCount (sampleWorker out n) = 0" "jobCountLimit (sampleWorker out n) = 1"
  "queueState (sampleWorker out n) = oneJob n"
  by (simp_all add: sample_simps)

lemma sample_run:
  "wRun (sqlIface sampleQueue) sampleCodec (\<lambda>_. True) (sampleWorker out 0) [Delivered ''m1'', Finished ''m1''] (afterRun out 0)"
proof -
  have "wStep (sqlIface sampleQueue) sampleCodec (\<lambda>_. True) (sampleWorker out 0) (Delivered ''m1'') (afterPoll out 0)"
    using wStep.poll [of "sampleWorker out 0" "sqlIface sampleQueue" sampleCodec "\<lambda>_. True" "[Tick 20 True]", OF sample_poll(4)]
    by (simp add: sample_poll(1) afterPoll_def)
  moreover have "wStep (sqlIface sampleQueue) sampleCodec (\<lambda>_. True) (afterPoll out 0) (Finished ''m1'') (afterRun out 0)"
    using wStep.finish [of "afterPoll out 0" 0 "sqlIface sampleQueue" sampleCodec "\<lambda>_. True" True 40, OF sample_poll(3)]
    by (simp add: sample_poll(2) afterRun_def)
  ultimately show ?thesis
    by (blast intro: wRun.intros)
qed

lemma sample_live [simp]: "liveCount sampleQueue (oneJob n) ''m1'' = Some n" "queueInv (oneJob n)"
  by (simp_all add: liveCount_def isRow_def oneJob_def sampleQueue_def queueInv_def)

theorem job_executions_bounded_witness:
  "length (filter (\<lambda>e. e = Finished ''m1'') [Delivered ''m1'', Finished ''m1'']) \<le> maxReceive sampleQueue \<and>
   wRun (sqlIface sampleQueue) sampleCodec (\<lambda>_. True) (sampleWorker FnPanic 0) [Delivered ''m1'', Finished ''m1''] (afterRun FnPanic 0)"
  using job_executions_bounded [OF sample_run [of FnPanic], of "''m1''"] sample_run [of FnPanic]
  by (simp add: sample_poll)

theorem message_leaves_only_when_handled_witness:
  "\<exists>x\<in>set (jobqueue_dead (queueState (afterRun (FnErr (PermanentError (GoError ''boom''))) 0))). error_message x = ''boom''"
proof -
  let ?out = "FnErr (PermanentError (GoError ''boom''))"
  have step: "wStep (sqlIface sampleQueue) sampleCodec (\<lambda>_. True) (afterPoll ?out 0) (Finished ''m1'') (afterRun ?out 0)"
    using wStep.finish [of "afterPoll ?out 0" 0 "sqlIface sampleQueue" sampleCodec "\<lambda>_. True" True 40, OF sample_poll(3)]
    by (simp add: sample_poll(2) afterRun_def)
  have "queueInv (queueState (afterPoll ?out 0))" "liveCount sampleQueue (queueState (afterPoll ?out 0)) ''m1'' \<noteq> None"
    by (simp_all add: sample_simps queueInv_def liveCount_def isRow_def)
  moreover have "liveCount sampleQueue (queueState (afterRun ?out 0)) ''m1'' = None"
    by (simp add: sample_simps runJob_def handleJobError_def giveUp_def moveToDeadLetter_def MoveToDeadLetter_def
        moveToDeadLetterTx_def deleteTx_def liveCount_def isRow_def)
  ultimately show ?thesis
    using message_leaves_only_when_handled [OF step, of "''m1''"] by (auto simp: sample_poll(2))
qed

theorem worker_concurrency_limit_witness:
  "length (running (afterRun FnOK 0)) \<le> 1"
  using worker_concurrency_limit [OF sample_run [of FnOK]] by (simp add: sample_poll)


end
