(* ===== verification/Job_Service.thy ===== *)
theory Job_Service
  imports Job_Worker
begin

text \<open>
  The job queue service, \<open>lib/jobqueue/jobqueue.go\<close>: its options and constructor, and its life cycle of
  registration, start, enqueueing and graceful stop around the worker's poll loop (\<open>Worker.Start\<close>).
\<close>

section \<open>Options and constructor\<close>

datatype svcErr =
    OptionError string
  | SetupFailed
  | QueueError qErr
  | AlreadyStarted
  | NotStarted
  | Stopping
  | AlreadyStopping
  | StopTimeout
  | WorkerError workerErr

datatype queueProvider =
    SqlProvider Dialect
  | DedupProvider "bool option" "bool option" "string \<Rightarrow> string" Dialect

record jqConfig =
  MaxWorkers :: u64
  MaxRetries :: u64
  MaxTimeout :: int
  ExtendDelay :: int
  jqDialect :: Dialect
  provider :: "queueProvider option"

record DedupQueueConfig =
  cfgDedupe :: "bool option"
  cfgBlock :: "bool option"
  cfgHash :: "string \<Rightarrow> string"
  cfgDialect :: "Dialect option"

type_synonym jqOption = "jqConfig \<Rightarrow> svcErr + jqConfig"

definition WithMaxWorkers :: "u64 \<Rightarrow> jqOption" where
  "WithMaxWorkers n c =
     (if n < 1 then Inl (OptionError ''job queue max workers must be greater than zero'') else Inr (c\<lparr>MaxWorkers := n\<rparr>))"

definition WithMaxRetries :: "u64 \<Rightarrow> jqOption" where
  "WithMaxRetries n c = Inr (c\<lparr>MaxRetries := n\<rparr>)"

definition WithMaxTimeout :: "int \<Rightarrow> jqOption" where
  "WithMaxTimeout t c = (if t = 0 then Inl (OptionError ''max timeout cannot be 0'') else Inr (c\<lparr>MaxTimeout := t\<rparr>))"

definition WithExtendDelay :: "int \<Rightarrow> jqOption" where
  "WithExtendDelay t c = (if t = 0 then Inl (OptionError ''extend delay cannot be 0'') else Inr (c\<lparr>ExtendDelay := t\<rparr>))"

definition WithDialect :: "Dialect \<Rightarrow> jqOption" where
  "WithDialect d c = Inr (c\<lparr>jqDialect := d\<rparr>)"

text \<open>Without a dialect of its own the provider takes the one the configuration has when the option is applied.\<close>

definition WithDedupQueue :: "DedupQueueConfig \<Rightarrow> jqOption" where
  "WithDedupQueue cfg c =
     (let d = (case cfgDialect cfg of None \<Rightarrow> jqDialect c | Some d \<Rightarrow> d)
      in Inr (c\<lparr>provider := Some (DedupProvider (cfgDedupe cfg) (cfgBlock cfg) (cfgHash cfg) d)\<rparr>))"

definition jqDefaults :: jqConfig where
  "jqDefaults = \<lparr>MaxWorkers = 1, MaxRetries = 3, MaxTimeout = 5000, ExtendDelay = 5000, jqDialect = SQLite, provider = None\<rparr>"

fun applyOptions :: "jqOption list \<Rightarrow> jqOption" where
  "applyOptions [] c = Inr c"
| "applyOptions (opt # opts) c = rbind (opt c) (applyOptions opts)"

datatype builtQueue = BuiltSql Queue | BuiltDedup DedupQueue

text \<open>
  \<open>New\<close>: the queue, the worker's limit and its extension. The deduplicating queue records itself in its
  database. A count converted to \<open>int\<close> wraps around.
\<close>

definition NewJobQueue :: "string \<Rightarrow> bool \<Rightarrow> bool \<Rightarrow> bool \<Rightarrow> jqOption list \<Rightarrow> dedupDB
    \<Rightarrow> (svcErr + (builtQueue \<times> int \<times> int)) \<times> dedupDB" where
  "NewJobQueue nm dbGiven setupOk dbok opts s =
     (case applyOptions opts jqDefaults of
       Inl e \<Rightarrow> (Inl e, s)
     | Inr c \<Rightarrow>
         if MaxWorkers c = 0 then (Inl (OptionError ''max workers cannot be 0''), s)
         else if MaxTimeout c = 0 then (Inl (OptionError ''max timeout cannot be 0''), s)
         else if ExtendDelay c = 0 then (Inl (OptionError ''extend delay cannot be 0''), s)
         else if \<not> setupOk then (Inl SetupFailed, s)
         else
           (case (case provider c of None \<Rightarrow> SqlProvider (jqDialect c) | Some p \<Rightarrow> p) of
             SqlProvider d \<Rightarrow>
               (case NewQueue dbGiven nm (sint (MaxRetries c)) (MaxTimeout c) of
                 Inl e \<Rightarrow> (Inl (QueueError e), s)
               | Inr q \<Rightarrow> (Inr (BuiltSql q, sint (MaxWorkers c), ExtendDelay c), s))
           | DedupProvider de bl h d \<Rightarrow>
               (case NewDedup d dbGiven nm (sint (MaxRetries c)) (MaxTimeout c) de bl h dbok s of
                 (Inl e, s') \<Rightarrow> (Inl (QueueError e), s')
               | (Inr q, s') \<Rightarrow> (Inr (BuiltDedup q, sint (MaxWorkers c), ExtendDelay c), s'))))"

section \<open>Life cycle\<close>

text \<open>
  Where the goroutine of \<open>Worker.Start\<close> is: not started, at the \<open>select\<close>, in \<open>receiveAndRun\<close>, waiting for the
  running jobs after the context has ended, or returned.
\<close>

datatype loopState = NotRunning | AtSelect | InRound | Draining | Returned

record ('s, 't, 'w) JobQueue =
  worker :: "('s, 't, 'w) Worker"
  startedCtx :: bool
  stopping :: bool
  cancelled :: bool
  loop :: loopState
  accepted :: nat

definition svcStart :: "('s, 't, 'w) JobQueue \<Rightarrow> (svcErr + unit) \<times> ('s, 't, 'w) JobQueue" where
  "svcStart j = (if startedCtx j then (Inl AlreadyStarted, j) else (Inr (), j\<lparr>startedCtx := True, loop := AtSelect\<rparr>))"

definition svcRegister :: "string \<Rightarrow> ('t, 'w) jobRegistration \<Rightarrow> ('s, 't, 'w) JobQueue \<Rightarrow> (svcErr + unit) \<times> ('s, 't, 'w) JobQueue" where
  "svcRegister nm reg j =
     (if startedCtx j then (Inl AlreadyStarted, j)
      else (case Register nm reg (worker j) of
        (Inl e, w) \<Rightarrow> (Inl (WorkerError e), j\<lparr>worker := w\<rparr>)
      | (Inr u, w) \<Rightarrow> (Inr u, j\<lparr>worker := w\<rparr>)))"

text \<open>
  \<open>Enqueue\<close> checks the state under the lock and sends after it has released the lock; \<open>accepted\<close> counts the calls
  between the two.
\<close>

definition svcEnqueueCheck :: "('s, 't, 'w) JobQueue \<Rightarrow> (svcErr + unit) \<times> ('s, 't, 'w) JobQueue" where
  "svcEnqueueCheck j =
     (if \<not> startedCtx j then (Inl NotStarted, j)
      else if stopping j then (Inl Stopping, j)
      else (Inr (), j\<lparr>accepted := accepted j + 1\<rparr>))"

definition svcEnqueueSend :: "'s queueIface \<Rightarrow> 't codec \<Rightarrow> bool \<Rightarrow> int \<Rightarrow> string \<Rightarrow> string \<Rightarrow> 't \<Rightarrow> ('s, 't, 'w) JobQueue
    \<Rightarrow> (svcErr + string) \<times> ('s, 't, 'w) JobQueue" where
  "svcEnqueueSend I C dbok now newID nm msg j =
     (case Enqueue I C dbok now newID nm msg (worker j) of
       (Inl e, w) \<Rightarrow> (Inl (WorkerError e), j\<lparr>worker := w, accepted := accepted j - 1\<rparr>)
     | (Inr i, w) \<Rightarrow> (Inr i, j\<lparr>worker := w, accepted := accepted j - 1\<rparr>))"

text \<open>\<open>Stop\<close> marks the queue and ends the start context, then waits for the loop or for its own context.\<close>

definition svcStopBegin :: "('s, 't, 'w) JobQueue \<Rightarrow> (svcErr + unit) \<times> ('s, 't, 'w) JobQueue" where
  "svcStopBegin j =
     (if \<not> startedCtx j then (Inl NotStarted, j)
      else if stopping j then (Inl AlreadyStopping, j)
      else (Inr (), j\<lparr>stopping := True, cancelled := True\<rparr>))"

definition svcStopWait :: "bool \<Rightarrow> ('s, 't, 'w) JobQueue \<Rightarrow> (svcErr + unit) option" where
  "svcStopWait ctxDone j = (if loop j = Returned then Some (Inr ()) else if ctxDone then Some (Inl StopTimeout) else None)"

text \<open>One move of the loop of \<open>Worker.Start\<close>; \<open>None\<close> where it blocks.\<close>

definition loopMove :: "'s queueIface \<Rightarrow> 't codec \<Rightarrow> waitEvent list \<Rightarrow> ('s, 't, 'w) JobQueue \<Rightarrow> ('s, 't, 'w) JobQueue option" where
  "loopMove I C evs j =
     (case loop j of
       NotRunning \<Rightarrow> None
     | AtSelect \<Rightarrow> Some (if cancelled j then j\<lparr>loop := Draining\<rparr> else j\<lparr>loop := InRound\<rparr>)
     | InRound \<Rightarrow> Some (j\<lparr>worker := receiveAndRun I C evs (worker j), loop := AtSelect\<rparr>)
     | Draining \<Rightarrow> if running (worker j) = [] then Some (j\<lparr>loop := Returned\<rparr>) else None
     | Returned \<Rightarrow> None)"

inductive svcStep :: "'s queueIface \<Rightarrow> 't codec \<Rightarrow> ('s, 't, 'w) JobQueue \<Rightarrow> ('s, 't, 'w) JobQueue \<Rightarrow> bool"
  for I :: "'s queueIface" and C :: "'t codec" where
  register: "svcRegister nm reg j = (r, j') \<Longrightarrow> svcStep I C j j'"
| start: "svcStart j = (r, j') \<Longrightarrow> svcStep I C j j'"
| check: "svcEnqueueCheck j = (r, j') \<Longrightarrow> svcStep I C j j'"
| send: "0 < accepted j \<Longrightarrow> svcEnqueueSend I C dbok now newID nm msg j = (r, j') \<Longrightarrow> svcStep I C j j'"
| stop: "svcStopBegin j = (r, j') \<Longrightarrow> svcStep I C j j'"
| context_end: "startedCtx j \<Longrightarrow> svcStep I C j (j\<lparr>cancelled := True\<rparr>)"
| move: "\<not> crashed (worker j) \<Longrightarrow> loopMove I C evs j = Some j' \<Longrightarrow> svcStep I C j j'"
| finish: "\<not> crashed (worker j) \<Longrightarrow> n < length (running (worker j)) \<Longrightarrow> svcStep I C j (j\<lparr>worker := runJob I dbok now n (worker j)\<rparr>)"
| extend: "\<not> crashed (worker j) \<Longrightarrow> r \<in> set (running (worker j)) \<Longrightarrow>
    svcStep I C j (j\<lparr>worker := extendMessageTimeout I dbok now (ID (rmsg r)) (worker j)\<rparr>)"

inductive_cases svcStepE: "svcStep I C j j'"

definition NewService :: "('s, 't, 'w) Worker \<Rightarrow> ('s, 't, 'w) JobQueue" where
  "NewService w = \<lparr>worker = w, startedCtx = False, stopping = False, cancelled = False, loop = NotRunning, accepted = 0\<rparr>"

section \<open>Stopping\<close>

text \<open>What holds of every state of the service.\<close>

definition svcInv :: "('s, 't, 'w) JobQueue \<Rightarrow> bool" where
  "svcInv j \<longleftrightarrow> (loop j = NotRunning \<longleftrightarrow> \<not> startedCtx j) \<and> (stopping j \<longrightarrow> startedCtx j \<and> cancelled j) \<and>
     (loop j = Draining \<or> loop j = Returned \<longrightarrow> cancelled j) \<and>
     (loop j = NotRunning \<or> loop j = Returned \<longrightarrow> running (worker j) = [])"

lemma svcEnqueueSend_sel:
  assumes "svcEnqueueSend I C dbok now newID nm msg j = (r, j')"
  shows "startedCtx j' = startedCtx j" "stopping j' = stopping j" "cancelled j' = cancelled j" "loop j' = loop j"
    "running (worker j') = running (worker j)" "world (worker j') = world (worker j)" "crashed (worker j') = crashed (worker j)"
  using assms by (auto simp: svcEnqueueSend_def Enqueue_def split: prod.splits sum.splits option.splits)

lemma svcRegister_sel:
  assumes "svcRegister nm reg j = (r, j')"
  shows "startedCtx j' = startedCtx j" "stopping j' = stopping j" "cancelled j' = cancelled j" "loop j' = loop j"
    "running (worker j') = running (worker j)" "world (worker j') = world (worker j)"
  using assms by (auto simp: svcRegister_def Register_def split: prod.splits sum.splits if_splits)

lemma svcStep_svcInv:
  assumes "svcStep I C j j'" "svcInv j"
  shows "svcInv j'"
  using assms(1)
proof cases
  case (register nm reg r)
  with assms(2) svcRegister_sel [OF register] show ?thesis
    by (auto simp: svcInv_def)
next
  case (send dbok now newID nm msg r)
  with assms(2) svcEnqueueSend_sel [OF send(2)] show ?thesis
    by (auto simp: svcInv_def)
next
  case (move evs)
  with assms(2) show ?thesis
    by (cases "loop j") (auto simp: svcInv_def loopMove_def split: if_splits)
qed (use assms(2) in \<open>auto simp: svcInv_def svcStart_def svcEnqueueCheck_def svcStopBegin_def split: if_splits\<close>)

lemma svcSteps_svcInv: "(svcStep I C)\<^sup>*\<^sup>* j j' \<Longrightarrow> svcInv j \<Longrightarrow> svcInv j'"
  by (induction rule: rtranclp_induct) (auto intro: svcStep_svcInv)

lemma NewService_svcInv: "running w = [] \<Longrightarrow> svcInv (NewService w)"
  by (simp add: svcInv_def NewService_def)

lemma returned_step:
  assumes "svcStep I C j j'" "svcInv j" "loop j = Returned"
  shows "loop j' = Returned \<and> world (worker j') = world (worker j)"
  using assms(1)
proof cases
  case (register nm reg r)
  with assms(3) svcRegister_sel [OF register] show ?thesis
    by simp
next
  case (send dbok now newID nm msg r)
  with assms(3) svcEnqueueSend_sel [OF send(2)] show ?thesis
    by simp
qed (use assms(2,3) in \<open>auto simp: svcInv_def svcStart_def svcEnqueueCheck_def svcStopBegin_def loopMove_def split: if_splits\<close>)

lemma returned_steps:
  assumes "(svcStep I C)\<^sup>*\<^sup>* j j'" "svcInv j" "loop j = Returned"
  shows "svcInv j' \<and> loop j' = Returned \<and> world (worker j') = world (worker j)"
  using assms by (induction rule: rtranclp_induct) (auto dest: returned_step intro: svcStep_svcInv)

lemma runJob_crashed [simp]: "crashed (runJob I ok now n w) = crashed w"
  by (simp add: runJob_def handleJobError_def giveUp_def moveToDeadLetter_def deleteMessage_def Let_def
      split: prod.split fnOutcome.split option.split)

text \<open>A draining loop returns once the running jobs have ended.\<close>

lemma draining_completes:
  assumes "loop j = Draining" "\<not> crashed (worker j)"
  shows "\<exists>j'. (svcStep I C)\<^sup>*\<^sup>* j j' \<and> loop j' = Returned"
  using assms
proof (induction "length (running (worker j))" arbitrary: j)
  case 0
  then have "svcStep I C j (j\<lparr>loop := Returned\<rparr>)"
    by (intro svcStep.move [where evs = "[]"]) (simp_all add: loopMove_def)
  then show ?case
    by (intro exI [of _ "j\<lparr>loop := Returned\<rparr>"]) auto
next
  case (Suc k)
  define j1 where "j1 = j\<lparr>worker := runJob I True 0 0 (worker j)\<rparr>"
  have "svcStep I C j j1"
    unfolding j1_def using Suc.hyps(2) Suc.prems by (intro svcStep.finish) auto
  moreover have "k = length (running (worker j1))" "loop j1 = Draining" "\<not> crashed (worker j1)"
    using Suc.hyps(2) Suc.prems by (simp_all add: j1_def)
  ultimately show ?case
    using Suc.hyps(1) [of j1] by (blast intro: converse_rtranclp_into_rtranclp)
qed

lemma cancelled_completes:
  assumes "cancelled j" "loop j \<noteq> NotRunning" "\<not> crashed (worker j)"
  shows "\<exists>j'. (svcStep I C)\<^sup>*\<^sup>* j j' \<and> loop j' = Returned"
proof -
  have select: "\<exists>j'. (svcStep I C)\<^sup>*\<^sup>* j j' \<and> loop j' = Returned"
    if "cancelled j" "loop j = AtSelect" "\<not> crashed (worker j)" for j :: "('a, 'b, 'c) JobQueue"
  proof -
    have "svcStep I C j (j\<lparr>loop := Draining\<rparr>)"
      using that by (intro svcStep.move [where evs = "[]"]) (simp_all add: loopMove_def)
    with draining_completes [of "j\<lparr>loop := Draining\<rparr>" I C] that show ?thesis
      by (auto intro: converse_rtranclp_into_rtranclp)
  qed
  show ?thesis
  proof (cases "loop j")
    case InRound
    have "receiveAndRun I C [Done] (worker j) = worker j"
      by (simp add: receiveAndRun_def)
    then have "svcStep I C j (j\<lparr>loop := AtSelect\<rparr>)"
      using assms InRound by (intro svcStep.move [where evs = "[Done]"]) (simp_all add: loopMove_def)
    with select [of "j\<lparr>loop := AtSelect\<rparr>"] assms show ?thesis
      by (auto intro: converse_rtranclp_into_rtranclp)
  qed (use assms select draining_completes in auto)
qed

section \<open>Properties\<close>

text \<open>
  C25: \<open>Stop\<close> is graceful. When it returns without error no job is running, and from then on no job code runs,
  whatever calls follow: the application's state stays as it is, and the queue cannot be started again.
\<close>

theorem Stop_waits_for_jobs:
  assumes "running w = []" "(svcStep I C)\<^sup>*\<^sup>* (NewService w) j" "svcStopWait ctxDone j = Some (Inr ())" "(svcStep I C)\<^sup>*\<^sup>* j j'"
  shows "running (worker j') = [] \<and> world (worker j') = world (worker j) \<and> svcStart j' = (Inl AlreadyStarted, j')"
proof -
  have "svcInv j"
    using svcSteps_svcInv [OF assms(2)] NewService_svcInv assms(1) by blast
  moreover have "loop j = Returned"
    using assms(3) by (auto simp: svcStopWait_def split: if_splits)
  ultimately have "svcInv j'" "loop j' = Returned" "world (worker j') = world (worker j)"
    using returned_steps [OF assms(4)] by auto
  then show ?thesis
    by (auto simp: svcInv_def svcStart_def)
qed



section \<open>Witnesses\<close>

text \<open>A service with one job running, stopped while it runs.\<close>

definition sampleService :: "(queueDB, string, nat) JobQueue" where
  "sampleService = NewService (sampleWorker FnOK 0)"

definition startedService :: "(queueDB, string, nat) JobQueue" where
  "startedService = snd (svcStart sampleService)"

definition stoppedService :: "(queueDB, string, nat) JobQueue" where
  "stoppedService = snd (svcStopBegin startedService)"

lemma sample_stop: "(svcStep (sqlIface sampleQueue) sampleCodec)\<^sup>*\<^sup>* (NewService (sampleWorker FnOK 0)) stoppedService"
proof -
  have "svcStep (sqlIface sampleQueue) sampleCodec sampleService startedService"
    by (rule svcStep.start [where r = "fst (svcStart sampleService)"]) (simp add: startedService_def)
  moreover have "svcStep (sqlIface sampleQueue) sampleCodec startedService stoppedService"
    by (rule svcStep.stop [where r = "fst (svcStopBegin startedService)"]) (simp add: stoppedService_def)
  ultimately show ?thesis
    by (simp add: sampleService_def)
qed

lemma sample_stopped: "stopping stoppedService" "loop stoppedService = AtSelect" "cancelled stoppedService"
  "worker stoppedService = sampleWorker FnOK 0"
  by (simp_all add: stoppedService_def startedService_def sampleService_def svcStart_def svcStopBegin_def NewService_def)


theorem Stop_waits_for_jobs_witness:
  "\<exists>j. (svcStep (sqlIface sampleQueue) sampleCodec)\<^sup>*\<^sup>* stoppedService j \<and> running (worker j) = [] \<and>
     svcStart j = (Inl AlreadyStarted, j)"
proof -
  obtain j where j: "(svcStep (sqlIface sampleQueue) sampleCodec)\<^sup>*\<^sup>* stoppedService j" "loop j = Returned"
    using cancelled_completes [of stoppedService] by (auto simp: sample_stopped sample_poll)
  then have "svcStopWait False j = Some (Inr ())"
    by (simp add: svcStopWait_def)
  from Stop_waits_for_jobs [OF _ rtranclp_trans [OF sample_stop j(1)] this rtranclp.rtrancl_refl] j(1) show ?thesis
    by (auto simp: sample_poll)
qed

end
