(* ===== verification/Generic_Store.thy ===== *)
theory Generic_Store
  imports Piri_Prelude "HOL-Library.Sublist" "HOL-Library.AList"
begin

text \<open>
  The typed key-value store of \<open>pkg/store/genericstore/store.go\<close> on a listable object store, and the datastore
  adapter \<open>pkg/store/objectstore/dsadapter/adapter.go\<close> under it.

  Every call to the datastore may fail: the list \<open>faults\<close> decides, call by call, whether it does, and a call
  after its end succeeds. A failed call leaves the objects as they are. An operation takes the backend to its
  result and the backend after it, so that a sequence interrupted at any call is a run with a suitable list.
\<close>

section \<open>Operations that may fail\<close>

datatype storeErr = ErrNotFound | BackendError | CodecError | StoreError string

record backend =
  objects :: "(string \<times> bytes) list"
  faults :: "bool list"

type_synonym ('s, 'a) op = "'s \<Rightarrow> (storeErr + 'a) \<times> 's"

definition sreturn :: "'a \<Rightarrow> ('s, 'a) op" where
  "sreturn x s = (Inr x, s)"

definition sfail :: "storeErr \<Rightarrow> ('s, 'a) op" where
  "sfail e s = (Inl e, s)"

definition sbind :: "('s, 'a) op \<Rightarrow> ('a \<Rightarrow> ('s, 'b) op) \<Rightarrow> ('s, 'b) op" where
  "sbind f g s = (case f s of (Inl e, s') \<Rightarrow> (Inl e, s') | (Inr x, s') \<Rightarrow> g x s')"

text \<open>The test \<open>errors.Is(err, store.ErrNotFound)\<close> that the callers of a read make first.\<close>

definition found :: "('s, 'a) op \<Rightarrow> ('s, 'a option) op" where
  "found f s = (case f s of (Inl e, s') \<Rightarrow> (if e = ErrNotFound then Inr None else Inl e, s') | (Inr x, s') \<Rightarrow> (Inr (Some x), s'))"

lemma sbind_Inr:
  assumes "sbind f g s = (Inr y, s')"
  obtains x s1 where "f s = (Inr x, s1)" "g x s1 = (Inr y, s')"
  using assms by (auto simp: sbind_def split: prod.splits sum.splits)

lemma sbind_cases:
  assumes "sbind f g s = (r, s')"
  obtains (failed) e where "f s = (Inl e, s')" "r = Inl e"
  | (went_on) x s1 where "f s = (Inr x, s1)" "g x s1 = (r, s')"
  using assms by (auto simp: sbind_def split: prod.splits sum.splits)

lemma found_cases:
  assumes "found f s = (r, s')"
  obtains (absent) "f s = (Inl ErrNotFound, s')" "r = Inr None"
  | (failed) e where "f s = (Inl e, s')" "e \<noteq> ErrNotFound" "r = Inl e"
  | (present) x where "f s = (Inr x, s')" "r = Inr (Some x)"
  using assms by (auto simp: found_def split: prod.splits sum.splits if_splits)

section \<open>The datastore\<close>

text \<open>One call to the datastore: \<open>act\<close> is what it does when it does not fail.\<close>

definition call :: "((string \<times> bytes) list \<Rightarrow> (storeErr + 'a) \<times> (string \<times> bytes) list) \<Rightarrow> (backend, 'a) op" where
  "call act b =
     (case faults b of
       True # fs \<Rightarrow> (Inl BackendError, b\<lparr>faults := fs\<rparr>)
     | fs \<Rightarrow> (case act (objects b) of (r, os) \<Rightarrow> (r, b\<lparr>objects := os, faults := tl fs\<rparr>)))"

definition backendPut :: "string \<Rightarrow> bytes \<Rightarrow> (backend, unit) op" where
  "backendPut key data = call (\<lambda>os. (Inr (), AList.update key data os))"

definition backendGet :: "string \<Rightarrow> (backend, bytes) op" where
  "backendGet key = call (\<lambda>os. (case map_of os key of None \<Rightarrow> Inl ErrNotFound | Some d \<Rightarrow> Inr d, os))"

definition backendDelete :: "string \<Rightarrow> (backend, unit) op" where
  "backendDelete key = call (\<lambda>os. (Inr (), AList.delete key os))"

definition backendExists :: "string \<Rightarrow> (backend, bool) op" where
  "backendExists key = call (\<lambda>os. (Inr (map_of os key \<noteq> None), os))"

definition backendListPrefix :: "string \<Rightarrow> (backend, string list) op" where
  "backendListPrefix p = call (\<lambda>os. (Inr (filter (prefix p) (map fst os)), os))"

section \<open>The typed store\<close>

record 'v gstore =
  namespace :: string
  encode :: "'v \<Rightarrow> bytes option"
  decode :: "bytes \<Rightarrow> 'v option"

definition decoded :: "'v gstore \<Rightarrow> bytes \<Rightarrow> ('s, 'v) op" where
  "decoded g d = (case decode g d of None \<Rightarrow> sfail CodecError | Some v \<Rightarrow> sreturn v)"

definition gsGet :: "'v gstore \<Rightarrow> string \<Rightarrow> (backend, 'v) op" where
  "gsGet g key = sbind (backendGet (namespace g @ key)) (decoded g)"

definition gsPut :: "'v gstore \<Rightarrow> string \<Rightarrow> 'v \<Rightarrow> (backend, unit) op" where
  "gsPut g key v = (case encode g v of None \<Rightarrow> sfail CodecError | Some d \<Rightarrow> backendPut (namespace g @ key) d)"

definition gsDelete :: "'v gstore \<Rightarrow> string \<Rightarrow> (backend, unit) op" where
  "gsDelete g key = backendDelete (namespace g @ key)"

definition gsExists :: "'v gstore \<Rightarrow> string \<Rightarrow> (backend, bool) op" where
  "gsExists g key = backendExists (namespace g @ key)"

definition gsExistsWithPrefix :: "'v gstore \<Rightarrow> string \<Rightarrow> (backend, bool) op" where
  "gsExistsWithPrefix g p = sbind (backendListPrefix (namespace g @ p)) (\<lambda>ks. sreturn (ks \<noteq> []))"

text \<open>
  The iterator of \<open>ListPrefix\<close>. The keys are those listed at the start; an object that has gone by the time it is
  read is skipped. \<open>gsCollect\<close> runs it to the end, \<open>gsFirst\<close> until the consumer has found what it looks for.
\<close>

fun gsCollect :: "'v gstore \<Rightarrow> string list \<Rightarrow> (backend, 'v list) op" where
  "gsCollect g [] = sreturn []"
| "gsCollect g (k # ks) =
     sbind (found (backendGet k)) (\<lambda>od. case od of
       None \<Rightarrow> gsCollect g ks
     | Some d \<Rightarrow> sbind (decoded g d) (\<lambda>v. sbind (gsCollect g ks) (\<lambda>vs. sreturn (v # vs))))"

fun gsFirst :: "'v gstore \<Rightarrow> ('v \<Rightarrow> bool) \<Rightarrow> string list \<Rightarrow> (backend, 'v) op" where
  "gsFirst g match [] = sfail ErrNotFound"
| "gsFirst g match (k # ks) =
     sbind (found (backendGet k)) (\<lambda>od. case od of
       None \<Rightarrow> gsFirst g match ks
     | Some d \<Rightarrow> sbind (decoded g d) (\<lambda>v. if match v then sreturn v else gsFirst g match ks))"

definition gsListPrefix :: "'v gstore \<Rightarrow> string \<Rightarrow> (backend, 'v list) op" where
  "gsListPrefix g p = sbind (backendListPrefix (namespace g @ p)) (gsCollect g)"

definition gsGetAnyMatching :: "'v gstore \<Rightarrow> string \<Rightarrow> ('v \<Rightarrow> bool) \<Rightarrow> (backend, 'v) op" where
  "gsGetAnyMatching g p match = sbind (backendListPrefix (namespace g @ p)) (gsFirst g match)"

definition gsGetAny :: "'v gstore \<Rightarrow> string \<Rightarrow> (backend, 'v) op" where
  "gsGetAny g p = gsGetAnyMatching g p (\<lambda>_. True)"

section \<open>What the operations do\<close>

text \<open>The value a store holds at a key, and the condition that coding loses nothing.\<close>

definition lookup :: "'v gstore \<Rightarrow> backend \<Rightarrow> string \<Rightarrow> 'v option" where
  "lookup g b key = Option.bind (map_of (objects b) (namespace g @ key)) (decode g)"

definition codecOK :: "'v gstore \<Rightarrow> bool" where
  "codecOK g \<longleftrightarrow> (\<forall>v d. encode g v = Some d \<longrightarrow> decode g d = Some v)"

lemma call_cases:
  assumes "call act b = (r, b')"
  obtains (failed) "r = Inl BackendError" "objects b' = objects b"
  | (answered) os where "act (objects b) = (r, os)" "objects b' = os"
  using assms by (auto simp: call_def split: list.splits bool.splits prod.splits)

lemma call_no_faults: "faults b = [] \<Longrightarrow> call act b = (fst (act (objects b)), b\<lparr>objects := snd (act (objects b))\<rparr>)"
  by (simp add: call_def split: prod.split)

lemma backendGet_cases:
  assumes "backendGet k b = (r, b')"
  shows "objects b' = objects b" "r = Inr d \<Longrightarrow> map_of (objects b) k = Some d" "r = Inl ErrNotFound \<Longrightarrow> map_of (objects b) k = None"
  using assms by (auto simp: backendGet_def split: option.splits elim!: call_cases)

lemma decoded_Inr: "decoded g d b = (Inr v, b') \<longleftrightarrow> decode g d = Some v \<and> b' = b"
  by (auto simp: decoded_def sfail_def sreturn_def split: option.splits)

lemma decoded_Inl: "decoded g d b = (Inl e, b') \<longleftrightarrow> decode g d = None \<and> e = CodecError \<and> b' = b"
  by (auto simp: decoded_def sfail_def sreturn_def split: option.splits)

lemma gsGet_result:
  assumes "gsGet g key b = (r, b')"
  shows "objects b' = objects b" "r = Inr v \<Longrightarrow> lookup g b key = Some v" "r = Inl ErrNotFound \<Longrightarrow> lookup g b key = None"
proof -
  from assms [unfolded gsGet_def]
  have "objects b' = objects b \<and> (r = Inr v \<longrightarrow> lookup g b key = Some v) \<and> (r = Inl ErrNotFound \<longrightarrow> lookup g b key = None)"
  proof (cases rule: sbind_cases)
    case (failed e)
    then show ?thesis
      using backendGet_cases [OF failed(1)] by (auto simp: lookup_def)
  next
    case (went_on d b1)
    then show ?thesis
      using backendGet_cases [OF went_on(1)] by (cases r) (auto simp: lookup_def decoded_Inr decoded_Inl)
  qed
  then show "objects b' = objects b" "r = Inr v \<Longrightarrow> lookup g b key = Some v" "r = Inl ErrNotFound \<Longrightarrow> lookup g b key = None"
    by auto
qed

lemma gsPut_result:
  assumes "gsPut g key v b = (r, b')"
  shows "\<And>e. r = Inl e \<Longrightarrow> objects b' = objects b"
    "r = Inr u \<Longrightarrow> \<exists>d. encode g v = Some d \<and> objects b' = AList.update (namespace g @ key) d (objects b)"
  using assms by (auto simp: gsPut_def sfail_def backendPut_def split: option.splits elim!: call_cases)

lemma gsDelete_result:
  assumes "gsDelete g key b = (r, b')"
  shows "\<And>e. r = Inl e \<Longrightarrow> objects b' = objects b" "r = Inr u \<Longrightarrow> objects b' = AList.delete (namespace g @ key) (objects b)"
  using assms by (auto simp: gsDelete_def backendDelete_def elim!: call_cases)

lemma lookup_put:
  assumes "gsPut g key v b = (Inr u, b')"
  shows "lookup g' b' key' = (if namespace g' @ key' = namespace g @ key then Option.bind (encode g v) (decode g') else lookup g' b key')"
  using gsPut_result(2) [OF assms] by (auto simp: lookup_def update_conv')

lemma put_codec: "gsPut g key v b = (Inr u, b') \<Longrightarrow> codecOK g \<Longrightarrow> Option.bind (encode g v) (decode g) = Some v"
  by (auto dest: gsPut_result(2) simp: codecOK_def)

lemma lookup_delete:
  assumes "gsDelete g key b = (Inr u, b')"
  shows "lookup g' b' key' = (if namespace g' @ key' = namespace g @ key then None else lookup g' b key')"
  using gsDelete_result(2) [OF assms] by (auto simp: lookup_def delete_conv')

lemma lookup_cong: "objects b' = objects b \<Longrightarrow> lookup g b' = lookup g b"
  by (simp add: lookup_def fun_eq_iff)

subsection \<open>Listing\<close>

lemma gsFirst_result:
  assumes "gsFirst g match ks b = (r, b')"
  shows "objects b' = objects b \<and>
     (\<forall>v. r = Inr v \<longrightarrow> match v \<and> (\<exists>k\<in>set ks. Option.bind (map_of (objects b) k) (decode g) = Some v)) \<and>
     (r = Inl ErrNotFound \<longrightarrow> (\<forall>k\<in>set ks. \<forall>v. Option.bind (map_of (objects b) k) (decode g) = Some v \<longrightarrow> \<not> match v))"
  using assms
proof (induction ks arbitrary: b)
  case Nil
  then show ?case
    by (auto simp: sfail_def)
next
  case (Cons k ks)
  from Cons.prems [unfolded gsFirst.simps] show ?case
  proof (cases rule: sbind_cases)
    case (failed e)
    from failed(1) obtain e' where "backendGet k b = (Inl e', b')" "e \<noteq> ErrNotFound"
      by (cases rule: found_cases) auto
    with backendGet_cases(1) [OF this(1)] failed(2) show ?thesis
      by simp
  next
    case (went_on od b1)
    from went_on(1) show ?thesis
    proof (cases rule: found_cases)
      case absent
      have "objects b1 = objects b" "map_of (objects b) k = None" "gsFirst g match ks b1 = (r, b')"
        using backendGet_cases(1,3) [OF absent(1)] went_on(2) absent(2) by simp_all
      with Cons.IH [OF this(3)] show ?thesis
        by simp
    next
      case (present d)
      have got: "objects b1 = objects b" "map_of (objects b) k = Some d"
        using backendGet_cases(1,2) [OF present(1)] by simp_all
      have "sbind (decoded g d) (\<lambda>v. if match v then sreturn v else gsFirst g match ks) b1 = (r, b')"
        using went_on(2) present(2) by simp
      then show ?thesis
      proof (cases rule: sbind_cases)
        case (failed e)
        with got show ?thesis
          by (simp add: decoded_Inl)
      next
        case (went_on v b2)
        then have v: "decode g d = Some v" "b2 = b1"
          by (simp_all add: decoded_Inr)
        show ?thesis
        proof (cases "match v")
          case True
          with went_on v have "r = Inr v" "b' = b1"
            by (simp_all add: sreturn_def)
          with True v got show ?thesis
            by simp
        next
          case False
          with went_on v got Cons.IH [of b1] show ?thesis
            by simp
        qed
      qed
    qed simp_all
  qed
qed

lemma backendListPrefix_result:
  assumes "backendListPrefix p b = (r, b')"
  shows "objects b' = objects b \<and> (\<forall>ks. r = Inr ks \<longrightarrow> set ks = {k. prefix p k \<and> map_of (objects b) k \<noteq> None}) \<and> r \<noteq> Inl ErrNotFound"
  using assms by (auto simp: backendListPrefix_def map_of_eq_None_iff image_iff elim!: call_cases) force

text \<open>A search by prefix finds a value that the store holds under the prefix, and misses only if there is none.\<close>

lemma gsGetAnyMatching_result:
  assumes "gsGetAnyMatching g p match b = (r, b')"
  shows "objects b' = objects b \<and>
     (\<forall>v. r = Inr v \<longrightarrow> match v \<and> (\<exists>key. prefix p key \<and> lookup g b key = Some v)) \<and>
     (r = Inl ErrNotFound \<longrightarrow> (\<forall>key v. prefix p key \<longrightarrow> lookup g b key = Some v \<longrightarrow> \<not> match v))"
  using assms [unfolded gsGetAnyMatching_def]
proof (cases rule: sbind_cases)
  case (failed e)
  with backendListPrefix_result [OF failed(1)] show ?thesis
    by auto
next
  case (went_on ks b1)
  note ks = backendListPrefix_result [OF went_on(1)]
  note first = gsFirst_result [OF went_on(2)]
  have os: "objects b' = objects b" "objects b1 = objects b"
    using ks first by auto
  have "match v \<and> (\<exists>key. prefix p key \<and> lookup g b key = Some v)" if "r = Inr v" for v
  proof -
    from first that obtain k where k: "match v" "k \<in> set ks" "Option.bind (map_of (objects b) k) (decode g) = Some v"
      unfolding os by blast
    from k(2) ks obtain key where "prefix p key" "k = namespace g @ key"
      by (auto simp: prefix_def)
    with k show ?thesis
      by (auto simp: lookup_def)
  qed
  moreover have "\<not> match v" if "r = Inl ErrNotFound" "prefix p key" "lookup g b key = Some v" for key v
  proof -
    have "namespace g @ key \<in> set ks"
      using ks that(2,3) by (auto simp: lookup_def bind_eq_Some_conv)
    with first that show ?thesis
      by (auto simp: lookup_def os)
  qed
  ultimately show ?thesis
    using os by blast
qed

text \<open>Without faults a listing is the values under the prefix, in the order of the objects.\<close>

lemma gsCollect_no_faults:
  assumes "faults b = []" "\<And>k. k \<in> set ks \<Longrightarrow> Option.bind (map_of (objects b) k) (decode g) \<noteq> None"
  shows "gsCollect g ks b = (Inr (map (\<lambda>k. the (Option.bind (map_of (objects b) k) (decode g))) ks), b)"
  using assms(2)
proof (induction ks)
  case (Cons k ks)
  from Cons.prems [of k] obtain d v where "map_of (objects b) k = Some d" "decode g d = Some v"
    by (cases "map_of (objects b) k") auto
  with Cons assms(1) show ?case
    by (simp add: sbind_def found_def backendGet_def call_no_faults decoded_def sreturn_def)
qed (simp add: sreturn_def)

end
