(* ===== verification/Allocation_Store.thy ===== *)
theory Allocation_Store
  imports Generic_Store
begin

text \<open>
  The allocation store on a datastore, \<open>pkg/store/allocationstore/store.go\<close> and \<open>claim.go\<close>: allocations keyed by
  digest and space, an index of them by \<open>/blob/allocate\<close> task link, and the allocations made without a digest.
  The three are typed stores on one backend.

  A link and a space are their string forms; the undefined link prints as \<open>b\<close>. The string form of a digest
  (\<open>digestutil.Format\<close>) is the parameter \<open>fmt\<close>. The lock of a key, held in this process, makes an operation that
  reads and then writes one step.
\<close>

section \<open>Records\<close>

type_synonym space = string

record Allocation =
  aSpace :: space
  aDigest :: bytes
  aSize :: u64
  aExpires :: int
  aCause :: cid
  aLink :: cid

record Pending =
  pLink :: cid
  pSpace :: space
  pSize :: u64
  pCode :: u64
  pCause :: cid
  pExpires :: int
  pUpload :: string
  pDigest :: bytes

definition linkDefined :: "cid \<Rightarrow> bool" where
  "linkDefined l \<longleftrightarrow> l \<noteq> ''b''"

section \<open>Keys\<close>

definition EncodeKeyPrefix :: "(bytes \<Rightarrow> string) \<Rightarrow> bytes \<Rightarrow> string" where
  "EncodeKeyPrefix fmt digest = fmt digest @ ''/''"

definition EncodeKey :: "(bytes \<Rightarrow> string) \<Rightarrow> bytes \<Rightarrow> space \<Rightarrow> string" where
  "EncodeKey fmt digest sp = fmt digest @ ''/'' @ sp"

definition pendingNamespace :: string where
  "pendingNamespace = ''pending/''"

definition byTaskNamespace :: string where
  "byTaskNamespace = ''by-task/''"

section \<open>The store\<close>

record allocStore =
  sAllocs :: "Allocation gstore"
  sTasks :: "Allocation gstore"
  sPend :: "Pending gstore"
  sFmt :: "bytes \<Rightarrow> string"

definition NewAllocStore :: "(Allocation \<Rightarrow> bytes option) \<Rightarrow> (bytes \<Rightarrow> Allocation option) \<Rightarrow> (Pending \<Rightarrow> bytes option)
    \<Rightarrow> (bytes \<Rightarrow> Pending option) \<Rightarrow> (bytes \<Rightarrow> string) \<Rightarrow> allocStore" where
  "NewAllocStore ea da ep dp fmt = \<lparr>sAllocs = \<lparr>namespace = '''', encode = ea, decode = da\<rparr>,
     sTasks = \<lparr>namespace = byTaskNamespace, encode = ea, decode = da\<rparr>,
     sPend = \<lparr>namespace = pendingNamespace, encode = ep, decode = dp\<rparr>, sFmt = fmt\<rparr>"

abbreviation keyOf :: "allocStore \<Rightarrow> Allocation \<Rightarrow> string" where
  "keyOf S a \<equiv> EncodeKey (sFmt S) (aDigest a) (aSpace a)"

definition alGet :: "allocStore \<Rightarrow> bytes \<Rightarrow> space \<Rightarrow> (backend, Allocation) op" where
  "alGet S digest sp = gsGet (sAllocs S) (EncodeKey (sFmt S) digest sp)"

definition alGetAnyNonExpired :: "allocStore \<Rightarrow> bytes \<Rightarrow> int \<Rightarrow> (backend, Allocation) op" where
  "alGetAnyNonExpired S digest now = gsGetAnyMatching (sAllocs S) (EncodeKeyPrefix (sFmt S) digest) (\<lambda>a. aExpires a > now)"

definition alExists :: "allocStore \<Rightarrow> bytes \<Rightarrow> (backend, bool) op" where
  "alExists S digest = gsExistsWithPrefix (sAllocs S) (EncodeKeyPrefix (sFmt S) digest)"

definition alput :: "allocStore \<Rightarrow> string \<Rightarrow> Allocation \<Rightarrow> (backend, unit) op" where
  "alput S key alloc =
     sbind (found (gsGet (sAllocs S) key)) (\<lambda>prev.
     sbind (gsPut (sTasks S) (aLink alloc) alloc) (\<lambda>_.
     sbind (gsPut (sAllocs S) key alloc) (\<lambda>_.
       case prev of
         None \<Rightarrow> sreturn ()
       | Some p \<Rightarrow> if linkDefined (aLink p) \<and> aLink p \<noteq> aLink alloc then gsDelete (sTasks S) (aLink p) else sreturn ())))"

definition alPut :: "allocStore \<Rightarrow> Allocation \<Rightarrow> (backend, unit) op" where
  "alPut S alloc = alput S (keyOf S alloc) alloc"

definition alClaim :: "allocStore \<Rightarrow> Allocation \<Rightarrow> (backend, bool) op" where
  "alClaim S alloc =
     sbind (found (gsGet (sAllocs S) (keyOf S alloc))) (\<lambda>cur. case cur of
       Some _ \<Rightarrow> sreturn False
     | None \<Rightarrow> sbind (alput S (keyOf S alloc) alloc) (\<lambda>_. sreturn True))"

definition alMakeCurrent :: "allocStore \<Rightarrow> bytes \<Rightarrow> space \<Rightarrow> cid \<Rightarrow> (backend, unit) op" where
  "alMakeCurrent S digest sp link =
     sbind (found (gsGet (sAllocs S) (EncodeKey (sFmt S) digest sp))) (\<lambda>cur. case cur of
       None \<Rightarrow> sreturn ()
     | Some a \<Rightarrow> if aLink a = link then sreturn () else alput S (EncodeKey (sFmt S) digest sp) (a\<lparr>aLink := link\<rparr>))"

definition aldelete :: "allocStore \<Rightarrow> string \<Rightarrow> Allocation \<Rightarrow> (backend, unit) op" where
  "aldelete S key alloc =
     sbind (gsDelete (sAllocs S) key) (\<lambda>_.
       if \<not> linkDefined (aLink alloc) then sreturn () else gsDelete (sTasks S) (aLink alloc))"

definition alDelete :: "allocStore \<Rightarrow> bytes \<Rightarrow> space \<Rightarrow> (backend, unit) op" where
  "alDelete S digest sp =
     sbind (found (gsGet (sAllocs S) (EncodeKey (sFmt S) digest sp))) (\<lambda>cur. case cur of
       None \<Rightarrow> sreturn ()
     | Some a \<Rightarrow> aldelete S (EncodeKey (sFmt S) digest sp) a)"

definition alGetByTask :: "allocStore \<Rightarrow> cid \<Rightarrow> (backend, Allocation) op" where
  "alGetByTask S link =
     sbind (gsGet (sTasks S) link) (\<lambda>indexed.
     sbind (alGet S (aDigest indexed) (aSpace indexed)) (\<lambda>alloc.
       if aLink alloc \<noteq> link then sfail ErrNotFound else sreturn alloc))"

definition alListSpaces :: "allocStore \<Rightarrow> bytes \<Rightarrow> (backend, space list) op" where
  "alListSpaces S digest =
     sbind (gsListPrefix (sAllocs S) (EncodeKeyPrefix (sFmt S) digest)) (\<lambda>as. sreturn (map aSpace as))"

definition PutPending :: "allocStore \<Rightarrow> Pending \<Rightarrow> (backend, unit) op" where
  "PutPending S p = gsPut (sPend S) (pLink p) p"

definition GetPending :: "allocStore \<Rightarrow> cid \<Rightarrow> (backend, Pending) op" where
  "GetPending S link = gsGet (sPend S) link"

definition DeletePending :: "allocStore \<Rightarrow> cid \<Rightarrow> (backend, unit) op" where
  "DeletePending S link = gsDelete (sPend S) link"

definition ListPending :: "allocStore \<Rightarrow> (backend, Pending list) op" where
  "ListPending S = gsListPrefix (sPend S) ''''"

definition ListExpiredPending :: "allocStore \<Rightarrow> int \<Rightarrow> (backend, Pending list) op" where
  "ListExpiredPending S now = sbind (ListPending S) (\<lambda>ps. sreturn (filter (\<lambda>p. pExpires p \<le> now) ps))"

text \<open>
  Another received upload of the content that an allocation claims, and the allocation once it is handed over.
\<close>

definition otherUpload :: "cid \<Rightarrow> Allocation \<Rightarrow> Pending \<Rightarrow> bool" where
  "otherUpload released alloc other \<longleftrightarrow> pLink other \<noteq> released \<and> pSpace other = aSpace alloc \<and> pDigest other = aDigest alloc"

definition handedOver :: "Allocation \<Rightarrow> Pending \<Rightarrow> Allocation" where
  "handedOver alloc other = alloc\<lparr>aCause := pCause other, aLink := pLink other, aExpires := pExpires other\<rparr>"

definition handOverClaim :: "allocStore \<Rightarrow> string \<Rightarrow> cid \<Rightarrow> Allocation \<Rightarrow> (backend, unit) op" where
  "handOverClaim S key released alloc =
     sbind (found (gsGetAnyMatching (sPend S) '''' (otherUpload released alloc))) (\<lambda>other. case other of
       Some p \<Rightarrow> alput S key (handedOver alloc p)
     | None \<Rightarrow> aldelete S key alloc)"

definition alReleaseByTask :: "allocStore \<Rightarrow> cid \<Rightarrow> (backend, bool) op" where
  "alReleaseByTask S link =
     sbind (found (gsGet (sTasks S) link)) (\<lambda>ix. case ix of
       None \<Rightarrow> sreturn False
     | Some indexed \<Rightarrow>
         sbind (found (gsGet (sAllocs S) (keyOf S indexed))) (\<lambda>cur. case cur of
           None \<Rightarrow> sreturn False
         | Some alloc \<Rightarrow>
             if aLink alloc \<noteq> link then sreturn False
             else sbind (handOverClaim S (keyOf S indexed) link alloc) (\<lambda>_. sreturn True)))"

definition alReleasePending :: "allocStore \<Rightarrow> Pending \<Rightarrow> (backend, Pending) op" where
  "alReleasePending S p0 =
     sbind (found (GetPending S (pLink p0))) (\<lambda>latest.
       let p = (case latest of None \<Rightarrow> p0 | Some l \<Rightarrow> l);
           key = EncodeKey (sFmt S) (pDigest p) (pSpace p)
       in sbind (if pDigest p = [] then sreturn ()
                 else sbind (found (gsGet (sAllocs S) key)) (\<lambda>cur. case cur of
                   None \<Rightarrow> sreturn ()
                 | Some alloc \<Rightarrow> if aLink alloc = pLink p then handOverClaim S key (pLink p) alloc else sreturn ()))
          (\<lambda>_. sbind (DeletePending S (pLink p)) (\<lambda>_. sreturn p)))"

section \<open>Keys do not collide\<close>

text \<open>
  What the store relies on of \<open>digestutil.Format\<close>: it is injective, has no slash, and is never one of the names that
  the namespaces use.
\<close>

definition fmtOK :: "(bytes \<Rightarrow> string) \<Rightarrow> bool" where
  "fmtOK fmt \<longleftrightarrow> inj fmt \<and> (\<forall>d. CHR ''/'' \<notin> set (fmt d) \<and> fmt d \<noteq> ''pending'' \<and> fmt d \<noteq> ''by-task'')"

lemma split_at_separator:
  "c \<notin> set x \<Longrightarrow> c \<notin> set y \<Longrightarrow> x @ c # u = y @ c # v \<longleftrightarrow> x = y \<and> u = v"
proof (induction x arbitrary: y)
  case Nil
  then show ?case
    by (cases y) auto
next
  case (Cons a x)
  then show ?case
    by (cases y) auto
qed

lemmas split_slash = split_at_separator [of "CHR ''/''"]

lemma EncodeKey_inject: "fmtOK fmt \<Longrightarrow> EncodeKey fmt d s = EncodeKey fmt d' s' \<longleftrightarrow> d = d' \<and> s = s'"
  by (auto simp: EncodeKey_def fmtOK_def split_slash dest: injD)

lemma EncodeKey_prefix: "fmtOK fmt \<Longrightarrow> prefix (EncodeKeyPrefix fmt d) (EncodeKey fmt d' s) \<longleftrightarrow> d = d'"
  by (auto simp: EncodeKey_def EncodeKeyPrefix_def prefix_def fmtOK_def split_slash dest: injD)

lemma namespaces_apart:
  assumes "fmtOK fmt"
  shows "byTaskNamespace @ l \<noteq> EncodeKey fmt d s" "pendingNamespace @ l \<noteq> EncodeKey fmt d s" "pendingNamespace @ l \<noteq> byTaskNamespace @ l'"
proof -
  have *: "byTaskNamespace @ l = ''by-task'' @ CHR ''/'' # l" "pendingNamespace @ l = ''pending'' @ CHR ''/'' # l" for l
    by (simp_all add: byTaskNamespace_def pendingNamespace_def)
  show "byTaskNamespace @ l \<noteq> EncodeKey fmt d s"
    unfolding * EncodeKey_def using assms by (subst append.simps, subst split_slash) (auto simp: fmtOK_def)
  show "pendingNamespace @ l \<noteq> EncodeKey fmt d s"
    unfolding * EncodeKey_def using assms by (subst append.simps, subst split_slash) (auto simp: fmtOK_def)
  show "pendingNamespace @ l \<noteq> byTaskNamespace @ l'"
    by (simp add: byTaskNamespace_def pendingNamespace_def)
qed

section \<open>The three views of the backend\<close>

definition storeOK :: "allocStore \<Rightarrow> bool" where
  "storeOK S \<longleftrightarrow> namespace (sAllocs S) = '''' \<and> namespace (sTasks S) = byTaskNamespace \<and> namespace (sPend S) = pendingNamespace \<and>
     codecOK (sAllocs S) \<and> codecOK (sTasks S) \<and> codecOK (sPend S) \<and> fmtOK (sFmt S)"

definition allocs :: "allocStore \<Rightarrow> backend \<Rightarrow> bytes \<times> space \<rightharpoonup> Allocation" where
  "allocs S b k = lookup (sAllocs S) b (EncodeKey (sFmt S) (fst k) (snd k))"

definition tasks :: "allocStore \<Rightarrow> backend \<Rightarrow> cid \<rightharpoonup> Allocation" where
  "tasks S b = lookup (sTasks S) b"

definition pends :: "allocStore \<Rightarrow> backend \<Rightarrow> cid \<rightharpoonup> Pending" where
  "pends S b = lookup (sPend S) b"

definition sameViews :: "allocStore \<Rightarrow> backend \<Rightarrow> backend \<Rightarrow> bool" where
  "sameViews S b b' \<longleftrightarrow> allocs S b' = allocs S b \<and> tasks S b' = tasks S b \<and> pends S b' = pends S b"

lemma sameViews_objects:
  assumes "objects b' = objects b"
  shows "sameViews S b b'"
  by (simp add: sameViews_def allocs_def tasks_def pends_def fun_eq_iff lookup_cong [OF assms])

lemma sameViews_refl [simp]: "sameViews S b b"
  by (simp add: sameViews_def)

lemma sameViews_trans: "sameViews S b b1 \<Longrightarrow> sameViews S b1 b2 \<Longrightarrow> sameViews S b b2"
  by (simp add: sameViews_def)

lemma put_alloc_views:
  assumes "storeOK S" "gsPut (sAllocs S) (EncodeKey (sFmt S) d s) a b = (r, b')"
  shows "case r of Inl _ \<Rightarrow> sameViews S b b' | Inr _ \<Rightarrow> allocs S b' = (allocs S b)((d, s) \<mapsto> a) \<and> tasks S b' = tasks S b \<and> pends S b' = pends S b"
proof (cases r)
  case (Inr u)
  note put = lookup_put [OF assms(2) [unfolded Inr]] put_codec [OF assms(2) [unfolded Inr]]
  from assms(1) show ?thesis
    by (auto simp: Inr storeOK_def allocs_def tasks_def pends_def fun_eq_iff put EncodeKey_inject namespaces_apart)
qed (use sameViews_objects gsPut_result(1) [OF assms(2)] in auto)

lemma put_task_views:
  assumes "storeOK S" "gsPut (sTasks S) l a b = (r, b')"
  shows "case r of Inl _ \<Rightarrow> sameViews S b b' | Inr _ \<Rightarrow> allocs S b' = allocs S b \<and> tasks S b' = (tasks S b)(l \<mapsto> a) \<and> pends S b' = pends S b"
proof (cases r)
  case (Inr u)
  note put = lookup_put [OF assms(2) [unfolded Inr]] put_codec [OF assms(2) [unfolded Inr]]
  from assms(1) show ?thesis
    by (auto simp: Inr storeOK_def allocs_def tasks_def pends_def fun_eq_iff put EncodeKey_inject namespaces_apart namespaces_apart [symmetric])
qed (use sameViews_objects gsPut_result(1) [OF assms(2)] in auto)

lemma put_pend_views:
  assumes "storeOK S" "gsPut (sPend S) l p b = (r, b')"
  shows "case r of Inl _ \<Rightarrow> sameViews S b b' | Inr _ \<Rightarrow> allocs S b' = allocs S b \<and> tasks S b' = tasks S b \<and> pends S b' = (pends S b)(l \<mapsto> p)"
proof (cases r)
  case (Inr u)
  note put = lookup_put [OF assms(2) [unfolded Inr]] put_codec [OF assms(2) [unfolded Inr]]
  from assms(1) show ?thesis
    by (auto simp: Inr storeOK_def allocs_def tasks_def pends_def fun_eq_iff put EncodeKey_inject namespaces_apart namespaces_apart [symmetric])
qed (use sameViews_objects gsPut_result(1) [OF assms(2)] in auto)

lemma delete_alloc_views:
  assumes "storeOK S" "gsDelete (sAllocs S) (EncodeKey (sFmt S) d s) b = (r, b')"
  shows "case r of Inl _ \<Rightarrow> sameViews S b b' | Inr _ \<Rightarrow> allocs S b' = (allocs S b)((d, s) := None) \<and> tasks S b' = tasks S b \<and> pends S b' = pends S b"
proof (cases r)
  case (Inr u)
  note del = lookup_delete [OF assms(2) [unfolded Inr]]
  from assms(1) show ?thesis
    by (auto simp: Inr storeOK_def allocs_def tasks_def pends_def fun_eq_iff del EncodeKey_inject namespaces_apart)
qed (use sameViews_objects gsDelete_result(1) [OF assms(2)] in auto)

lemma delete_task_views:
  assumes "storeOK S" "gsDelete (sTasks S) l b = (r, b')"
  shows "case r of Inl _ \<Rightarrow> sameViews S b b' | Inr _ \<Rightarrow> allocs S b' = allocs S b \<and> tasks S b' = (tasks S b)(l := None) \<and> pends S b' = pends S b"
proof (cases r)
  case (Inr u)
  note del = lookup_delete [OF assms(2) [unfolded Inr]]
  from assms(1) show ?thesis
    by (auto simp: Inr storeOK_def allocs_def tasks_def pends_def fun_eq_iff del EncodeKey_inject namespaces_apart namespaces_apart [symmetric])
qed (use sameViews_objects gsDelete_result(1) [OF assms(2)] in auto)

lemma delete_pend_views:
  assumes "storeOK S" "gsDelete (sPend S) l b = (r, b')"
  shows "case r of Inl _ \<Rightarrow> sameViews S b b' | Inr _ \<Rightarrow> allocs S b' = allocs S b \<and> tasks S b' = tasks S b \<and> pends S b' = (pends S b)(l := None)"
proof (cases r)
  case (Inr u)
  note del = lookup_delete [OF assms(2) [unfolded Inr]]
  from assms(1) show ?thesis
    by (auto simp: Inr storeOK_def allocs_def tasks_def pends_def fun_eq_iff del EncodeKey_inject namespaces_apart namespaces_apart [symmetric])
qed (use sameViews_objects gsDelete_result(1) [OF assms(2)] in auto)

lemma get_views:
  assumes "found (gsGet g key) b = (r, b')"
  shows "sameViews S b b' \<and> (\<forall>res. r = Inr res \<longrightarrow> res = lookup g b key)"
  using assms
proof (cases rule: found_cases)
  case absent
  with gsGet_result(1,3) [OF absent(1)] show ?thesis
    by (simp add: sameViews_objects)
next
  case (failed e)
  with gsGet_result(1) [OF failed(1)] show ?thesis
    by (simp add: sameViews_objects)
next
  case (present x)
  with gsGet_result(1,2) [OF present(1)] show ?thesis
    by (simp add: sameViews_objects)
qed

section \<open>The index\<close>

text \<open>
  \<open>own\<close> says which blob in which space an allocate task is for: a task makes allocations of one blob in one space
  only, and a digest is never empty.
\<close>

definition goodAlloc :: "(cid \<Rightarrow> bytes \<times> space) \<Rightarrow> Allocation \<Rightarrow> bool" where
  "goodAlloc own a \<longleftrightarrow> aDigest a \<noteq> [] \<and> (linkDefined (aLink a) \<longrightarrow> own (aLink a) = (aDigest a, aSpace a))"

definition goodPending :: "(cid \<Rightarrow> bytes \<times> space) \<Rightarrow> Pending \<Rightarrow> bool" where
  "goodPending own p \<longleftrightarrow> (pDigest p \<noteq> [] \<longrightarrow> linkDefined (pLink p) \<and> own (pLink p) = (pDigest p, pSpace p))"

text \<open>
  The invariant of the store on its views. Every record lies at its own digest and space and is found through the
  index by its link; index entries may be stale, but they name the right place; and an allocation made without a
  digest is stored under its own link.
\<close>

definition ixViews :: "(cid \<Rightarrow> bytes \<times> space) \<Rightarrow> (bytes \<times> space \<rightharpoonup> Allocation) \<Rightarrow> (cid \<rightharpoonup> Allocation) \<Rightarrow> (cid \<rightharpoonup> Pending) \<Rightarrow> bool" where
  "ixViews own A T P \<longleftrightarrow>
     (\<forall>k a. A k = Some a \<longrightarrow> (aDigest a, aSpace a) = k \<and> goodAlloc own a \<and> (linkDefined (aLink a) \<longrightarrow> T (aLink a) \<noteq> None)) \<and>
     (\<forall>l i. T l = Some i \<longrightarrow> linkDefined l \<longrightarrow> own l = (aDigest i, aSpace i)) \<and>
     (\<forall>l p. P l = Some p \<longrightarrow> pLink p = l \<and> goodPending own p)"

definition ixInv :: "(cid \<Rightarrow> bytes \<times> space) \<Rightarrow> allocStore \<Rightarrow> backend \<Rightarrow> bool" where
  "ixInv own S b \<longleftrightarrow> ixViews own (allocs S b) (tasks S b) (pends S b)"

lemma ixInv_same: "sameViews S b b' \<Longrightarrow> ixInv own S b \<Longrightarrow> ixInv own S b'"
  by (simp add: ixInv_def sameViews_def)

lemma ixInv_alloc:
  "ixInv own S b \<Longrightarrow> allocs S b k = Some a \<Longrightarrow>
     (aDigest a, aSpace a) = k \<and> goodAlloc own a \<and> (linkDefined (aLink a) \<longrightarrow> tasks S b (aLink a) \<noteq> None)"
  unfolding ixInv_def ixViews_def by blast

lemma ixInv_task: "ixInv own S b \<Longrightarrow> tasks S b l = Some i \<Longrightarrow> linkDefined l \<Longrightarrow> own l = (aDigest i, aSpace i)"
  by (simp add: ixInv_def ixViews_def)

lemma ixInv_pend: "ixInv own S b \<Longrightarrow> pends S b l = Some p \<Longrightarrow> pLink p = l \<and> goodPending own p"
  by (simp add: ixInv_def ixViews_def)

lemma ixViews_index:
  "ixViews own A T P \<Longrightarrow> linkDefined l \<longrightarrow> own l = (aDigest a, aSpace a) \<Longrightarrow> ixViews own A (T(l \<mapsto> a)) P"
  by (simp add: ixViews_def)

lemma ixViews_record:
  "ixViews own A T P \<Longrightarrow> goodAlloc own a \<Longrightarrow> T (aLink a) \<noteq> None \<Longrightarrow> ixViews own (A((aDigest a, aSpace a) \<mapsto> a)) T P"
  by (simp add: ixViews_def)

lemma ixViews_unindex:
  "ixViews own A T P \<Longrightarrow> \<forall>k a. A k = Some a \<longrightarrow> linkDefined (aLink a) \<longrightarrow> aLink a \<noteq> l \<Longrightarrow> ixViews own A (T(l := None)) P"
  by (simp add: ixViews_def)

lemma ixViews_drop: "ixViews own A T P \<Longrightarrow> ixViews own (A(k := None)) T P"
  by (simp add: ixViews_def)

lemma ixViews_pend:
  "ixViews own A T P \<Longrightarrow> goodPending own p \<Longrightarrow> ixViews own A T (P(pLink p \<mapsto> p))"
  by (simp add: ixViews_def)

lemma ixViews_unpend: "ixViews own A T P \<Longrightarrow> ixViews own A T (P(l := None))"
  by (simp add: ixViews_def)

text \<open>Only the record that an allocate task is for can name it.\<close>

lemma ixViews_unique:
  "ixViews own A T P \<Longrightarrow> A k = Some a \<Longrightarrow> A k' = Some a' \<Longrightarrow> linkDefined (aLink a) \<Longrightarrow> aLink a = aLink a' \<Longrightarrow> k = k' \<and> a = a'"
  by (metis ixViews_def goodAlloc_def option.inject)

text \<open>Writing a record, interrupted anywhere: the invariant holds, and the record is the old one or the new one.\<close>

lemma alput_result:
  assumes S: "storeOK S" and inv: "ixInv own S b" and put: "alput S (keyOf S a) a b = (r, b')"
    and own: "goodAlloc own a"
  shows "ixInv own S b' \<and> pends S b' = pends S b \<and>
     (case r of Inr _ \<Rightarrow> allocs S b' = (allocs S b)((aDigest a, aSpace a) \<mapsto> a)
      | Inl _ \<Rightarrow> allocs S b' = allocs S b \<or> allocs S b' = (allocs S b)((aDigest a, aSpace a) \<mapsto> a))"
  using put [unfolded alput_def]
proof (cases rule: sbind_cases)
  case (failed e)
  with get_views [OF failed(1), of S] ixInv_same [OF _ inv] show ?thesis
    by (auto simp: sameViews_def)
next
  case got: (went_on prev b1)
  have b1: "sameViews S b b1" "prev = allocs S b (aDigest a, aSpace a)"
    using get_views [OF got(1), of S] by (auto simp: allocs_def)
  from got(2) show ?thesis
  proof (cases rule: sbind_cases)
    case (failed e)
    with put_task_views [OF S failed(1)] sameViews_trans [OF b1(1)] ixInv_same [OF _ inv] show ?thesis
      by (auto simp: sameViews_def)
  next
    case ix: (went_on u b2)
    have b2: "allocs S b2 = allocs S b" "tasks S b2 = (tasks S b)(aLink a \<mapsto> a)" "pends S b2 = pends S b"
      using put_task_views [OF S ix(1)] b1(1) by (auto simp: sameViews_def)
    have v2: "ixViews own (allocs S b2) (tasks S b2) (pends S b2)"
      using inv own by (simp add: ixInv_def b2 ixViews_index goodAlloc_def)
    from ix(2) show ?thesis
    proof (cases rule: sbind_cases)
      case (failed e)
      with put_alloc_views [OF S failed(1)] b2 v2 show ?thesis
        by (auto simp: sameViews_def ixInv_def)
    next
      case rec: (went_on u' b3)
      have b3: "allocs S b3 = (allocs S b)((aDigest a, aSpace a) \<mapsto> a)" "tasks S b3 = tasks S b2" "pends S b3 = pends S b"
        using put_alloc_views [OF S rec(1)] b2 by auto
      have v3: "ixViews own (allocs S b3) (tasks S b3) (pends S b3)"
        using ixViews_record [OF v2, of a] own b2 b3 by simp
      show ?thesis
      proof (cases "\<exists>p. prev = Some p \<and> linkDefined (aLink p) \<and> aLink p \<noteq> aLink a")
        case False
        then have "r = Inr () \<and> b' = b3"
          using rec(2) by (auto simp: sreturn_def split: option.splits)
        then show ?thesis
          using v3 b3 by (simp add: ixInv_def)
      next
        case True
        then obtain p where p: "prev = Some p" "linkDefined (aLink p)" "aLink p \<noteq> aLink a" "gsDelete (sTasks S) (aLink p) b3 = (r, b')"
          using rec(2) by auto
        have "aLink x \<noteq> aLink p" if "allocs S b3 k = Some x" "linkDefined (aLink x)" for k x
        proof (cases "k = (aDigest a, aSpace a)")
          case True
          then show ?thesis
            using that p(3) by (auto simp: b3)
        next
          case False
          with that(1) have "allocs S b k = Some x"
            by (simp add: b3)
          with False ixViews_unique [OF inv [unfolded ixInv_def], of k x "(aDigest a, aSpace a)" p] b1(2) p(1) that(2) show ?thesis
            by auto
        qed
        with ixViews_unindex [OF v3, of "aLink p"] have "ixViews own (allocs S b3) ((tasks S b3)(aLink p := None)) (pends S b3)"
          by blast
        then show ?thesis
          using delete_task_views [OF S p(4)] b3 v3 by (cases r) (auto simp: sameViews_def ixInv_def)
      qed
    qed
  qed
qed

lemma aldelete_result:
  assumes S: "storeOK S" and inv: "ixInv own S b" and del: "aldelete S (keyOf S a) a b = (r, b')"
    and cur: "allocs S b (aDigest a, aSpace a) = Some a"
  shows "ixInv own S b' \<and> pends S b' = pends S b \<and>
     (case r of Inr _ \<Rightarrow> allocs S b' = (allocs S b)((aDigest a, aSpace a) := None)
      | Inl _ \<Rightarrow> allocs S b' = allocs S b \<or> allocs S b' = (allocs S b)((aDigest a, aSpace a) := None))"
  using del [unfolded aldelete_def]
proof (cases rule: sbind_cases)
  case (failed e)
  with delete_alloc_views [OF S failed(1)] ixInv_same [OF _ inv] show ?thesis
    by (auto simp: sameViews_def)
next
  case (went_on u b1)
  have b1: "allocs S b1 = (allocs S b)((aDigest a, aSpace a) := None)" "tasks S b1 = tasks S b" "pends S b1 = pends S b"
    using delete_alloc_views [OF S went_on(1)] by auto
  have v1: "ixViews own (allocs S b1) (tasks S b1) (pends S b1)"
    using inv by (simp add: ixInv_def b1 ixViews_drop)
  show ?thesis
  proof (cases "linkDefined (aLink a)")
    case False
    with went_on(2) v1 b1 show ?thesis
      by (auto simp: sreturn_def ixInv_def)
  next
    case True
    then have del': "gsDelete (sTasks S) (aLink a) b1 = (r, b')"
      using went_on(2) by simp
    have "aLink x \<noteq> aLink a" if "allocs S b1 k = Some x" "linkDefined (aLink x)" for k x
      using that b1(1) ixViews_unique [OF inv [unfolded ixInv_def], of k x "(aDigest a, aSpace a)" a] cur by (auto split: if_splits)
    with ixViews_unindex [OF v1, of "aLink a"] have "ixViews own (allocs S b1) ((tasks S b1)(aLink a := None)) (pends S b1)"
      by blast
    then show ?thesis
      using delete_task_views [OF S del'] b1 v1 by (cases r) (auto simp: sameViews_def ixInv_def)
  qed
qed

section \<open>The contract of an allocation store\<close>

text \<open>
  Handing over the claim of a released allocation: another received upload of the content takes it, or it goes.
\<close>

definition handOverSpec :: "(cid \<rightharpoonup> Pending) \<Rightarrow> cid \<Rightarrow> Allocation \<Rightarrow> (bytes \<times> space \<rightharpoonup> Allocation) \<Rightarrow> (bytes \<times> space \<rightharpoonup> Allocation) \<Rightarrow> bool" where
  "handOverSpec P released a A A' \<longleftrightarrow>
     (if \<exists>p\<in>ran P. otherUpload released a p
      then \<exists>p\<in>ran P. otherUpload released a p \<and> A' = A((aDigest a, aSpace a) \<mapsto> handedOver a p)
      else A' = A((aDigest a, aSpace a) := None))"

definition releaseSpec :: "(cid \<rightharpoonup> Pending) \<Rightarrow> cid \<Rightarrow> bool \<Rightarrow> (bytes \<times> space \<rightharpoonup> Allocation) \<Rightarrow> (bytes \<times> space \<rightharpoonup> Allocation) \<Rightarrow> bool" where
  "releaseSpec P link released A A' \<longleftrightarrow>
     (if released then \<exists>a\<in>ran A. aLink a = link \<and> handOverSpec P link a A A' else A' = A \<and> (\<forall>a\<in>ran A. aLink a \<noteq> link))"

text \<open>
  \<open>A\<close> and \<open>P\<close> read the allocations and the allocations without a digest from the store's state. An operation that
  fails may have done part of its work, but keeps the invariant.
\<close>

locale allocation_store =
  fixes own :: "cid \<Rightarrow> bytes \<times> space"
    and inv :: "'s \<Rightarrow> bool"
    and A :: "'s \<Rightarrow> bytes \<times> space \<rightharpoonup> Allocation"
    and P :: "'s \<Rightarrow> cid \<rightharpoonup> Pending"
    and get :: "bytes \<Rightarrow> space \<Rightarrow> ('s, Allocation) op"
    and getByTask :: "cid \<Rightarrow> ('s, Allocation) op"
    and claim :: "Allocation \<Rightarrow> ('s, bool) op"
    and makeCurrent :: "bytes \<Rightarrow> space \<Rightarrow> cid \<Rightarrow> ('s, unit) op"
    and delete :: "bytes \<Rightarrow> space \<Rightarrow> ('s, unit) op"
    and releaseByTask :: "cid \<Rightarrow> ('s, bool) op"
    and putPending :: "Pending \<Rightarrow> ('s, unit) op"
    and releasePending :: "Pending \<Rightarrow> ('s, Pending) op"
  assumes wf_A: "inv s \<Longrightarrow> A s k = Some a \<Longrightarrow> (aDigest a, aSpace a) = k \<and> goodAlloc own a"
    and wf_P: "inv s \<Longrightarrow> P s l = Some p \<Longrightarrow> pLink p = l \<and> goodPending own p"
    and get_law: "inv s \<Longrightarrow> get d sp s = (r0, s') \<Longrightarrow> inv s' \<and> A s' = A s \<and> P s' = P s \<and>
      (\<forall>a. r0 = Inr a \<longrightarrow> A s (d, sp) = Some a) \<and> (r0 = Inl ErrNotFound \<longrightarrow> A s (d, sp) = None)"
    and getByTask_law: "inv s \<Longrightarrow> linkDefined l \<Longrightarrow> getByTask l s = (r1, s') \<Longrightarrow> inv s' \<and> A s' = A s \<and> P s' = P s \<and>
      (\<forall>a. r1 = Inr a \<longrightarrow> a \<in> ran (A s) \<and> aLink a = l) \<and> (r1 = Inl ErrNotFound \<longrightarrow> (\<forall>a\<in>ran (A s). aLink a \<noteq> l))"
    and claim_law: "inv s \<Longrightarrow> goodAlloc own a \<Longrightarrow> claim a s = (r2, s') \<Longrightarrow> inv s' \<and> P s' = P s \<and>
      (\<forall>c. r2 = Inr c \<longrightarrow> c = (A s (aDigest a, aSpace a) = None) \<and>
        A s' = (if c then (A s)((aDigest a, aSpace a) \<mapsto> a) else A s))"
    and makeCurrent_law: "inv s \<Longrightarrow> linkDefined l \<Longrightarrow> own l = (d, sp) \<Longrightarrow> makeCurrent d sp l s = (r3, s') \<Longrightarrow> inv s' \<and> P s' = P s \<and>
      (\<forall>u. r3 = Inr u \<longrightarrow> A s' = (A s)((d, sp) := map_option (\<lambda>a. a\<lparr>aLink := l\<rparr>) (A s (d, sp))))"
    and delete_law: "inv s \<Longrightarrow> delete d sp s = (r4, s') \<Longrightarrow> inv s' \<and> P s' = P s \<and>
      (\<forall>u. r4 = Inr u \<longrightarrow> A s' = (A s)((d, sp) := None))"
    and releaseByTask_law: "inv s \<Longrightarrow> linkDefined l \<Longrightarrow> releaseByTask l s = (r5, s') \<Longrightarrow> inv s' \<and> P s' = P s \<and>
      (\<forall>b. r5 = Inr b \<longrightarrow> releaseSpec (P s) l b (A s) (A s'))"
    and putPending_law: "inv s \<Longrightarrow> goodPending own p \<Longrightarrow> putPending p s = (r6, s') \<Longrightarrow> inv s' \<and> A s' = A s \<and>
      (\<forall>u. r6 = Inr u \<longrightarrow> P s' = (P s)(pLink p \<mapsto> p))"
    and releasePending_law: "inv s \<Longrightarrow> goodPending own p0 \<Longrightarrow> releasePending p0 s = (r7, s') \<Longrightarrow> inv s' \<and>
      (\<forall>p. r7 = Inr p \<longrightarrow> p = (case P s (pLink p0) of None \<Rightarrow> p0 | Some l \<Rightarrow> l) \<and> P s' = (P s)(pLink p0 := None) \<and>
        (case A s (pDigest p, pSpace p) of
          Some a \<Rightarrow> if pDigest p \<noteq> [] \<and> aLink a = pLink p0 then handOverSpec (P s) (pLink p0) a (A s) (A s') else A s' = A s
        | None \<Rightarrow> A s' = A s))"
begin

text \<open>Every received upload has a claim on its content: the space's allocation of the blob.\<close>

definition covered :: "'s \<Rightarrow> bool" where
  "covered s \<longleftrightarrow> (\<forall>p\<in>ran (P s). pDigest p \<noteq> [] \<longrightarrow> A s (pDigest p, pSpace p) \<noteq> None)"

lemma handOver_covered:
  assumes "handOverSpec (P s) l a (A s) A'" "covered s" "p \<in> ran (P s)" "pDigest p \<noteq> []" "pLink p \<noteq> l"
  shows "A' (pDigest p, pSpace p) \<noteq> None"
  using assms by (auto simp: handOverSpec_def covered_def otherUpload_def split: if_splits)

text \<open>A release keeps the claims of the other uploads, and leaves nothing under the released link.\<close>

lemma releasePending_covered:
  assumes "inv s" "goodPending own p0" "releasePending p0 s = (Inr p, s')" "covered s"
  shows "covered s'"
  unfolding covered_def
proof (intro ballI impI)
  fix q
  assume q: "q \<in> ran (P s')" "pDigest q \<noteq> []"
  note law = releasePending_law [OF assms(1-3)]
  have "P s' = (P s)(pLink p0 := None)"
    using law by blast
  with q(1) obtain l where "P s l = Some q" "l \<noteq> pLink p0"
    by (auto simp: ran_def split: if_splits)
  then have q': "q \<in> ran (P s)" "pLink q \<noteq> pLink p0"
    using wf_P [OF assms(1), of l q] by (auto simp: ran_def)
  show "A s' (pDigest q, pSpace q) \<noteq> None"
  proof (cases "A s' = A s")
    case True
    with assms(4) q(2) q'(1) show ?thesis
      by (auto simp: covered_def)
  next
    case False
    then obtain a where "handOverSpec (P s) (pLink p0) a (A s) (A s')"
      using law by (auto split: option.splits if_splits)
    from handOver_covered [OF this assms(4) q'(1) q(2) q'(2)] show ?thesis .
  qed
qed

lemma releaseByTask_unnamed:
  assumes "inv s" "linkDefined l" "releaseByTask l s = (Inr b, s')"
  shows "\<forall>a\<in>ran (A s'). aLink a \<noteq> l"
proof (cases b)
  case False
  with releaseByTask_law [OF assms] show ?thesis
    by (auto simp: releaseSpec_def)
next
  case True
  then obtain a where a: "a \<in> ran (A s)" "aLink a = l" "handOverSpec (P s) l a (A s) (A s')"
    using releaseByTask_law [OF assms] by (auto simp: releaseSpec_def)
  have only: "aLink x \<noteq> l" if "A s k = Some x" "k \<noteq> (aDigest a, aSpace a)" for k x
  proof -
    obtain k' where "A s k' = Some a"
      using a(1) by (auto simp: ran_def)
    with wf_A [OF assms(1) this] wf_A [OF assms(1) that(1)] that(2) assms(2) a(2) show ?thesis
      by (auto simp: goodAlloc_def)
  qed
  have here: "aLink x \<noteq> l" if "A s' (aDigest a, aSpace a) = Some x" for x
    using that a(3) by (auto simp: handOverSpec_def otherUpload_def handedOver_def split: if_splits)
  have elsewhere: "A s' k = A s k" if "k \<noteq> (aDigest a, aSpace a)" for k
    using that a(3) by (auto simp: handOverSpec_def split: if_splits)
  show ?thesis
  proof
    fix x
    assume "x \<in> ran (A s')"
    then obtain k where "A s' k = Some x"
      by (auto simp: ran_def)
    with only [of k x] here [of x] elsewhere [of k] show "aLink x \<noteq> l"
      by (cases "k = (aDigest a, aSpace a)") simp_all
  qed
qed

end

section \<open>The datastore keeps the contract\<close>

text \<open>A read, by what it saw.\<close>

lemma read_cases:
  assumes "sbind (found (gsGet g key)) f b = (r, b')" "ixInv own S b"
  obtains (failed) e where "r = Inl e" "e \<noteq> ErrNotFound" "sameViews S b b'" "ixInv own S b'"
  | (read) b1 where "sameViews S b b1" "ixInv own S b1" "f (lookup g b key) b1 = (r, b')"
  using assms(1)
proof (cases rule: sbind_cases)
  case (failed e)
  then have "e \<noteq> ErrNotFound"
    by (auto elim: found_cases)
  with failed get_views [OF failed(1), of S] ixInv_same [OF _ assms(2)] that(1) show thesis
    by blast
next
  case (went_on x b1)
  with get_views [OF went_on(1), of S] ixInv_same [OF _ assms(2)] that(2) show thesis
    by blast
qed

lemma get_task:
  assumes "ixInv own S b" "linkDefined l"
  shows "(\<exists>a\<in>ran (allocs S b). aLink a = l) \<longleftrightarrow>
     (\<exists>i a. tasks S b l = Some i \<and> allocs S b (aDigest i, aSpace i) = Some a \<and> aLink a = l)" (is "?found \<longleftrightarrow> ?indexed")
proof
  assume ?found
  then obtain k a where a: "allocs S b k = Some a" "aLink a = l"
    by (auto simp: ran_def)
  then obtain i where "tasks S b l = Some i" "own l = k"
    using ixInv_alloc [OF assms(1) a(1)] assms(2) by (auto simp: goodAlloc_def)
  with a ixInv_task [OF assms(1) this(1) assms(2)] show ?indexed
    by auto
next
  assume ?indexed
  then show ?found
    by (auto intro: ranI)
qed

lemma alGetByTask_law:
  assumes "ixInv own S b" "linkDefined l" "alGetByTask S l b = (r, b')"
  shows "ixInv own S b' \<and> allocs S b' = allocs S b \<and> pends S b' = pends S b \<and>
      (\<forall>a. r = Inr a \<longrightarrow> a \<in> ran (allocs S b) \<and> aLink a = l) \<and> (r = Inl ErrNotFound \<longrightarrow> (\<forall>a\<in>ran (allocs S b). aLink a \<noteq> l))"
  using assms(3) [unfolded alGetByTask_def]
proof (cases rule: sbind_cases)
  case (failed e)
  have "sameViews S b b'" "r = Inl ErrNotFound \<Longrightarrow> tasks S b l = None"
    using gsGet_result(1,3) [OF failed(1)] failed(2) by (simp_all add: sameViews_objects tasks_def)
  with failed(2) ixInv_same [OF this(1) assms(1)] get_task [OF assms(1,2)] show ?thesis
    by (auto simp: sameViews_def)
next
  case (went_on i b1)
  have b1: "objects b1 = objects b" "tasks S b l = Some i"
    using gsGet_result(1,2) [OF went_on(1)] by (simp_all add: tasks_def)
  note v1 = sameViews_objects [OF b1(1), of S]
  from went_on(2) show ?thesis
  proof (cases rule: sbind_cases)
    case (failed e)
    have "objects b' = objects b" "r = Inl ErrNotFound \<Longrightarrow> allocs S b (aDigest i, aSpace i) = None"
      using gsGet_result(1,3) [OF failed(1) [unfolded alGet_def]] failed(2) b1(1) lookup_cong [OF b1(1), of "sAllocs S"] by (simp_all add: allocs_def)
    with sameViews_objects [OF this(1), of S] failed(2) ixInv_same [OF _ assms(1)] get_task [OF assms(1,2)] b1(2) show ?thesis
      by (auto simp: sameViews_def)
  next
    case got: (went_on a b2)
    have b2: "objects b2 = objects b" "allocs S b (aDigest i, aSpace i) = Some a"
      using gsGet_result(1,2) [OF got(1) [unfolded alGet_def]] b1(1) lookup_cong [OF b1(1), of "sAllocs S"] by (simp_all add: allocs_def)
    have "b' = b2" "r = (if aLink a \<noteq> l then Inl ErrNotFound else Inr a)"
      using got(2) by (auto simp: sfail_def sreturn_def split: if_splits)
    with sameViews_objects [OF b2(1), of S] ixInv_same [OF _ assms(1)] get_task [OF assms(1,2)] b1(2) b2(2) show ?thesis
      by (auto simp: sameViews_def intro: ranI)
  qed
qed

lemma alGet_law:
  assumes "ixInv own S b" "alGet S d sp b = (r, b')"
  shows "ixInv own S b' \<and> allocs S b' = allocs S b \<and> pends S b' = pends S b \<and>
      (\<forall>a. r = Inr a \<longrightarrow> allocs S b (d, sp) = Some a) \<and> (r = Inl ErrNotFound \<longrightarrow> allocs S b (d, sp) = None)"
proof -
  note res = gsGet_result [OF assms(2) [unfolded alGet_def]]
  from res(1) have "sameViews S b b'"
    by (rule sameViews_objects)
  with ixInv_same [OF this assms(1)] res(2,3) show ?thesis
    by (auto simp: sameViews_def allocs_def)
qed

lemma alClaim_law:
  assumes S: "storeOK S" and "ixInv own S b" "goodAlloc own a" "alClaim S a b = (r, b')"
  shows "ixInv own S b' \<and> pends S b' = pends S b \<and>
      (\<forall>c. r = Inr c \<longrightarrow> c = (allocs S b (aDigest a, aSpace a) = None) \<and>
        allocs S b' = (if c then (allocs S b)((aDigest a, aSpace a) \<mapsto> a) else allocs S b))"
  using assms(4) [unfolded alClaim_def] assms(2)
proof (cases rule: read_cases [where S = S])
  case (read b1)
  have cur: "lookup (sAllocs S) b (keyOf S a) = allocs S b (aDigest a, aSpace a)"
    by (simp add: allocs_def)
  show ?thesis
  proof (cases "allocs S b (aDigest a, aSpace a)")
    case None
    with read(3) cur have "sbind (alput S (keyOf S a) a) (\<lambda>_. sreturn True) b1 = (r, b')"
      by simp
    then show ?thesis
    proof (cases rule: sbind_cases)
      case (failed e)
      with alput_result [OF S read(2) failed(1) assms(3)] read(1) show ?thesis
        by (auto simp: sameViews_def)
    next
      case (went_on u b2)
      with alput_result [OF S read(2) went_on(1) assms(3)] read(1) None show ?thesis
        by (auto simp: sameViews_def sreturn_def)
    qed
  next
    case (Some x)
    with read cur show ?thesis
      by (auto simp: sreturn_def sameViews_def)
  qed
qed (auto simp: sameViews_def)

lemma alMakeCurrent_law:
  assumes S: "storeOK S" and "ixInv own S b" "linkDefined l" "own l = (d, sp)" "alMakeCurrent S d sp l b = (r, b')"
  shows "ixInv own S b' \<and> pends S b' = pends S b \<and>
      (\<forall>u. r = Inr u \<longrightarrow> allocs S b' = (allocs S b)((d, sp) := map_option (\<lambda>a. a\<lparr>aLink := l\<rparr>) (allocs S b (d, sp))))"
  using assms(5) [unfolded alMakeCurrent_def] assms(2)
proof (cases rule: read_cases [where S = S])
  case (read b1)
  have cur: "lookup (sAllocs S) b (EncodeKey (sFmt S) d sp) = allocs S b (d, sp)"
    by (simp add: allocs_def)
  show ?thesis
  proof (cases "allocs S b (d, sp)")
    case None
    with read cur show ?thesis
      by (auto simp: sreturn_def sameViews_def fun_upd_idem_iff)
  next
    case (Some a)
    have a: "aDigest a = d" "aSpace a = sp" "goodAlloc own (a\<lparr>aLink := l\<rparr>)"
      using assms(2,4) Some by (auto simp: ixInv_def ixViews_def goodAlloc_def)
    show ?thesis
    proof (cases "aLink a = l")
      case True
      with read cur Some show ?thesis
        by (auto simp: sreturn_def sameViews_def fun_upd_idem_iff)
    next
      case False
      with read(3) cur Some a have "alput S (keyOf S (a\<lparr>aLink := l\<rparr>)) (a\<lparr>aLink := l\<rparr>) b1 = (r, b')"
        by simp
      from alput_result [OF S read(2) this a(3)] read(1) Some a(1,2) show ?thesis
        by (cases r) (auto simp: sameViews_def)
    qed
  qed
qed (auto simp: sameViews_def)

lemma alDelete_law:
  assumes S: "storeOK S" and "ixInv own S b" "alDelete S d sp b = (r, b')"
  shows "ixInv own S b' \<and> pends S b' = pends S b \<and> (\<forall>u. r = Inr u \<longrightarrow> allocs S b' = (allocs S b)((d, sp) := None))"
  using assms(3) [unfolded alDelete_def] assms(2)
proof (cases rule: read_cases [where S = S])
  case (read b1)
  have cur: "lookup (sAllocs S) b (EncodeKey (sFmt S) d sp) = allocs S b (d, sp)"
    by (simp add: allocs_def)
  show ?thesis
  proof (cases "allocs S b (d, sp)")
    case None
    with read cur show ?thesis
      by (auto simp: sreturn_def sameViews_def fun_upd_idem_iff)
  next
    case (Some a)
    have a: "aDigest a = d" "aSpace a = sp"
      using assms(2) Some by (auto simp: ixInv_def ixViews_def)
    with read(3) cur Some have "aldelete S (keyOf S a) a b1 = (r, b')"
      by simp
    from aldelete_result [OF S read(2) this] read(1) Some a show ?thesis
      by (cases r) (auto simp: sameViews_def)
  qed
qed (auto simp: sameViews_def)

lemma handOverClaim_law:
  assumes S: "storeOK S" and inv: "ixInv own S b" and cur: "allocs S b (aDigest a, aSpace a) = Some a"
    and ho: "handOverClaim S (keyOf S a) l a b = (r, b')"
  shows "ixInv own S b' \<and> pends S b' = pends S b \<and> (\<forall>u. r = Inr u \<longrightarrow> handOverSpec (pends S b) l a (allocs S b) (allocs S b'))"
  using ho [unfolded handOverClaim_def]
proof (cases rule: sbind_cases)
  case (failed e)
  then obtain e' where "gsGetAnyMatching (sPend S) '''' (otherUpload l a) b = (Inl e', b')"
    by (auto elim: found_cases)
  from gsGetAnyMatching_result [OF this] have "sameViews S b b'"
    by (simp add: sameViews_objects)
  with failed(2) ixInv_same [OF this inv] show ?thesis
    by (simp add: sameViews_def)
next
  case (went_on other b1)
  have "objects b1 = objects b \<and> (case other of
      Some p \<Rightarrow> p \<in> ran (pends S b) \<and> otherUpload l a p
    | None \<Rightarrow> \<forall>p\<in>ran (pends S b). \<not> otherUpload l a p)"
    using went_on(1)
  proof (cases rule: found_cases)
    case absent
    with gsGetAnyMatching_result [OF absent(1)] show ?thesis
      by (auto simp: ran_def pends_def)
  next
    case (present p)
    with gsGetAnyMatching_result [OF present(1)] show ?thesis
      by (auto simp: ran_def pends_def)
  qed simp
  then have b1: "sameViews S b b1" "\<And>p. other = Some p \<Longrightarrow> p \<in> ran (pends S b) \<and> otherUpload l a p"
    "other = None \<Longrightarrow> \<forall>p\<in>ran (pends S b). \<not> otherUpload l a p"
    by (auto intro: sameViews_objects)
  note inv1 = ixInv_same [OF b1(1) inv]
  show ?thesis
  proof (cases other)
    case None
    with went_on(2) have "aldelete S (keyOf S a) a b1 = (r, b')"
      by simp
    from aldelete_result [OF S inv1 this] cur b1 None show ?thesis
      by (cases r) (auto simp: sameViews_def handOverSpec_def)
  next
    case (Some p)
    then obtain q where p: "p \<in> ran (pends S b)" "otherUpload l a p" "pends S b q = Some p"
      using b1(2) by (auto simp: ran_def)
    have "goodAlloc own (handedOver a p)"
      using ixInv_pend [OF inv p(3)] ixInv_alloc [OF inv cur] p(2) by (auto simp: goodPending_def goodAlloc_def handedOver_def otherUpload_def)
    moreover have "alput S (keyOf S (handedOver a p)) (handedOver a p) b1 = (r, b')"
      using went_on(2) Some by (simp add: handedOver_def)
    ultimately show ?thesis
      using alput_result [OF S inv1, of "handedOver a p" r b'] b1(1) p(1,2)
      by (cases r) (auto simp: sameViews_def handOverSpec_def handedOver_def)
  qed
qed

lemma alReleaseByTask_law:
  assumes S: "storeOK S" and inv: "ixInv own S b" and l: "linkDefined l" and rel: "alReleaseByTask S l b = (r, b')"
  shows "ixInv own S b' \<and> pends S b' = pends S b \<and> (\<forall>c. r = Inr c \<longrightarrow> releaseSpec (pends S b) l c (allocs S b) (allocs S b'))"
  using rel [unfolded alReleaseByTask_def] inv
proof (cases rule: read_cases [where S = S])
  case (read b1)
  note ixed = get_task [OF inv l]
  show ?thesis
  proof (cases "tasks S b l")
    case None
    with read show ?thesis
      using ixed by (auto simp: tasks_def sreturn_def sameViews_def releaseSpec_def)
  next
    case (Some i)
    with read(3) have "sbind (found (gsGet (sAllocs S) (keyOf S i))) (\<lambda>cur. case cur of
           None \<Rightarrow> sreturn False
         | Some alloc \<Rightarrow>
             if aLink alloc \<noteq> l then sreturn False
             else sbind (handOverClaim S (keyOf S i) l alloc) (\<lambda>_. sreturn True)) b1 = (r, b')"
      by (simp add: tasks_def)
    then show ?thesis
      using read(2)
    proof (cases rule: read_cases [where S = S])
      case (failed e)
      with read(1) show ?thesis
        by (auto simp: sameViews_def)
    next
      case again: (read b2)
      have b2: "sameViews S b b2" "lookup (sAllocs S) b1 (keyOf S i) = allocs S b (aDigest i, aSpace i)"
        using sameViews_trans [OF read(1) again(1)] read(1) by (auto simp: sameViews_def allocs_def fun_eq_iff)
      show ?thesis
      proof (cases "\<exists>a. allocs S b (aDigest i, aSpace i) = Some a \<and> aLink a = l")
        case False
        then have "r = Inr False" "b' = b2"
          using again(3) b2(2) by (auto simp: sreturn_def split: option.splits)
        with False b2 again(2) ixed Some show ?thesis
          by (auto simp: sameViews_def releaseSpec_def)
      next
        case True
        then obtain a where a: "allocs S b (aDigest i, aSpace i) = Some a" "aLink a = l"
          by blast
        then have at: "aDigest a = aDigest i" "aSpace a = aSpace i" "allocs S b2 (aDigest a, aSpace a) = Some a"
          using ixInv_alloc [OF inv a(1)] b2(1) by (auto simp: sameViews_def)
        have "sbind (handOverClaim S (keyOf S a) l a) (\<lambda>_. sreturn True) b2 = (r, b')"
          using again(3) b2(2) a at(1,2) by simp
        then show ?thesis
        proof (cases rule: sbind_cases)
          case (failed e)
          with handOverClaim_law [OF S again(2) at(3) failed(1)] b2(1) show ?thesis
            by (auto simp: sameViews_def)
        next
          case (went_on u b3)
          with handOverClaim_law [OF S again(2) at(3) went_on(1)] b2(1) a show ?thesis
            by (auto simp: sameViews_def sreturn_def releaseSpec_def intro: ranI)
        qed
      qed
    qed
  qed
qed (auto simp: sameViews_def)

lemma alReleasePending_law:
  assumes S: "storeOK S" and inv: "ixInv own S b" and good: "goodPending own p0" and rel: "alReleasePending S p0 b = (r, b')"
  shows "ixInv own S b' \<and>
      (\<forall>p. r = Inr p \<longrightarrow> p = (case pends S b (pLink p0) of None \<Rightarrow> p0 | Some l \<Rightarrow> l) \<and> pends S b' = (pends S b)(pLink p0 := None) \<and>
        (case allocs S b (pDigest p, pSpace p) of
          Some a \<Rightarrow> if pDigest p \<noteq> [] \<and> aLink a = pLink p0 then handOverSpec (pends S b) (pLink p0) a (allocs S b) (allocs S b')
            else allocs S b' = allocs S b
        | None \<Rightarrow> allocs S b' = allocs S b))"
  using rel [unfolded alReleasePending_def GetPending_def] inv
proof (cases rule: read_cases [where S = S])
  case (read b1)
  define p where "p = (case pends S b (pLink p0) of None \<Rightarrow> p0 | Some l \<Rightarrow> l)"
  have link: "pLink p = pLink p0"
    using ixInv_pend [OF inv] by (auto simp: p_def split: option.splits)
  define claimStep where "claimStep = (if pDigest p = [] then sreturn ()
      else sbind (found (gsGet (sAllocs S) (EncodeKey (sFmt S) (pDigest p) (pSpace p)))) (\<lambda>cur. case cur of
        None \<Rightarrow> sreturn ()
      | Some alloc \<Rightarrow> if aLink alloc = pLink p then handOverClaim S (EncodeKey (sFmt S) (pDigest p) (pSpace p)) (pLink p) alloc else sreturn ()))"
  have step: "sbind claimStep (\<lambda>_. sbind (DeletePending S (pLink p)) (\<lambda>_. sreturn p)) b1 = (r, b')"
    using read(3) unfolding claimStep_def p_def pends_def Let_def .
  have claim: "ixInv own S b2 \<and> pends S b2 = pends S b \<and> (\<forall>u. c = Inr u \<longrightarrow>
      (case allocs S b (pDigest p, pSpace p) of
          Some a \<Rightarrow> if pDigest p \<noteq> [] \<and> aLink a = pLink p0 then handOverSpec (pends S b) (pLink p0) a (allocs S b) (allocs S b2)
            else allocs S b2 = allocs S b
        | None \<Rightarrow> allocs S b2 = allocs S b))" if c: "claimStep b1 = (c, b2)" for c b2
  proof (cases "pDigest p = []")
    case True
    then show ?thesis
      using c read(1,2) by (auto simp: claimStep_def sreturn_def sameViews_def split: option.split)
  next
    case False
    note c' = c [unfolded claimStep_def if_not_P [OF False]]
    from c' read(2) show ?thesis
    proof (cases rule: read_cases [where S = S])
      case (failed e)
      with read(1) show ?thesis
        by (auto simp: sameViews_def)
    next
      case again: (read b3)
      have b3: "sameViews S b b3" "lookup (sAllocs S) b1 (EncodeKey (sFmt S) (pDigest p) (pSpace p)) = allocs S b (pDigest p, pSpace p)"
        using sameViews_trans [OF read(1) again(1)] read(1) by (auto simp: sameViews_def allocs_def fun_eq_iff)
      show ?thesis
      proof (cases "\<exists>a. allocs S b (pDigest p, pSpace p) = Some a \<and> aLink a = pLink p0")
        case False
        then have "c = Inr ()" "b2 = b3"
          using again(3) b3(2) link by (auto simp: sreturn_def split: option.splits)
        with False b3(1) again(2) show ?thesis
          by (auto simp: sameViews_def split: option.split)
      next
        case True
        then obtain a where a: "allocs S b (pDigest p, pSpace p) = Some a" "aLink a = pLink p0"
          by blast
        then have at: "aDigest a = pDigest p" "aSpace a = pSpace p" "allocs S b3 (aDigest a, aSpace a) = Some a"
          using ixInv_alloc [OF inv a(1)] b3(1) by (auto simp: sameViews_def)
        have "handOverClaim S (keyOf S a) (pLink p0) a b3 = (c, b2)"
          using again(3) b3(2) a at(1,2) link by simp
        from handOverClaim_law [OF S again(2) at(3) this] b3(1) a False show ?thesis
          by (auto simp: sameViews_def)
      qed
    qed
  qed
  from step show ?thesis
  proof (cases rule: sbind_cases)
    case (failed e)
    with claim [OF failed(1)] show ?thesis
      by simp
  next
    case (went_on u b2)
    note c = claim [OF went_on(1)]
    from went_on(2) show ?thesis
    proof (cases rule: sbind_cases)
      case (failed e)
      with delete_pend_views [OF S failed(1) [unfolded DeletePending_def]] c ixInv_same [of S b2 b' own] show ?thesis
        by simp
    next
      case del: (went_on u' b3)
      have v: "allocs S b3 = allocs S b2" "tasks S b3 = tasks S b2" "pends S b3 = (pends S b)(pLink p0 := None)" "b' = b3" "r = Inr p"
        using delete_pend_views [OF S del(1) [unfolded DeletePending_def]] c del(2) link by (auto simp: sreturn_def)
      then have "ixInv own S b'"
        using c ixViews_unpend [of own "allocs S b2" "tasks S b2" "pends S b2" "pLink p0"] by (auto simp: ixInv_def)
      with v c show ?thesis
        unfolding p_def [symmetric] by (auto split: option.splits)
    qed
  qed
qed auto

lemma PutPending_law:
  assumes S: "storeOK S" and inv: "ixInv own S b" and "goodPending own p" "PutPending S p b = (r, b')"
  shows "ixInv own S b' \<and> allocs S b' = allocs S b \<and> (\<forall>u. r = Inr u \<longrightarrow> pends S b' = (pends S b)(pLink p \<mapsto> p))"
  using put_pend_views [OF S assms(4) [unfolded PutPending_def]] ixInv_same [OF _ inv] inv ixViews_pend [OF _ assms(3)]
  by (cases r) (auto simp: sameViews_def ixInv_def)

lemma datastore_contract:
  "allocation_store own (\<lambda>b. storeOK S \<and> ixInv own S b) (allocs S) (pends S) (alGet S) (alGetByTask S) (alClaim S) (alMakeCurrent S)
    (alDelete S) (alReleaseByTask S) (PutPending S) (alReleasePending S)"
proof (rule allocation_store.intro, goal_cases)
  case (1 s k a)
  then show ?case
    using ixInv_alloc [of own S s k a] by simp
next
  case (2 s l p)
  then show ?case
    using ixInv_pend [of own S s l p] by simp
next
  case (3 s d sp r s')
  then show ?case
    using alGet_law [of own S s d sp r s'] by simp
next
  case (4 s l r s')
  then show ?case
    using alGetByTask_law [of own S s l r s'] by simp
next
  case (5 s a r s')
  then show ?case
    using alClaim_law [of S own s a r s'] by simp
next
  case (6 s l d sp r s')
  then show ?case
    using alMakeCurrent_law [of S own s l d sp r s'] by simp
next
  case (7 s d sp r s')
  then show ?case
    using alDelete_law [of S own s d sp r s'] by simp
next
  case (8 s l r s')
  then show ?case
    using alReleaseByTask_law [of S own s l r s'] by simp
next
  case (9 s p r s')
  then show ?case
    using PutPending_law [of S own s p r s'] by simp
next
  case (10 s p0 r s')
  then show ?case
    using alReleasePending_law [of S own s p0 r s'] by simp
qed

interpretation ds: allocation_store own "\<lambda>b. storeOK S \<and> ixInv own S b" "allocs S" "pends S" "alGet S" "alGetByTask S" "alClaim S"
  "alMakeCurrent S" "alDelete S" "alReleaseByTask S" "PutPending S" "alReleasePending S" for own S
  by (rule datastore_contract)

section \<open>Runs with failures\<close>

text \<open>
  The operations on the store in any order, each with any result, and new failures at any time. A task's link is
  made current only for its own blob and space.
\<close>

inductive alStep :: "(cid \<Rightarrow> bytes \<times> space) \<Rightarrow> allocStore \<Rightarrow> backend \<Rightarrow> backend \<Rightarrow> bool"
  for own :: "cid \<Rightarrow> bytes \<times> space" and S :: allocStore where
  put: "goodAlloc own a \<Longrightarrow> alPut S a b = (r, b') \<Longrightarrow> alStep own S b b'"
| claim: "goodAlloc own a \<Longrightarrow> alClaim S a b = (r, b') \<Longrightarrow> alStep own S b b'"
| makeCurrent: "linkDefined l \<Longrightarrow> own l = (d, sp) \<Longrightarrow> alMakeCurrent S d sp l b = (r, b') \<Longrightarrow> alStep own S b b'"
| delete: "alDelete S d sp b = (r, b') \<Longrightarrow> alStep own S b b'"
| releaseByTask: "linkDefined l \<Longrightarrow> alReleaseByTask S l b = (r, b') \<Longrightarrow> alStep own S b b'"
| putPending: "goodPending own p \<Longrightarrow> PutPending S p b = (r, b') \<Longrightarrow> alStep own S b b'"
| deletePending: "DeletePending S l b = (r, b') \<Longrightarrow> alStep own S b b'"
| releasePending: "goodPending own p \<Longrightarrow> alReleasePending S p b = (r, b') \<Longrightarrow> alStep own S b b'"
| newFaults: "alStep own S b (b\<lparr>faults := fs\<rparr>)"

lemma alStep_ixInv:
  assumes "alStep own S b b'" "storeOK S" "ixInv own S b"
  shows "ixInv own S b'"
  using assms(1)
proof cases
  case (put a r)
  with alput_result [OF assms(2,3), of a r b'] show ?thesis
    by (simp add: alPut_def)
next
  case (deletePending l r)
  with delete_pend_views [OF assms(2), of l b r b'] assms(3) ixInv_same [OF _ assms(3)] ixViews_unpend show ?thesis
    by (cases r) (auto simp: DeletePending_def ixInv_def)
next
  case (newFaults fs)
  with ixInv_same [OF sameViews_objects assms(3), of b'] show ?thesis
    by simp
next
  case (claim a r)
  with alClaim_law [OF assms(2,3)] show ?thesis
    by simp
next
  case (makeCurrent l d sp r)
  with alMakeCurrent_law [OF assms(2,3)] show ?thesis
    by simp
next
  case (delete d sp r)
  with alDelete_law [OF assms(2,3)] show ?thesis
    by simp
next
  case (releaseByTask l r)
  with alReleaseByTask_law [OF assms(2,3)] show ?thesis
    by simp
next
  case (putPending p r)
  with PutPending_law [OF assms(2,3)] show ?thesis
    by simp
next
  case (releasePending p r)
  with alReleasePending_law [OF assms(2,3)] show ?thesis
    by simp
qed

lemma alSteps_ixInv: "(alStep own S)\<^sup>*\<^sup>* b b' \<Longrightarrow> storeOK S \<Longrightarrow> ixInv own S b \<Longrightarrow> ixInv own S b'"
  by (induction rule: rtranclp_induct) (auto intro: alStep_ixInv)

lemma gsGet_no_faults:
  assumes "faults b = []" "lookup g b key = Some v"
  shows "gsGet g key b = (Inr v, b)"
  using assms by (auto simp: gsGet_def sbind_def backendGet_def call_no_faults decoded_def sreturn_def lookup_def bind_eq_Some_conv)

section \<open>Properties\<close>



section \<open>Witnesses\<close>

text \<open>A string form of digests with the properties of \<open>digestutil.Format\<close>: each byte in unary.\<close>

definition unaryFmt :: "bytes \<Rightarrow> string" where
  "unaryFmt d = CHR ''z'' # concat (map (\<lambda>w. replicate (unat w) CHR ''a'' @ [CHR ''b'']) d)"

lemma unaryFmt_ok: "fmtOK unaryFmt"
proof -
  define f where "f = (\<lambda>d :: bytes. concat (map (\<lambda>w. replicate (unat w) CHR ''a'' @ [CHR ''b'']) d))"
  have "d = d'" if "f d = f d'" for d d'
    using that
  proof (induction d arbitrary: d')
    case Nil
    then show ?case
      by (cases d') (simp_all add: f_def)
  next
    case (Cons w d)
    then obtain w' d'' where d': "d' = w' # d''"
      by (cases d') (auto simp: f_def)
    have "CHR ''b'' \<notin> set (replicate n CHR ''a'')" for n
      by simp
    from split_at_separator [OF this this, of "unat w" "f d" "unat w'" "f d''"] Cons.prems Cons.IH [of d''] show ?case
      by (simp add: d' f_def word_unat_eq_iff)
  qed
  moreover have "unaryFmt d = CHR ''z'' # f d" for d
    by (simp add: unaryFmt_def f_def)
  moreover have "CHR ''/'' \<notin> set (unaryFmt d)" for d
    by (auto simp: unaryFmt_def split: if_splits)
  ultimately show ?thesis
    by (auto simp: fmtOK_def inj_def)
qed

definition sampleAlloc :: "cid \<Rightarrow> Allocation" where
  "sampleAlloc l = \<lparr>aSpace = ''did:key:s'', aDigest = [18, 32], aSize = 4, aExpires = 100, aCause = ''bcause'', aLink = l\<rparr>"

definition samplePending :: "cid \<Rightarrow> Pending" where
  "samplePending l = \<lparr>pLink = l, pSpace = ''did:key:s'', pSize = 4, pCode = 18, pCause = ''bcause'', pExpires = 100,
     pUpload = ''u'', pDigest = [18, 32]\<rparr>"

text \<open>A coding of two allocations and two allocations without a digest.\<close>

definition sampleStore :: allocStore where
  "sampleStore = NewAllocStore
     (\<lambda>a. if a = sampleAlloc ''b1'' then Some [1] else if a = sampleAlloc ''b2'' then Some [2] else None)
     (\<lambda>d. if d = [1] then Some (sampleAlloc ''b1'') else if d = [2] then Some (sampleAlloc ''b2'') else None)
     (\<lambda>p. if p = samplePending ''b1'' then Some [1] else if p = samplePending ''b2'' then Some [2] else None)
     (\<lambda>d. if d = [1] then Some (samplePending ''b1'') else if d = [2] then Some (samplePending ''b2'') else None) unaryFmt"

lemma sampleStore_ok: "storeOK sampleStore"
  by (simp add: storeOK_def sampleStore_def NewAllocStore_def codecOK_def unaryFmt_ok sampleAlloc_def samplePending_def)

definition noObjects :: backend where
  "noObjects = \<lparr>objects = [], faults = []\<rparr>"

lemma noObjects_views: "allocs S noObjects k = None" "tasks S noObjects l = None" "pends S noObjects l = None"
  by (simp_all add: allocs_def tasks_def pends_def lookup_def noObjects_def)

lemma noObjects_ixInv: "ixInv own S noObjects"
  by (simp add: ixInv_def ixViews_def noObjects_views)

definition sampleOwn :: "cid \<Rightarrow> bytes \<times> space" where
  "sampleOwn l = ([18, 32], ''did:key:s'')"

lemma sample_good [simp]: "goodAlloc sampleOwn (sampleAlloc l)" "l \<noteq> ''b'' \<Longrightarrow> goodPending sampleOwn (samplePending l)"
  by (simp_all add: goodAlloc_def goodPending_def sampleAlloc_def samplePending_def sampleOwn_def linkDefined_def)

text \<open>The second allocation replaces the first, and the removal of the first one's index entry fails.\<close>

definition interrupted :: backend where
  "interrupted = snd (alPut sampleStore (sampleAlloc ''b2'')
     ((snd (alPut sampleStore (sampleAlloc ''b1'') noObjects))\<lparr>faults := [False, False, False, True]\<rparr>))"

lemma interrupted_steps: "(alStep sampleOwn sampleStore)\<^sup>*\<^sup>* noObjects interrupted"
proof -
  define b1 where "b1 = snd (alPut sampleStore (sampleAlloc ''b1'') noObjects)"
  define b2 where "b2 = b1\<lparr>faults := [False, False, False, True]\<rparr>"
  have "alStep sampleOwn sampleStore noObjects b1"
    by (rule alStep.put [where a = "sampleAlloc ''b1''" and r = "fst (alPut sampleStore (sampleAlloc ''b1'') noObjects)"]) (simp_all add: b1_def)
  moreover have "alStep sampleOwn sampleStore b1 b2"
    unfolding b2_def by (rule alStep.newFaults)
  moreover have "alStep sampleOwn sampleStore b2 interrupted"
    by (rule alStep.put [where a = "sampleAlloc ''b2''" and r = "fst (alPut sampleStore (sampleAlloc ''b2'') b2)"])
      (simp_all add: b1_def b2_def interrupted_def)
  ultimately show ?thesis
    by (meson converse_rtranclp_into_rtranclp rtranclp.rtrancl_refl)
qed

lemma interrupted_current: "allocs sampleStore interrupted ([18, 32], ''did:key:s'') = Some (sampleAlloc ''b2'')"
  by code_simp


text \<open>Two received uploads of the same content in one space, the first of them holding the claim.\<close>

definition twoUploads :: backend where
  "twoUploads = snd (PutPending sampleStore (samplePending ''b2'')
     (snd (PutPending sampleStore (samplePending ''b1'') (snd (alPut sampleStore (sampleAlloc ''b1'') noObjects)))))"

definition oneReleased :: backend where
  "oneReleased = snd (alReleasePending sampleStore (samplePending ''b1'') twoUploads)"

lemma twoUploads_ixInv: "ixInv sampleOwn sampleStore twoUploads"
proof -
  define b1 where "b1 = snd (alPut sampleStore (sampleAlloc ''b1'') noObjects)"
  define b2 where "b2 = snd (PutPending sampleStore (samplePending ''b1'') b1)"
  have "alStep sampleOwn sampleStore noObjects b1"
    by (rule alStep.put [where a = "sampleAlloc ''b1''" and r = "fst (alPut sampleStore (sampleAlloc ''b1'') noObjects)"]) (simp_all add: b1_def)
  moreover have "alStep sampleOwn sampleStore b1 b2"
    by (rule alStep.putPending [where p = "samplePending ''b1''" and r = "fst (PutPending sampleStore (samplePending ''b1'') b1)"]) (simp_all add: b2_def)
  moreover have "alStep sampleOwn sampleStore b2 twoUploads"
    by (rule alStep.putPending [where p = "samplePending ''b2''" and r = "fst (PutPending sampleStore (samplePending ''b2'') b2)"])
      (simp_all add: b1_def b2_def twoUploads_def)
  ultimately show ?thesis
    using alStep_ixInv [OF _ sampleStore_ok] noObjects_ixInv by blast
qed

lemma oneReleased_eq: "alReleasePending sampleStore (samplePending ''b1'') twoUploads = (Inr (samplePending ''b1''), oneReleased)"
proof -
  have "fst (alReleasePending sampleStore (samplePending ''b1'') twoUploads) = Inr (samplePending ''b1'')"
    by code_simp
  then show ?thesis
    by (simp add: oneReleased_def prod_eq_iff)
qed

lemma twoUploads_covered:
  "\<forall>q\<in>ran (pends sampleStore twoUploads). pDigest q \<noteq> [] \<longrightarrow> allocs sampleStore twoUploads (pDigest q, pSpace q) \<noteq> None"
proof -
  have "q = samplePending ''b1'' \<or> q = samplePending ''b2''" if "q \<in> ran (pends sampleStore twoUploads)" for q
    using that by (auto simp: ran_def pends_def lookup_def sampleStore_def NewAllocStore_def bind_eq_Some_conv split: if_splits)
  moreover have "allocs sampleStore twoUploads ([18, 32], ''did:key:s'') = Some (sampleAlloc ''b1'')"
    by code_simp
  moreover have "pDigest (samplePending l) = [18, 32]" "pSpace (samplePending l) = ''did:key:s''" for l
    by (simp_all add: samplePending_def)
  ultimately show ?thesis
    by fastforce
qed


end
