(* ===== verification/Sql_Tables.thy ===== *)
theory Sql_Tables
  imports Generic_Store
begin

text \<open>
  Tables of a PostgreSQL database as lists of rows with a primary key, and the transactions of
  \<open>pkg/database/harmonytx/harmonytx.go\<close>.
\<close>

section \<open>Tables\<close>

text \<open>The row with a given key, and \<open>INSERT ... ON CONFLICT DO UPDATE\<close>, \<open>UPDATE\<close> and \<open>DELETE\<close> by key.\<close>

definition rowAt :: "('r \<Rightarrow> 'k) \<Rightarrow> 'r list \<Rightarrow> 'k \<rightharpoonup> 'r" where
  "rowAt f rows k = find (\<lambda>r. f r = k) rows"

definition updateAt :: "('r \<Rightarrow> 'k) \<Rightarrow> 'k \<Rightarrow> ('r \<Rightarrow> 'r) \<Rightarrow> 'r list \<Rightarrow> 'r list" where
  "updateAt f k g rows = map (\<lambda>r. if f r = k then g r else r) rows"

definition upsert :: "('r \<Rightarrow> 'k) \<Rightarrow> 'r \<Rightarrow> 'r list \<Rightarrow> 'r list" where
  "upsert f r rows = (if rowAt f rows (f r) \<noteq> None then updateAt f (f r) (\<lambda>_. r) rows else rows @ [r])"

definition deleteAt :: "('r \<Rightarrow> 'k) \<Rightarrow> 'k \<Rightarrow> 'r list \<Rightarrow> 'r list" where
  "deleteAt f k rows = filter (\<lambda>r. f r \<noteq> k) rows"

lemma rowAt_SomeD: "rowAt f rows k = Some r \<Longrightarrow> r \<in> set rows \<and> f r = k"
  unfolding rowAt_def by (drule find_SomeD) simp

lemma rowAt_None: "rowAt f rows k = None \<longleftrightarrow> k \<notin> f ` set rows"
  by (auto simp: rowAt_def find_None_iff image_iff)

lemma rowAt_key: "distinct (map f rows) \<Longrightarrow> r \<in> set rows \<Longrightarrow> rowAt f rows (f r) = Some r"
  by (simp add: rowAt_def find_key_distinct)

lemma ran_rowAt: "distinct (map f rows) \<Longrightarrow> ran (rowAt f rows) = set rows"
  by (auto simp: ran_def dest: rowAt_SomeD) (metis rowAt_key)

lemma rowAt_updateAt:
  assumes "\<And>r. f (g r) = f r"
  shows "rowAt f (updateAt f k g rows) = (rowAt f rows)(k := map_option g (rowAt f rows k))"
proof
  fix j
  have "rowAt f (updateAt f k g rows) j = map_option (\<lambda>r. if f r = k then g r else r) (rowAt f rows j)"
    unfolding rowAt_def updateAt_def by (rule find_key_map) (simp add: assms)
  then show "rowAt f (updateAt f k g rows) j = ((rowAt f rows)(k := map_option g (rowAt f rows k))) j"
    by (cases "rowAt f rows j") (auto dest: rowAt_SomeD)
qed

lemma rowAt_replaceAt: "rowAt f (updateAt f (f r) (\<lambda>_. r) rows) = (rowAt f rows)(f r := map_option (\<lambda>_. r) (rowAt f rows (f r)))"
  by (induction rows) (auto simp: rowAt_def updateAt_def fun_eq_iff)

lemma rowAt_upsert: "rowAt f (upsert f r rows) = (rowAt f rows)(f r \<mapsto> r)"
proof (cases "rowAt f rows (f r)")
  case None
  then show ?thesis
    by (auto simp: upsert_def rowAt_def find_snoc fun_eq_iff split: option.split)
next
  case (Some x)
  then show ?thesis
    by (simp add: upsert_def rowAt_replaceAt)
qed

lemma rowAt_deleteAt: "rowAt f (deleteAt f k rows) = (rowAt f rows)(k := None)"
  by (simp add: rowAt_def deleteAt_def find_key_filter fun_eq_iff)

lemma distinct_updateAt: "(\<And>r. f r = k \<Longrightarrow> f (g r) = k) \<Longrightarrow> distinct (map f rows) \<Longrightarrow> distinct (map f (updateAt f k g rows))"
proof -
  assume "\<And>r. f r = k \<Longrightarrow> f (g r) = k"
  then have "map f (updateAt f k g rows) = map f rows"
    by (simp add: updateAt_def)
  then show "distinct (map f rows) \<Longrightarrow> distinct (map f (updateAt f k g rows))"
    by simp
qed

lemma distinct_upsert: "distinct (map f rows) \<Longrightarrow> distinct (map f (upsert f r rows))"
  using distinct_updateAt [of f "f r" "\<lambda>_. r" rows] rowAt_None [of f rows "f r"] by (simp add: upsert_def)

lemma distinct_deleteAt: "distinct (map f rows) \<Longrightarrow> distinct (map f (deleteAt f k rows))"
  by (simp add: deleteAt_def distinct_map_filter)

lemma set_updateAt: "set (updateAt f k g rows) \<subseteq> g ` {r \<in> set rows. f r = k} \<union> set rows"
  by (auto simp: updateAt_def)

lemma set_upsert: "set (upsert f r rows) \<subseteq> insert r (set rows)"
  by (auto simp: upsert_def updateAt_def)

lemma set_deleteAt: "set (deleteAt f k rows) = {r \<in> set rows. f r \<noteq> k}"
  by (auto simp: deleteAt_def)

section \<open>Transactions\<close>

text \<open>
  \<open>Run\<close>: an operation inside a caller's transaction (\<open>joined\<close>) is part of it; outside it opens its own, which
  commits if the operation succeeds and is rolled back otherwise. \<open>ok\<close> is false if a statement or the commit
  fails. A serialization failure is retried and leaves no trace.
\<close>

definition Run :: "bool \<Rightarrow> bool \<Rightarrow> ('s, 'a) op \<Rightarrow> ('s, 'a) op" where
  "Run joined ok f s =
     (if \<not> ok then (Inl BackendError, s)
      else (case f s of (Inl e, s') \<Rightarrow> (Inl e, if joined then s' else s) | (Inr x, s') \<Rightarrow> (Inr x, s')))"

lemma Run_cases:
  assumes "Run joined ok f s = (r, s')"
  obtains (failed) e where "r = Inl e" "s' = s" "e = BackendError \<or> (\<exists>t. f s = (Inl e, t))"
  | (partial) e where "joined" "r = Inl e" "f s = (Inl e, s')"
  | (committed) x where "r = Inr x" "f s = (Inr x, s')"
  using assms by (auto simp: Run_def split: if_splits prod.splits sum.splits)

end
