(* ===== verification/Allocation_Postgres.thy ===== *)
theory Allocation_Postgres
  imports Allocation_Store Sql_Tables "HOL-Library.List_Lexorder" "HOL-Library.Char_ord"
begin

text \<open>
  The allocation store on PostgreSQL, \<open>pkg/store/allocationstore/postgres.go\<close>. It keeps the contract of the
  datastore's store. Row locks and advisory locks make concurrent changes of a row follow one another, so a
  transaction is one step here. Of several rows that match a query with \<open>LIMIT 1\<close> the database picks one: the
  parameter \<open>pick\<close>. A link that is not defined is stored as \<open>NULL\<close>, which equals nothing.
\<close>

section \<open>Operations\<close>

record ucanTables =
  ucan_allocations :: "Allocation list"
  ucan_pending :: "Pending list"

abbreviation allocKey :: "Allocation \<Rightarrow> bytes \<times> space" where
  "allocKey a \<equiv> (aDigest a, aSpace a)"

definition scanRow :: "'a option \<Rightarrow> ('s, 'a) op" where
  "scanRow row = (case row of None \<Rightarrow> sfail ErrNotFound | Some a \<Rightarrow> sreturn a)"

definition pgGet :: "bool \<Rightarrow> bool \<Rightarrow> bytes \<Rightarrow> space \<Rightarrow> ('z ucanTables_scheme, Allocation) op" where
  "pgGet j ok d sp = Run j ok (\<lambda>s. scanRow (rowAt allocKey (ucan_allocations s) (d, sp)) s)"

definition pgGetAnyNonExpired :: "(Allocation list \<Rightarrow> Allocation) \<Rightarrow> bool \<Rightarrow> bool \<Rightarrow> bytes \<Rightarrow> int \<Rightarrow> ('z ucanTables_scheme, Allocation) op" where
  "pgGetAnyNonExpired pickA j ok d now = Run j ok (\<lambda>s.
     let rows = filter (\<lambda>a. aDigest a = d \<and> aExpires a > now) (ucan_allocations s)
     in scanRow (if rows = [] then None else Some (pickA rows)) s)"

definition pgExists :: "bool \<Rightarrow> bool \<Rightarrow> bytes \<Rightarrow> ('z ucanTables_scheme, bool) op" where
  "pgExists j ok d = Run j ok (\<lambda>s. sreturn (\<exists>a\<in>set (ucan_allocations s). aDigest a = d) s)"

definition pgPut :: "bool \<Rightarrow> bool \<Rightarrow> Allocation \<Rightarrow> ('z ucanTables_scheme, unit) op" where
  "pgPut j ok a = Run j ok (\<lambda>s. (Inr (), s\<lparr>ucan_allocations := upsert allocKey a (ucan_allocations s)\<rparr>))"

definition pgClaim :: "bool \<Rightarrow> bool \<Rightarrow> Allocation \<Rightarrow> ('z ucanTables_scheme, bool) op" where
  "pgClaim j ok a = Run j ok (\<lambda>s.
     if rowAt allocKey (ucan_allocations s) (allocKey a) = None
     then (Inr True, s\<lparr>ucan_allocations := ucan_allocations s @ [a]\<rparr>) else (Inr False, s))"

definition pgMakeCurrent :: "bool \<Rightarrow> bool \<Rightarrow> bytes \<Rightarrow> space \<Rightarrow> cid \<Rightarrow> ('z ucanTables_scheme, unit) op" where
  "pgMakeCurrent j ok d sp link = Run j ok (\<lambda>s.
     (Inr (), s\<lparr>ucan_allocations := updateAt allocKey (d, sp) (\<lambda>a. a\<lparr>aLink := link\<rparr>) (ucan_allocations s)\<rparr>))"

definition pgDelete :: "bool \<Rightarrow> bool \<Rightarrow> bytes \<Rightarrow> space \<Rightarrow> ('z ucanTables_scheme, unit) op" where
  "pgDelete j ok d sp = Run j ok (\<lambda>s. (Inr (), s\<lparr>ucan_allocations := deleteAt allocKey (d, sp) (ucan_allocations s)\<rparr>))"

text \<open>The query \<open>WHERE allocation = $1\<close>.\<close>

definition byLink :: "cid \<Rightarrow> Allocation list \<Rightarrow> Allocation option" where
  "byLink link rows = find (\<lambda>a. linkDefined (aLink a) \<and> aLink a = link) rows"

definition pgGetByTask :: "bool \<Rightarrow> bool \<Rightarrow> cid \<Rightarrow> ('z ucanTables_scheme, Allocation) op" where
  "pgGetByTask j ok link = Run j ok (\<lambda>s. scanRow (byLink link (ucan_allocations s)) s)"

definition pgListSpaces :: "bool \<Rightarrow> bool \<Rightarrow> bytes \<Rightarrow> ('z ucanTables_scheme, space list) op" where
  "pgListSpaces j ok d = Run j ok (\<lambda>s. sreturn (map aSpace (filter (\<lambda>a. aDigest a = d) (ucan_allocations s))) s)"

definition pgHandOverClaim :: "(Pending list \<Rightarrow> Pending) \<Rightarrow> cid \<Rightarrow> Allocation \<Rightarrow> 'z ucanTables_scheme \<Rightarrow> 'z ucanTables_scheme" where
  "pgHandOverClaim pick released a s =
     (let others = filter (\<lambda>p. pDigest p = aDigest a \<and> pSpace p = aSpace a \<and> pLink p \<noteq> released) (ucan_pending s)
      in if others = [] then s\<lparr>ucan_allocations := deleteAt allocKey (allocKey a) (ucan_allocations s)\<rparr>
         else s\<lparr>ucan_allocations := updateAt allocKey (allocKey a) (\<lambda>x. handedOver x (pick others)) (ucan_allocations s)\<rparr>)"

definition pgReleaseByTask :: "(Pending list \<Rightarrow> Pending) \<Rightarrow> bool \<Rightarrow> bool \<Rightarrow> cid \<Rightarrow> ('z ucanTables_scheme, bool) op" where
  "pgReleaseByTask pick j ok link = Run j ok (\<lambda>s.
     case byLink link (ucan_allocations s) of
       None \<Rightarrow> (Inr False, s)
     | Some a \<Rightarrow> (Inr True, pgHandOverClaim pick link a s))"

definition pgPutPending :: "bool \<Rightarrow> bool \<Rightarrow> Pending \<Rightarrow> ('z ucanTables_scheme, unit) op" where
  "pgPutPending j ok p = Run j ok (\<lambda>s. (Inr (), s\<lparr>ucan_pending := upsert pLink p (ucan_pending s)\<rparr>))"

definition pgGetPending :: "bool \<Rightarrow> bool \<Rightarrow> cid \<Rightarrow> ('z ucanTables_scheme, Pending) op" where
  "pgGetPending j ok link = Run j ok (\<lambda>s. scanRow (rowAt pLink (ucan_pending s) link) s)"

definition pgDeletePending :: "bool \<Rightarrow> bool \<Rightarrow> cid \<Rightarrow> ('z ucanTables_scheme, unit) op" where
  "pgDeletePending j ok link = Run j ok (\<lambda>s. (Inr (), s\<lparr>ucan_pending := deleteAt pLink link (ucan_pending s)\<rparr>))"

definition pgReleasePending :: "(Pending list \<Rightarrow> Pending) \<Rightarrow> bool \<Rightarrow> bool \<Rightarrow> Pending \<Rightarrow> ('z ucanTables_scheme, Pending) op" where
  "pgReleasePending pick j ok p0 = Run j ok (\<lambda>s.
     let p = (case rowAt pLink (ucan_pending s) (pLink p0) of None \<Rightarrow> p0 | Some l \<Rightarrow> l);
         s1 = (if pDigest p = [] then s
               else (case rowAt allocKey (ucan_allocations s) (pDigest p, pSpace p) of
                 None \<Rightarrow> s
               | Some a \<Rightarrow> if aLink a = pLink p then pgHandOverClaim pick (pLink p) a s else s))
     in (Inr p, s1\<lparr>ucan_pending := deleteAt pLink (pLink p) (ucan_pending s1)\<rparr>))"

text \<open>
  \<open>listPending\<close> reads a page of at most \<open>page\<close> rows after the last one it has seen, ordered by link; the table is
  what it is when each page is read. Here it is unchanged while the caller iterates.
\<close>

definition pendingPage :: "nat \<Rightarrow> (Pending \<Rightarrow> bool) \<Rightarrow> Pending list \<Rightarrow> cid \<Rightarrow> Pending list" where
  "pendingPage page want rows after = take page (sort_key pLink (filter (\<lambda>p. after < pLink p \<and> want p) rows))"

lemma pendingPage_set: "p \<in> set (pendingPage page want rows after) \<Longrightarrow> p \<in> set rows \<and> after < pLink p \<and> want p"
  unfolding pendingPage_def by (drule in_set_takeD) simp

function listPages :: "nat \<Rightarrow> (Pending \<Rightarrow> bool) \<Rightarrow> Pending list \<Rightarrow> cid \<Rightarrow> Pending list" where
  "listPages page want rows after =
     (let ps = pendingPage page want rows after
      in if length ps < page \<or> page = 0 then ps else ps @ listPages page want rows (pLink (last ps)))"
  by pat_completeness auto

termination
proof (relation "measure (\<lambda>(page, want, rows, after). length (filter (\<lambda>p. after < pLink p \<and> want p) rows))")
  fix page want rows after ps
  assume ps: "ps = pendingPage page want rows after" "\<not> (length ps < page \<or> page = 0)"
  then have "last ps \<in> set ps"
    by (intro last_in_set) auto
  then have last: "last ps \<in> set rows" "after < pLink (last ps)" "want (last ps)"
    using pendingPage_set [of "last ps" page want rows after] ps(1) by auto
  have "filter (\<lambda>p. pLink (last ps) < pLink p \<and> want p) rows =
      filter (\<lambda>p. pLink (last ps) < pLink p) (filter (\<lambda>p. after < pLink p \<and> want p) rows)"
    using last(2) by (auto intro!: filter_cong dest: less_trans)
  also have "length \<dots> < length (filter (\<lambda>p. after < pLink p \<and> want p) rows)"
    using last by (intro length_filter_less [of "last ps"]) auto
  finally show "((page, want, rows, pLink (last ps)), (page, want, rows, after))
      \<in> measure (\<lambda>(page, want, rows, after). length (filter (\<lambda>p. after < pLink p \<and> want p) rows))"
    by simp
qed simp

declare listPages.simps [simp del]

definition listPendingPage :: nat where
  "listPendingPage = 1000"

definition pgListPending :: "'z ucanTables_scheme \<Rightarrow> Pending list" where
  "pgListPending s = listPages listPendingPage (\<lambda>_. True) (ucan_pending s) ''''"

definition pgListExpiredPending :: "int \<Rightarrow> 'z ucanTables_scheme \<Rightarrow> Pending list" where
  "pgListExpiredPending now s = listPages listPendingPage (\<lambda>p. pExpires p \<le> now) (ucan_pending s) ''''"

section \<open>Paging\<close>

lemma drop_page:
  assumes "sorted_wrt (<) (map f xs)" "0 < n" "n \<le> length xs"
  shows "filter (\<lambda>x. (f (last (take n xs)) :: 'k::linorder) < f x) xs = drop n xs"
proof -
  let ?l = "last (take n xs)"
  have l: "?l = xs ! (n - 1)"
    using assms by (subst last_conv_nth) auto
  have "\<not> f ?l < f x" if "x \<in> set (take n xs)" for x
  proof -
    from that obtain i where i: "i < n" "x = xs ! i"
      using assms(3) by (auto simp: in_set_conv_nth)
    have "f (xs ! i) \<le> f (xs ! (n - 1))"
    proof (cases "i = n - 1")
      case False
      with i(1) have "i < n - 1" "n - 1 < length xs"
        using assms(3) by arith+
      with sorted_wrt_nth_less [OF assms(1), of i "n - 1"] show ?thesis
        by simp
    qed simp
    then show ?thesis
      by (simp add: l i(2) not_less)
  qed
  moreover have "f ?l < f x" if "x \<in> set (drop n xs)" for x
  proof -
    from that obtain i where i: "i < length xs - n" "x = xs ! (n + i)"
      using assms(3) by (auto simp: in_set_conv_nth)
    have "n - 1 < n + i" "n + i < length xs"
      using i(1) assms(2) by arith+
    with sorted_wrt_nth_less [OF assms(1), of "n - 1" "n + i"] show ?thesis
      by (simp add: l i(2))
  qed
  ultimately have "filter (\<lambda>x. f ?l < f x) (take n xs) = []" "filter (\<lambda>x. f ?l < f x) (drop n xs) = drop n xs"
    by (simp_all add: filter_empty_conv)
  then have "filter (\<lambda>x. f ?l < f x) (take n xs @ drop n xs) = drop n xs"
    by (simp only: filter_append append_Nil)
  then show ?thesis
    by (simp only: append_take_drop_id)
qed

lemma sort_key_strict: "distinct (map f xs) \<Longrightarrow> sorted_wrt (<) (map f (sort_key f xs))"
  by (metis distinct_sort sorted_sort_key strict_sorted_iff distinct_map set_sort)

lemma listPages_complete:
  assumes "distinct (map pLink rows)" "0 < page"
  shows "listPages page want rows after = sort_key pLink (filter (\<lambda>p. after < pLink p \<and> want p) rows)"
  using assms
proof (induction page want rows after rule: listPages.induct)
  case (1 page want rows after)
  define all where "all = sort_key pLink (filter (\<lambda>p. after < pLink p \<and> want p) rows)"
  have ps: "pendingPage page want rows after = take page all"
    by (simp add: pendingPage_def all_def)
  have strict: "sorted_wrt (<) (map pLink all)"
    unfolding all_def using 1(2) by (intro sort_key_strict) (simp add: distinct_map_filter)
  show ?case
  proof (cases "length all < page")
    case True
    then show ?thesis
      using 1(3) by (subst listPages.simps) (simp add: ps all_def [symmetric])
  next
    case False
    let ?x = "last (take page all)"
    have full: "length (take page all) = page"
      using False by simp
    then have "?x \<in> set (pendingPage page want rows after)"
      unfolding ps using 1(3) by (intro last_in_set) auto
    then have after: "after < pLink ?x"
      by (auto dest: pendingPage_set)
    have "listPages page want rows (pLink ?x) = sort_key pLink (filter (\<lambda>p. pLink ?x < pLink p \<and> want p) rows)"
      using 1(1) [OF refl] 1(2,3) full by (simp add: ps)
    also have "filter (\<lambda>p. pLink ?x < pLink p \<and> want p) rows = filter (\<lambda>p. pLink ?x < pLink p) (filter (\<lambda>p. after < pLink p \<and> want p) rows)"
      using after by (auto intro!: filter_cong dest: less_trans)
    also have "sort_key pLink \<dots> = filter (\<lambda>p. pLink ?x < pLink p) all"
      by (simp add: all_def filter_sort)
    also have "\<dots> = drop page all"
      using drop_page [OF strict 1(3)] False by simp
    finally show ?thesis
      using full 1(3) by (subst listPages.simps) (simp add: ps all_def [symmetric])
  qed
qed

section \<open>The contract\<close>

definition pgInv :: "(cid \<Rightarrow> bytes \<times> space) \<Rightarrow> 'z ucanTables_scheme \<Rightarrow> bool" where
  "pgInv own s \<longleftrightarrow> distinct (map allocKey (ucan_allocations s)) \<and> distinct (map pLink (ucan_pending s)) \<and>
     (\<forall>a\<in>set (ucan_allocations s). goodAlloc own a) \<and> (\<forall>p\<in>set (ucan_pending s). goodPending own p)"

definition pickOK :: "('a list \<Rightarrow> 'a) \<Rightarrow> bool" where
  "pickOK pick \<longleftrightarrow> (\<forall>xs. xs \<noteq> [] \<longrightarrow> pick xs \<in> set xs)"

definition pgAllocs :: "'z ucanTables_scheme \<Rightarrow> bytes \<times> space \<rightharpoonup> Allocation" where
  "pgAllocs s = rowAt allocKey (ucan_allocations s)"

definition pgPends :: "'z ucanTables_scheme \<Rightarrow> cid \<rightharpoonup> Pending" where
  "pgPends s = rowAt pLink (ucan_pending s)"

lemma byLink_None: "linkDefined l \<Longrightarrow> byLink l rows = None \<longleftrightarrow> (\<forall>a\<in>set rows. aLink a \<noteq> l)"
  by (auto simp: byLink_def find_None_iff)

lemma byLink_Some: "byLink l rows = Some a \<Longrightarrow> a \<in> set rows \<and> aLink a = l \<and> linkDefined l"
  unfolding byLink_def by (drule find_SomeD) auto

lemma pgHandOver_law:
  assumes "pickOK pick" "pgInv own s" "a \<in> set (ucan_allocations s)" "s' = pgHandOverClaim pick l a s"
  shows "pgInv own s' \<and> ucan_pending s' = ucan_pending s \<and> handOverSpec (pgPends s) l a (pgAllocs s) (pgAllocs s')"
proof -
  define others where "others = filter (\<lambda>p. pDigest p = aDigest a \<and> pSpace p = aSpace a \<and> pLink p \<noteq> l) (ucan_pending s)"
  have ran: "ran (pgPends s) = set (ucan_pending s)"
    using assms(2) by (simp add: pgPends_def pgInv_def ran_rowAt)
  have others': "p \<in> set others \<longleftrightarrow> p \<in> ran (pgPends s) \<and> otherUpload l a p" for p
    by (auto simp: others_def ran otherUpload_def)
  show ?thesis
  proof (cases "others = []")
    case True
    then have s': "s' = s\<lparr>ucan_allocations := deleteAt allocKey (allocKey a) (ucan_allocations s)\<rparr>"
      using assms(4) by (simp add: pgHandOverClaim_def others_def)
    have "\<not> (\<exists>p\<in>ran (pgPends s). otherUpload l a p)"
      using others' True by auto
    moreover have "pgInv own s'"
      using assms(2) distinct_deleteAt [of allocKey] by (auto simp: pgInv_def s' set_deleteAt)
    ultimately show ?thesis
      by (simp add: handOverSpec_def s' pgAllocs_def rowAt_deleteAt)
  next
    case False
    define p where "p = pick others"
    have p: "p \<in> ran (pgPends s)" "otherUpload l a p"
      using assms(1) False others' by (auto simp: pickOK_def p_def)
    have s': "s' = s\<lparr>ucan_allocations := updateAt allocKey (allocKey a) (\<lambda>x. handedOver x p) (ucan_allocations s)\<rparr>"
      using assms(4) False by (simp add: pgHandOverClaim_def others_def p_def Let_def)
    have good: "goodAlloc own (handedOver x p)" if "x \<in> set (ucan_allocations s)" "allocKey x = allocKey a" for x
      using p that assms(2) by (auto simp: pgInv_def goodAlloc_def goodPending_def handedOver_def otherUpload_def ran)
    have "rowAt allocKey (ucan_allocations s) (allocKey a) = Some a"
      using assms(2,3) rowAt_key [of allocKey "ucan_allocations s" a] by (simp add: pgInv_def)
    then have "pgAllocs s' = (pgAllocs s)(allocKey a \<mapsto> handedOver a p)"
      using rowAt_updateAt [of allocKey "\<lambda>x. handedOver x p" "allocKey a" "ucan_allocations s"]
      by (simp add: s' pgAllocs_def handedOver_def)
    moreover have "pgInv own s'"
      using assms(2) good distinct_updateAt [of allocKey "allocKey a" "\<lambda>x. handedOver x p" "ucan_allocations s"]
      by (auto simp: pgInv_def s' updateAt_def handedOver_def split: if_splits)
    ultimately show ?thesis
      using p by (auto simp: handOverSpec_def s')
  qed
qed

text \<open>A change of one table inside a transaction.\<close>

lemma Run_pure:
  assumes "Run j ok (\<lambda>s. (Inr (f s), g s)) s = (r, s')"
  obtains (failed) "r = Inl BackendError" "s' = s" | (changed) "r = Inr (f s)" "s' = g s"
proof (cases ok)
  case True
  with assms show thesis
    by (intro changed) (simp_all add: Run_def)
next
  case False
  with assms show thesis
    by (intro failed) (simp_all add: Run_def)
qed

lemma scanRow_Run:
  assumes "Run j ok (\<lambda>s. scanRow (f s) s) s = (r, s')"
  shows "s' = s \<and> (\<forall>a. r = Inr a \<longrightarrow> f s = Some a) \<and> (r = Inl ErrNotFound \<longrightarrow> f s = None)"
  using assms by (auto simp: Run_def scanRow_def sfail_def sreturn_def split: if_splits option.splits)

lemma pgInv_upsert:
  "pgInv own s \<Longrightarrow> goodPending own p \<Longrightarrow> pgInv own (s\<lparr>ucan_pending := upsert pLink p (ucan_pending s)\<rparr>)"
  using set_upsert [of pLink p "ucan_pending s"] by (auto simp: pgInv_def distinct_upsert)

lemma pgReleasePending_law:
  assumes "pickOK pick" "pgInv own s" "pgReleasePending pick j ok p0 s = (r, s')"
  shows "pgInv own s' \<and>
      (\<forall>p. r = Inr p \<longrightarrow> p = (case pgPends s (pLink p0) of None \<Rightarrow> p0 | Some l \<Rightarrow> l) \<and> pgPends s' = (pgPends s)(pLink p0 := None) \<and>
        (case pgAllocs s (pDigest p, pSpace p) of
          Some a \<Rightarrow> if pDigest p \<noteq> [] \<and> aLink a = pLink p0 then handOverSpec (pgPends s) (pLink p0) a (pgAllocs s) (pgAllocs s')
            else pgAllocs s' = pgAllocs s
        | None \<Rightarrow> pgAllocs s' = pgAllocs s))"
proof -
  define p where "p = (case pgPends s (pLink p0) of None \<Rightarrow> p0 | Some l \<Rightarrow> l)"
  define s1 where "s1 = (if pDigest p = [] then s
      else (case pgAllocs s (pDigest p, pSpace p) of
        None \<Rightarrow> s | Some a \<Rightarrow> if aLink a = pLink p then pgHandOverClaim pick (pLink p) a s else s))"
  have link: "pLink p = pLink p0"
    by (auto simp: p_def pgPends_def dest: rowAt_SomeD split: option.split)
  have "r = Inl BackendError \<and> s' = s \<or> r = Inr p \<and> s' = s1\<lparr>ucan_pending := deleteAt pLink (pLink p) (ucan_pending s1)\<rparr>"
    using assms(3) unfolding pgReleasePending_def Run_def p_def [unfolded pgPends_def, symmetric] s1_def [unfolded pgAllocs_def, symmetric] Let_def
    by (auto split: if_splits)
  moreover have s1: "pgInv own s1" "ucan_pending s1 = ucan_pending s"
    "case pgAllocs s (pDigest p, pSpace p) of
          Some a \<Rightarrow> if pDigest p \<noteq> [] \<and> aLink a = pLink p0 then handOverSpec (pgPends s) (pLink p0) a (pgAllocs s) (pgAllocs s1)
            else pgAllocs s1 = pgAllocs s
        | None \<Rightarrow> pgAllocs s1 = pgAllocs s"
    using assms(2) pgHandOver_law [OF assms(1,2) _ refl] link
    by (auto simp: s1_def pgAllocs_def dest: rowAt_SomeD split: option.splits)
  moreover have "pgInv own (s1\<lparr>ucan_pending := deleteAt pLink (pLink p) (ucan_pending s1)\<rparr>)"
    using s1(1) distinct_deleteAt [of pLink "ucan_pending s1"] by (auto simp: pgInv_def set_deleteAt)
  ultimately show ?thesis
    using assms(2) link unfolding p_def [symmetric]
    by (auto simp: pgPends_def pgAllocs_def rowAt_deleteAt split: option.splits)
qed

lemma postgres_contract:
  "allocation_store own (\<lambda>s. pickOK pick \<and> pgInv own s) pgAllocs pgPends (pgGet j ok) (pgGetByTask j ok) (pgClaim j ok) (pgMakeCurrent j ok)
    (pgDelete j ok) (pgReleaseByTask pick j ok) (pgPutPending j ok) (pgReleasePending pick j ok)"
proof (rule allocation_store.intro, goal_cases)
  case (1 s k a)
  then show ?case
    by (auto simp: pgAllocs_def pgInv_def dest: rowAt_SomeD)
next
  case (2 s l p)
  then show ?case
    by (auto simp: pgPends_def pgInv_def dest: rowAt_SomeD)
next
  case (3 s d sp r s')
  then show ?case
    using scanRow_Run [of j ok "\<lambda>s. rowAt allocKey (ucan_allocations s) (d, sp)" s r s'] by (auto simp: pgGet_def pgAllocs_def)
next
  case (4 s l r s')
  then have ran: "ran (pgAllocs s) = set (ucan_allocations s)"
    by (simp add: pgAllocs_def pgInv_def ran_rowAt)
  with 4 show ?case
    using scanRow_Run [of j ok "\<lambda>s. byLink l (ucan_allocations s)" s r s'] byLink_Some [of l "ucan_allocations s"] byLink_None [of l "ucan_allocations s"]
    by (auto simp: pgGetByTask_def)
next
  case (5 s a r s')
  then have a: "goodAlloc own a" "pgInv own s" "pickOK pick"
    by auto
  show ?case
  proof (cases "pgAllocs s (allocKey a)")
    case None
    then have new: "pgInv own (s\<lparr>ucan_allocations := ucan_allocations s @ [a]\<rparr>)"
      "pgAllocs (s\<lparr>ucan_allocations := ucan_allocations s @ [a]\<rparr>) = (pgAllocs s)(allocKey a \<mapsto> a)"
      using a(1,2) rowAt_upsert [of allocKey a "ucan_allocations s"]
      by (auto simp: pgAllocs_def pgInv_def rowAt_None upsert_def)
    with None a 5(3) show ?thesis
      by (auto simp: pgClaim_def Run_def pgAllocs_def pgPends_def split: if_splits)
  next
    case (Some x)
    with a 5(3) show ?thesis
      by (auto simp: pgClaim_def Run_def pgAllocs_def split: if_splits)
  qed
next
  case (6 s l d sp r s')
  let ?t = "s\<lparr>ucan_allocations := updateAt allocKey (d, sp) (\<lambda>a. a\<lparr>aLink := l\<rparr>) (ucan_allocations s)\<rparr>"
  have "pgInv own ?t"
    using 6 distinct_updateAt [of allocKey "(d, sp)" "\<lambda>a. a\<lparr>aLink := l\<rparr>" "ucan_allocations s"]
    by (auto simp: pgInv_def updateAt_def goodAlloc_def split: if_splits)
  moreover have "pgAllocs ?t = (pgAllocs s)((d, sp) := map_option (\<lambda>a. a\<lparr>aLink := l\<rparr>) (pgAllocs s (d, sp)))"
    using rowAt_updateAt [of allocKey "\<lambda>a. a\<lparr>aLink := l\<rparr>" "(d, sp)" "ucan_allocations s"] by (simp add: pgAllocs_def)
  ultimately show ?case
    using 6 by (auto simp: pgMakeCurrent_def pgPends_def elim!: Run_pure)
next
  case (7 s d sp r s')
  then show ?case
    using distinct_deleteAt [of allocKey "ucan_allocations s" "(d, sp)"]
    by (auto simp: pgDelete_def pgPends_def pgAllocs_def pgInv_def rowAt_deleteAt set_deleteAt elim!: Run_pure)
next
  case (8 s l r s')
  then have s: "pickOK pick" "pgInv own s"
    by auto
  have ran: "ran (pgAllocs s) = set (ucan_allocations s)"
    using s by (simp add: pgAllocs_def pgInv_def ran_rowAt)
  show ?case
  proof (cases "byLink l (ucan_allocations s)")
    case None
    with 8 byLink_None [of l "ucan_allocations s"] show ?thesis
      by (auto simp: pgReleaseByTask_def Run_def releaseSpec_def ran split: if_splits)
  next
    case (Some a)
    note a = byLink_Some [OF Some]
    from pgHandOver_law [OF s conjunct1 [OF a] refl, of l] a Some 8(3) s show ?thesis
      by (auto simp: pgReleaseByTask_def Run_def releaseSpec_def ran pgPends_def split: if_splits)
  qed
next
  case (9 s p r s')
  then show ?case
    using pgInv_upsert [of own s p] by (auto simp: pgPutPending_def pgPends_def pgAllocs_def rowAt_upsert elim!: Run_pure)
next
  case (10 s p0 r s')
  then show ?case
    using pgReleasePending_law [of pick own s j ok p0 r s'] by simp
qed

interpretation pg: allocation_store own "\<lambda>s. pickOK pick \<and> pgInv own s" pgAllocs pgPends "pgGet j ok" "pgGetByTask j ok" "pgClaim j ok"
  "pgMakeCurrent j ok" "pgDelete j ok" "pgReleaseByTask pick j ok" "pgPutPending j ok" "pgReleasePending pick j ok" for own pick j ok
  by (rule postgres_contract)

section \<open>Properties\<close>



definition noRows :: ucanTables where
  "noRows = \<lparr>ucan_allocations = [], ucan_pending = []\<rparr>"



end
