(* ===== verification/Spec2Isabelle.thy ===== *)
theory Spec2Isabelle
  imports Piece_Fold Size_Policies Job_Service Allocation_Postgres
begin

text \<open>
  Verification of the storage node \<open>piri\<close>.
\<close>

end
